(* ===== verification/Prelude.thy ===== *)
theory Prelude
  imports Complex_Main "HOL-Library.Multiset" "HOL-Library.Product_Lexorder"
    "HOL-Library.AList"
begin

text \<open>
  Shared vocabulary of the development: the exceptions of Python as values, the types
  that stand for Python's dates and floats, and the generic facts on lists, options and
  maps that the component theories use.

  Conventions. A Python function that may raise returns a value of type \<open>'a res\<close>:
  \<open>Inl e\<close> for the exception \<open>e\<close>, \<open>Inr x\<close> for the result. A \<open>datetime\<close> or
  \<open>timedelta\<close> is an \<open>int\<close> (its exact number of microseconds). A Python float that
  carries a score is a \<open>rat\<close>: the model computes scores exactly, without the rounding
  error of binary floating point.
\<close>

section \<open>Exceptions as values\<close>

datatype py_error =
    KeyError
  | IndexError
  | LookupError
  | ValueError
  | TypeError
  | AssertionError
  | ZeroDivisionError
  | RuntimeError
  | AttributeError
  | FileNotFoundError

type_synonym 'a res = "py_error + 'a"

type_synonym datetime = int
type_synonym timedelta = int
type_synonym score = rat

primrec res_bind :: "'a res \<Rightarrow> ('a \<Rightarrow> 'b res) \<Rightarrow> 'b res" where
  "res_bind (Inl e) f = Inl e"
| "res_bind (Inr x) f = f x"

primrec res_map :: "('a \<Rightarrow> 'b res) \<Rightarrow> 'a list \<Rightarrow> 'b list res" where
  "res_map f [] = Inr []"
| "res_map f (x # xs) =
     res_bind (f x) (\<lambda>y. res_bind (res_map f xs) (\<lambda>ys. Inr (y # ys)))"

named_theorems model_defs \<open>definitions a component proof may unfold\<close>
named_theorems frame_simps \<open>fields an operation leaves unchanged\<close>
named_theorems inv_intros \<open>operations that preserve an invariant\<close>

lemma res_bind_Inr_iff [simp]:
  "res_bind r f = Inr y \<longleftrightarrow> (\<exists>x. r = Inr x \<and> f x = Inr y)"
  by (cases r) auto

lemma res_bind_Inl_iff:
  "res_bind r f = Inl e \<longleftrightarrow> r = Inl e \<or> (\<exists>x. r = Inr x \<and> f x = Inl e)"
  by (cases r) auto

lemma res_map_Inr_length: "res_map f xs = Inr ys \<Longrightarrow> length ys = length xs"
  by (induction xs arbitrary: ys) auto

lemma res_map_Inr_nth:
  "res_map f xs = Inr ys \<Longrightarrow> i < length xs \<Longrightarrow> f (xs ! i) = Inr (ys ! i)"
proof (induction xs arbitrary: ys i)
  case Nil
  then show ?case by simp
next
  case (Cons x xs)
  then show ?case by (cases i) auto
qed

lemma res_map_total:
  "(\<And>x. x \<in> set xs \<Longrightarrow> f x = Inr (g x)) \<Longrightarrow> res_map f xs = Inr (map g xs)"
  by (induction xs) auto

section \<open>Lists\<close>

text \<open>Exchanging two positions of a list, and what it keeps.\<close>

definition list_swap :: "'a list \<Rightarrow> nat \<Rightarrow> nat \<Rightarrow> 'a list" where
  "list_swap xs i j = xs[i := xs ! j, j := xs ! i]"

lemma length_list_swap [simp]: "length (list_swap xs i j) = length xs"
  by (simp add: list_swap_def)

lemma nth_list_swap:
  "i < length xs \<Longrightarrow> j < length xs \<Longrightarrow> k < length xs \<Longrightarrow>
   list_swap xs i j ! k = (if k = i then xs ! j else if k = j then xs ! i else xs ! k)"
  by (auto simp: list_swap_def nth_list_update)

lemma mset_list_swap [simp]:
  "i < length xs \<Longrightarrow> j < length xs \<Longrightarrow> mset (list_swap xs i j) = mset xs"
  by (simp add: list_swap_def mset_swap)

lemma butlast_nth: "i < length xs - 1 \<Longrightarrow> butlast xs ! i = xs ! i"
  by (simp add: nth_butlast)

lemma list_swap_Nil_iff [simp]: "list_swap xs i j = [] \<longleftrightarrow> xs = []"
  by (simp add: list_swap_def)

lemma last_list_swap:
  assumes "i < length xs"
  shows "last (list_swap xs i (length xs - 1)) = xs ! i"
proof -
  have "xs \<noteq> []" using assms by auto
  then show ?thesis using assms by (simp add: last_conv_nth nth_list_swap)
qed

section \<open>Python dictionaries\<close>

text \<open>
  A Python dictionary is an association list without repeated keys, in insertion order:
  storing under a key it has keeps the key's place, storing under a new key appends, as
  \<open>AList.update\<close> does. Looking up is \<open>map_of\<close>, deleting is \<open>AList.delete\<close>.
\<close>

type_synonym ('k, 'v) dict = "('k \<times> 'v) list"

abbreviation dict_get :: "('k, 'v) dict \<Rightarrow> 'k \<Rightarrow> 'v option" where
  "dict_get d k \<equiv> map_of d k"

abbreviation dict_set :: "'k \<Rightarrow> 'v \<Rightarrow> ('k, 'v) dict \<Rightarrow> ('k, 'v) dict" where
  "dict_set k v d \<equiv> AList.update k v d"

abbreviation dict_del :: "'k \<Rightarrow> ('k, 'v) dict \<Rightarrow> ('k, 'v) dict" where
  "dict_del k d \<equiv> AList.delete k d"

abbreviation dict_keys :: "('k, 'v) dict \<Rightarrow> 'k list" where
  "dict_keys d \<equiv> map fst d"

abbreviation dict_ok :: "('k, 'v) dict \<Rightarrow> bool" where
  "dict_ok d \<equiv> distinct (map fst d)"

lemma dict_get_set: "dict_get (dict_set k v d) x = (if x = k then Some v else dict_get d x)"
  by (simp add: update_conv)

lemma dict_get_del: "dict_get (dict_del k d) x = (if x = k then None else dict_get d x)"
  by (simp add: AList.delete_conv)

lemma dict_ok_set [simp]: "dict_ok d \<Longrightarrow> dict_ok (dict_set k v d)"
  by (rule distinct_update)

lemma dict_ok_del [simp]: "dict_ok d \<Longrightarrow> dict_ok (dict_del k d)"
  by (rule distinct_delete)

lemma dict_keys_set: "set (dict_keys (dict_set k v d)) = insert k (set (dict_keys d))"
  by (simp add: dom_update)

lemma dict_keys_get: "k \<in> set (dict_keys d) \<longleftrightarrow> dict_get d k \<noteq> None"
  by (auto simp: map_of_eq_None_iff)

lemmas dict_simps [simp] = dict_get_set dict_get_del


section \<open>Lists with Python's bounds checks\<close>

definition py_nth :: "'a list \<Rightarrow> nat \<Rightarrow> 'a res" where
  "py_nth xs i = (if i < length xs then Inr (xs ! i) else Inl IndexError)"

definition py_upd :: "'a list \<Rightarrow> nat \<Rightarrow> 'a \<Rightarrow> 'a list res" where
  "py_upd xs i v = (if i < length xs then Inr (xs[i := v]) else Inl IndexError)"

primrec res_fold :: "('s \<Rightarrow> 'a \<Rightarrow> 's res) \<Rightarrow> 's \<Rightarrow> 'a list \<Rightarrow> 's res" where
  "res_fold f s [] = Inr s"
| "res_fold f s (x # xs) = res_bind (f s x) (\<lambda>s'. res_fold f s' xs)"

lemma py_nth_Inr [simp]: "i < length xs \<Longrightarrow> py_nth xs i = Inr (xs ! i)"
  by (simp add: py_nth_def)

lemma py_upd_Inr [simp]: "i < length xs \<Longrightarrow> py_upd xs i v = Inr (xs[i := v])"
  by (simp add: py_upd_def)

lemma res_fold_append: "res_fold f s (xs @ ys) = res_bind (res_fold f s xs) (\<lambda>s'. res_fold f s' ys)"
proof (induction xs arbitrary: s)
  case (Cons x xs)
  then show ?case by (cases "f s x") simp_all
qed simp

lemma res_fold_pure:
  assumes "\<And>s x. I s \<Longrightarrow> x \<in> set xs \<Longrightarrow> f s x = Inr (g s x) \<and> I (g s x)" "I s"
  shows "res_fold f s xs = Inr (foldl g s xs)"
  using assms by (induction xs arbitrary: s) auto

lemma res_fold_index:
  assumes "I 0 s" "\<And>k s. k < length xs \<Longrightarrow> I k s \<Longrightarrow> \<exists>s'. f s (xs ! k) = Inr s' \<and> I (Suc k) s'"
  shows "\<exists>s'. res_fold f s xs = Inr s' \<and> I (length xs) s'"
proof -
  have "\<exists>s'. res_fold f s (take k xs) = Inr s' \<and> I k s'" if "k \<le> length xs" for k
    using that
  proof (induction k)
    case (Suc k)
    then obtain s1 where s1: "res_fold f s (take k xs) = Inr s1" "I k s1" by auto
    then obtain s2 where "f s1 (xs ! k) = Inr s2" "I (Suc k) s2"
      using assms(2) [of k s1] Suc.prems by auto
    then show ?case using s1 Suc.prems by (simp add: take_Suc_conv_app_nth res_fold_append)
  qed (use assms(1) in simp)
  from this [of "length xs"] show ?thesis by simp
qed

section \<open>JSON values\<close>

text \<open>
  The parameters of score types are JSON values. A dictionary is an association list with
  distinct keys; a number written without a fraction is an \<open>int\<close>, any other number a \<open>rat\<close>.
\<close>

datatype json =
    JNull
  | JBool bool
  | JInt int
  | JFloat rat
  | JStr string
  | JList "json list"
  | JDict "(string \<times> json) list"

text \<open>Python's truth value of an object.\<close>

fun py_truth :: "json \<Rightarrow> bool" where
  "py_truth JNull = False"
| "py_truth (JBool b) = b"
| "py_truth (JInt i) = (i \<noteq> 0)"
| "py_truth (JFloat r) = (r \<noteq> 0)"
| "py_truth (JStr s) = (s \<noteq> [])"
| "py_truth (JList l) = (l \<noteq> [])"
| "py_truth (JDict d) = (d \<noteq> [])"

text \<open>
  What Python's \<^verbatim>\<open>float()\<close> makes of the outcome column of an evaluation: the column is null, or a
  string that is no number, or a number.
\<close>

datatype outcome = NoOutcome | BadOutcome | Outcome rat

fun float_of :: "outcome \<Rightarrow> rat res" where
  "float_of NoOutcome = Inl TypeError"
| "float_of BadOutcome = Inl ValueError"
| "float_of (Outcome r) = Inr r"


section \<open>Numbers and slices\<close>

text \<open>A Python number in a JSON value; a bool counts as an int.\<close>

fun json_num :: "json \<Rightarrow> rat res" where
  "json_num (JInt i) = Inr (of_int i)"
| "json_num (JFloat r) = Inr r"
| "json_num (JBool b) = Inr (if b then 1 else 0)"
| "json_num _ = Inl TypeError"

text \<open>\<^verbatim>\<open>round(x, p)\<close>: to the nearest multiple of \<open>10 ^ -p\<close>, ties to the even one.\<close>

definition round_half_even :: "rat \<Rightarrow> int" where
  "round_half_even y =
     (let f = \<lfloor>y\<rfloor>; d = y - of_int f
      in if d < 1 / 2 then f else if 1 / 2 < d then f + 1 else if even f then f else f + 1)"

definition py_round :: "rat \<Rightarrow> nat \<Rightarrow> rat" where
  "py_round x p = of_int (round_half_even (x * 10 ^ p)) / 10 ^ p"

text \<open>A bound of a slice: a negative one counts from the end, and both are cut to the list.\<close>

definition slice_bound :: "int \<Rightarrow> nat \<Rightarrow> nat" where
  "slice_bound b n = (if b < 0 then nat (int n + b) else min (nat b) n)"

definition py_slice :: "'a list \<Rightarrow> int \<Rightarrow> int \<Rightarrow> 'a list" where
  "py_slice xs a b = drop (slice_bound a (length xs)) (take (slice_bound b (length xs)) xs)"

text \<open>\<^verbatim>\<open>str\<close> of an integer.\<close>

fun digits :: "nat \<Rightarrow> string" where
  "digits n = (if n < 10 then [char_of (48 + n)] else digits (n div 10) @ [char_of (48 + n mod 10)])"

declare digits.simps [simp del]

definition str_int :: "int \<Rightarrow> string" where
  "str_int i = (if i < 0 then ''-'' @ digits (nat (- i)) else digits (nat i))"

lemma round_half_even_of_int [simp]: "round_half_even (of_int i) = i"
  by (simp add: round_half_even_def)

lemma round_half_even_mono:
  assumes "x \<le> y"
  shows "round_half_even x \<le> round_half_even y"
proof (cases "\<lfloor>x\<rfloor> = \<lfloor>y\<rfloor>")
  case True
  then show ?thesis using assms by (auto simp: round_half_even_def Let_def)
next
  case False
  then have "\<lfloor>x\<rfloor> + 1 \<le> \<lfloor>y\<rfloor>" using floor_mono [OF assms] by linarith
  moreover have "round_half_even x \<le> \<lfloor>x\<rfloor> + 1" "\<lfloor>y\<rfloor> \<le> round_half_even y"
    by (auto simp: round_half_even_def Let_def)
  ultimately show ?thesis by linarith
qed

lemma py_round_mono: "x \<le> y \<Longrightarrow> py_round x p \<le> py_round y p"
  unfolding py_round_def
  by (intro divide_right_mono) (auto intro!: round_half_even_mono mult_right_mono)

lemma py_round_0 [simp]: "py_round 0 p = 0"
  using round_half_even_of_int [of 0] by (simp add: py_round_def)

lemma py_round_nonneg: "0 \<le> x \<Longrightarrow> 0 \<le> py_round x p"
  using py_round_mono [of 0 x p] by simp

lemma py_round_idem [simp]: "py_round (py_round x p) p = py_round x p"
  by (simp add: py_round_def)

text \<open>What is rounded already adds up to something rounded already.\<close>

lemma py_round_fixed_iff: "py_round x p = x \<longleftrightarrow> (\<exists>i :: int. x = of_int i / 10 ^ p)"
proof
  assume "py_round x p = x"
  then show "\<exists>i :: int. x = of_int i / 10 ^ p" unfolding py_round_def by metis
qed (auto simp: py_round_def)

lemma py_round_fixed_add: "py_round x p = x \<Longrightarrow> py_round y p = y \<Longrightarrow> py_round (x + y) p = x + y"
  by (auto simp: py_round_fixed_iff) (metis add_divide_distrib of_int_add)

lemma py_round_fixed_sum:
  "(\<forall>x \<in> set xs. py_round x p = x) \<Longrightarrow> py_round (sum_list xs) p = sum_list xs"
  by (induction xs) (auto intro: py_round_fixed_add)


lemma isl_res_bind [simp]: "isl (res_bind r f) \<longleftrightarrow> isl r \<or> isl (f (projr r))"
  by (cases r) auto

lemma res_okI: "\<not> isl r \<Longrightarrow> \<exists>y. r = Inr y"
  by (cases r) auto


lemma res_bindE: "res_bind r f = Inr y \<Longrightarrow> (\<And>x. r = Inr x \<Longrightarrow> f x = Inr y \<Longrightarrow> P) \<Longrightarrow> P"
  by (cases r) auto


lemma fst_set_dict_set: "fst ` set (dict_set k v d) = insert k (fst ` set d)"
  using dict_keys_set [of k v d] by simp

end
