(* ===== verification/PriorityQueue.thy ===== *)
theory PriorityQueue
  imports Prelude
begin

text \<open>
  The priority queue of \<^verbatim>\<open>cms/io/priorityqueue.py\<close>: a min-heap in a Python list with a
  reverse dictionary from items to positions. The definitions follow the class method by
  method; the lemmas show that every operation keeps the heap order and the reverse
  dictionary in step, that \<open>pop\<close> returns the least entry, and that the queue implements a
  finite map from items to keys (the contract \<open>keyed_queue\<close>).
\<close>

section \<open>Model\<close>

text \<open>\<^verbatim>\<open>QueueEntry\<close>: the item with its priority, timestamp and tie-breaking index.\<close>

record 'i queue_entry =
  qe_item :: 'i
  qe_priority :: int
  qe_timestamp :: datetime
  qe_index :: int

definition entry_key :: "'i queue_entry \<Rightarrow> int \<times> datetime \<times> int" where
  "entry_key e = (qe_priority e, qe_timestamp e, qe_index e)"

text \<open>\<^verbatim>\<open>QueueEntry.__eq__\<close> and \<^verbatim>\<open>QueueEntry.__lt__\<close>: tuple comparison.\<close>

definition entry_eq :: "'i queue_entry \<Rightarrow> 'i queue_entry \<Rightarrow> bool" where
  "entry_eq a b \<longleftrightarrow>
     (qe_priority a, qe_timestamp a, qe_index a) = (qe_priority b, qe_timestamp b, qe_index b)"

definition entry_lt :: "'i queue_entry \<Rightarrow> 'i queue_entry \<Rightarrow> bool" where
  "entry_lt a b \<longleftrightarrow>
     (qe_priority a, qe_timestamp a, qe_index a) < (qe_priority b, qe_timestamp b, qe_index b)"

text \<open>The priority levels.\<close>

definition PRIORITY_EXTRA_HIGH :: int where "PRIORITY_EXTRA_HIGH = 0"
definition PRIORITY_HIGH :: int where "PRIORITY_HIGH = 1"
definition PRIORITY_MEDIUM :: int where "PRIORITY_MEDIUM = 2"
definition PRIORITY_LOW :: int where "PRIORITY_LOW = 3"
definition PRIORITY_EXTRA_LOW :: int where "PRIORITY_EXTRA_LOW = 4"

record 'i pqueue =
  pq_queue :: "'i queue_entry list"
  pq_reverse :: "('i, nat) dict"
  pq_event :: bool
  pq_next_index :: int

definition pq_init :: "'i pqueue" where
  "pq_init = \<lparr>pq_queue = [], pq_reverse = [], pq_event = False, pq_next_index = 0\<rparr>"

definition pq_length :: "'i pqueue \<Rightarrow> nat" where
  "pq_length q = length (pq_queue q)"

definition pq_empty :: "'i pqueue \<Rightarrow> bool" where
  "pq_empty q \<longleftrightarrow> pq_length q = 0"

definition pq_contains :: "'i pqueue \<Rightarrow> 'i \<Rightarrow> bool" where
  "pq_contains q x \<longleftrightarrow> dict_get (pq_reverse q) x \<noteq> None"

text \<open>
  \<^verbatim>\<open>_verify\<close>. Reading \<^verbatim>\<open>self._queue[idx]\<close> out of range would raise; the model answers
  \<open>False\<close> there, so a true answer also says that no index is out of range.
\<close>

definition pq_verify :: "'i pqueue \<Rightarrow> bool" where
  "pq_verify q \<longleftrightarrow>
     length (pq_queue q) = length (pq_reverse q) \<and>
     length (pq_queue q) = pq_length q \<and>
     pq_empty q = (pq_length q = 0) \<and>
     pq_event q \<noteq> pq_empty q \<and>
     list_all (\<lambda>(x, idx). idx < length (pq_queue q) \<and> qe_item (pq_queue q ! idx) = x)
       (pq_reverse q)"

text \<open>\<^verbatim>\<open>_swap\<close>: exchange two positions and store both reverse indices.\<close>

definition pq_swap :: "'i pqueue \<Rightarrow> nat \<Rightarrow> nat \<Rightarrow> 'i pqueue" where
  "pq_swap q idx1 idx2 =
     (let es = list_swap (pq_queue q) idx1 idx2
      in q\<lparr>pq_queue := es,
           pq_reverse := dict_set (qe_item (es ! idx2)) idx2
                           (dict_set (qe_item (es ! idx1)) idx1 (pq_reverse q))\<rparr>)"

function pq_up_heap :: "'i pqueue \<Rightarrow> nat \<Rightarrow> 'i pqueue \<times> nat" where
  "pq_up_heap q idx =
     (if 0 < idx then
        let parent = (idx - 1) div 2
        in if entry_lt (pq_queue q ! idx) (pq_queue q ! parent)
           then pq_up_heap (pq_swap q parent idx) parent
           else (q, idx)
      else (q, idx))"
  by pat_completeness auto
termination
  by (relation "measure snd") auto

text \<open>The smaller child that \<^verbatim>\<open>_down_heap\<close> compares with.\<close>

definition pq_child :: "'i pqueue \<Rightarrow> nat \<Rightarrow> nat" where
  "pq_child q idx =
     (if 2 * idx + 2 < length (pq_queue q) \<and>
         entry_lt (pq_queue q ! (2 * idx + 2)) (pq_queue q ! (2 * idx + 1))
      then 2 * idx + 2 else 2 * idx + 1)"

lemma pq_queue_swap [simp]: "pq_queue (pq_swap q i j) = list_swap (pq_queue q) i j"
  by (simp add: pq_swap_def Let_def)

lemma pq_child_bounds: "idx < pq_child q idx" "pq_child q idx \<le> 2 * idx + 2"
  by (auto simp: pq_child_def)

lemma pq_child_less: "2 * idx + 1 < length (pq_queue q) \<Longrightarrow> pq_child q idx < length (pq_queue q)"
  by (auto simp: pq_child_def)

function pq_down_heap :: "'i pqueue \<Rightarrow> nat \<Rightarrow> 'i pqueue \<times> nat" where
  "pq_down_heap q idx =
     (if 2 * idx + 1 < length (pq_queue q) then
        let child = pq_child q idx
        in if entry_lt (pq_queue q ! child) (pq_queue q ! idx)
           then pq_down_heap (pq_swap q child idx) child
           else (q, idx)
      else (q, idx))"
  by pat_completeness auto
termination
proof (relation "measure (\<lambda>(q, idx). length (pq_queue q) - idx)")
  show "wf (measure (\<lambda>(q :: 'a pqueue, idx). length (pq_queue q) - idx))" by simp
next
  fix q :: "'a pqueue" and idx child
  assume "2 * idx + 1 < length (pq_queue q)" and "child = pq_child q idx"
  then show "((pq_swap q child idx, child), q, idx)
      \<in> measure (\<lambda>(q, idx). length (pq_queue q) - idx)"
    using pq_child_bounds(1) [of idx q] by simp
qed

definition pq_updown_heap :: "'i pqueue \<Rightarrow> nat \<Rightarrow> 'i pqueue \<times> nat" where
  "pq_updown_heap q idx = (let (q', idx') = pq_up_heap q idx in pq_down_heap q' idx')"

declare pq_up_heap.simps [simp del] pq_down_heap.simps [simp del]

text \<open>\<^verbatim>\<open>push\<close>: \<open>now\<close> is what \<^verbatim>\<open>make_datetime()\<close> returns.\<close>

definition pq_push ::
  "'i pqueue \<Rightarrow> 'i \<Rightarrow> int option \<Rightarrow> datetime option \<Rightarrow> datetime \<Rightarrow> 'i pqueue \<times> bool" where
  "pq_push q x priority timestamp now =
     (if pq_contains q x then (q, False)
      else
        let p = (case priority of None \<Rightarrow> PRIORITY_MEDIUM | Some p \<Rightarrow> p);
            t = (case timestamp of None \<Rightarrow> now | Some t \<Rightarrow> t);
            e = \<lparr>qe_item = x, qe_priority = p, qe_timestamp = t, qe_index = pq_next_index q\<rparr>;
            q1 = q\<lparr>pq_next_index := pq_next_index q + 1, pq_queue := pq_queue q @ [e]\<rparr>;
            last = length (pq_queue q1) - 1;
            q2 = q1\<lparr>pq_reverse := dict_set x last (pq_reverse q1)\<rparr>;
            (q3, _) = pq_up_heap q2 last
        in (q3\<lparr>pq_event := True\<rparr>, True))"

text \<open>
  \<^verbatim>\<open>top\<close>: \<open>Inr None\<close> is the call that waits on the event, because the queue is empty
  and \<open>wait\<close> was given.
\<close>

definition pq_top :: "'i pqueue \<Rightarrow> bool \<Rightarrow> 'i queue_entry option res" where
  "pq_top q wait =
     (if \<not> pq_empty q then Inr (Some (pq_queue q ! 0))
      else if \<not> wait then Inl LookupError
      else Inr None)"

definition pq_pop :: "'i pqueue \<Rightarrow> bool \<Rightarrow> ('i pqueue \<times> 'i queue_entry) option res" where
  "pq_pop q wait =
     (case pq_top q wait of
        Inl e \<Rightarrow> Inl e
      | Inr None \<Rightarrow> Inr None
      | Inr (Some e) \<Rightarrow>
          let last = length (pq_queue q) - 1;
              q1 = pq_swap q 0 last;
              q2 = q1\<lparr>pq_reverse := dict_del (qe_item e) (pq_reverse q1)\<rparr>;
              q3 = q2\<lparr>pq_queue := butlast (pq_queue q2)\<rparr>
          in if 0 < last then Inr (Some (fst (pq_down_heap q3 0), e))
             else Inr (Some (q3\<lparr>pq_event := False\<rparr>, e)))"

definition pq_remove :: "'i pqueue \<Rightarrow> 'i \<Rightarrow> ('i pqueue \<times> 'i queue_entry) res" where
  "pq_remove q x =
     (case dict_get (pq_reverse q) x of
        None \<Rightarrow> Inl KeyError
      | Some pos \<Rightarrow>
          if length (pq_queue q) \<le> pos then Inl IndexError
          else
            let entry = pq_queue q ! pos;
                last = length (pq_queue q) - 1;
                q1 = pq_swap q pos last;
                q2 = q1\<lparr>pq_reverse := dict_del x (pq_reverse q1)\<rparr>;
                q3 = q2\<lparr>pq_queue := butlast (pq_queue q2)\<rparr>;
                q4 = (if pos \<noteq> last then fst (pq_updown_heap q3 pos) else q3);
                q5 = (if pq_empty q4 then q4\<lparr>pq_event := False\<rparr> else q4)
            in Inr (q5, entry))"

definition pq_set_priority :: "'i pqueue \<Rightarrow> 'i \<Rightarrow> int \<Rightarrow> 'i pqueue res" where
  "pq_set_priority q x priority =
     (case dict_get (pq_reverse q) x of
        None \<Rightarrow> Inl KeyError
      | Some pos \<Rightarrow>
          if length (pq_queue q) \<le> pos then Inl IndexError
          else
            let q1 = q\<lparr>pq_queue := (pq_queue q)[pos := (pq_queue q ! pos)\<lparr>qe_priority := priority\<rparr>]\<rparr>
            in Inr (fst (pq_updown_heap q1 pos)))"

record 'd queue_entry_dict =
  qd_item :: 'd
  qd_priority :: int
  qd_timestamp :: rat

text \<open>\<^verbatim>\<open>get_status\<close>, with the item's \<^verbatim>\<open>to_dict\<close> as a parameter; a timestamp is in seconds.\<close>

definition pq_get_status :: "('i \<Rightarrow> 'd) \<Rightarrow> 'i pqueue \<Rightarrow> 'd queue_entry_dict list" where
  "pq_get_status to_dict q =
     map (\<lambda>e. \<lparr>qd_item = to_dict (qe_item e), qd_priority = qe_priority e,
               qd_timestamp = of_int (qe_timestamp e) / 1000000\<rparr>) (pq_queue q)"

section \<open>Invariant\<close>

text \<open>
  The heap order on the list, and its two weakened forms while an entry is being moved:
  \<open>heap_except\<close> says nothing about position \<open>i\<close> and its children beyond what lets the
  entry move, \<open>heap_except_up\<close> and \<open>heap_except_down\<close> are the states of the two loops.
\<close>

definition par :: "nat \<Rightarrow> nat" where
  "par k = (k - 1) div 2"

definition heap_ok :: "'i queue_entry list \<Rightarrow> bool" where
  "heap_ok es \<longleftrightarrow>
     (\<forall>k < length es. 0 < k \<longrightarrow> entry_key (es ! par k) \<le> entry_key (es ! k))"

definition grand_ok :: "'i queue_entry list \<Rightarrow> nat \<Rightarrow> bool" where
  "grand_ok es i \<longleftrightarrow>
     (\<forall>k < length es. 0 < k \<longrightarrow> par k = i \<longrightarrow> 0 < i \<longrightarrow>
        entry_key (es ! par i) \<le> entry_key (es ! k))"

definition heap_except :: "'i queue_entry list \<Rightarrow> nat \<Rightarrow> bool" where
  "heap_except es i \<longleftrightarrow> grand_ok es i \<and>
     (\<forall>k < length es. 0 < k \<longrightarrow> k \<noteq> i \<longrightarrow> par k \<noteq> i \<longrightarrow>
        entry_key (es ! par k) \<le> entry_key (es ! k))"

definition heap_except_up :: "'i queue_entry list \<Rightarrow> nat \<Rightarrow> bool" where
  "heap_except_up es i \<longleftrightarrow> grand_ok es i \<and>
     (\<forall>k < length es. 0 < k \<longrightarrow> k \<noteq> i \<longrightarrow>
        entry_key (es ! par k) \<le> entry_key (es ! k))"

definition heap_except_down :: "'i queue_entry list \<Rightarrow> nat \<Rightarrow> bool" where
  "heap_except_down es i \<longleftrightarrow> grand_ok es i \<and>
     (\<forall>k < length es. 0 < k \<longrightarrow> par k \<noteq> i \<longrightarrow>
        entry_key (es ! par k) \<le> entry_key (es ! k))"

definition rev_ok :: "'i pqueue \<Rightarrow> bool" where
  "rev_ok q \<longleftrightarrow> dict_ok (pq_reverse q) \<and>
     (\<forall>x p. dict_get (pq_reverse q) x = Some p \<longleftrightarrow>
        p < length (pq_queue q) \<and> qe_item (pq_queue q ! p) = x)"

definition index_ok :: "'i pqueue \<Rightarrow> bool" where
  "index_ok q \<longleftrightarrow> distinct (map qe_index (pq_queue q)) \<and>
     (\<forall>e \<in> set (pq_queue q). qe_index e < pq_next_index q)"

definition pq_inv :: "'i pqueue \<Rightarrow> bool" where
  "pq_inv q \<longleftrightarrow> heap_ok (pq_queue q) \<and> rev_ok q \<and> index_ok q \<and>
     (pq_event q \<longleftrightarrow> pq_queue q \<noteq> [])"

text \<open>The abstraction: the finite map from queued items to their keys.\<close>

definition pq_contents :: "'i pqueue \<Rightarrow> 'i \<rightharpoonup> int \<times> datetime \<times> int" where
  "pq_contents q = map_of (map (\<lambda>e. (qe_item e, entry_key e)) (pq_queue q))"

section \<open>Swapping keeps the reverse dictionary\<close>

lemma entry_lt_key: "entry_lt a b \<longleftrightarrow> entry_key a < entry_key b"
  by (simp add: entry_lt_def entry_key_def)

lemma pq_swap_frame [frame_simps, simp]:
  "pq_event (pq_swap q i j) = pq_event q"
  "pq_next_index (pq_swap q i j) = pq_next_index q"
  by (simp_all add: pq_swap_def Let_def)

lemma rev_ok_distinct:
  assumes "rev_ok q"
  shows "distinct (map qe_item (pq_queue q))"
proof (unfold distinct_conv_nth length_map, intro allI impI)
  fix i j
  assume ij: "i < length (pq_queue q)" "j < length (pq_queue q)" "i \<noteq> j"
  have "dict_get (pq_reverse q) (qe_item (pq_queue q ! k)) = Some k" if "k < length (pq_queue q)" for k
    using assms that by (simp add: rev_ok_def)
  then show "map qe_item (pq_queue q) ! i \<noteq> map qe_item (pq_queue q) ! j"
    using ij by (metis nth_map option.inject)
qed

lemma rev_ok_inj:
  "rev_ok q \<Longrightarrow> i < length (pq_queue q) \<Longrightarrow> j < length (pq_queue q) \<Longrightarrow>
   qe_item (pq_queue q ! i) = qe_item (pq_queue q ! j) \<longleftrightarrow> i = j"
  using rev_ok_distinct [of q] by (auto simp: distinct_conv_nth)

lemma rev_ok_swap [inv_intros]:
  assumes q: "rev_ok q" and i: "i < length (pq_queue q)" and j: "j < length (pq_queue q)"
  shows "rev_ok (pq_swap q i j)"
proof -
  have get: "dict_get (pq_reverse (pq_swap q i j)) x =
      (if x = qe_item (pq_queue q ! i) then Some j
       else if x = qe_item (pq_queue q ! j) then Some i
       else dict_get (pq_reverse q) x)" for x
    using i j by (simp add: pq_swap_def Let_def nth_list_swap)
  have old: "dict_get (pq_reverse q) x = Some p \<longleftrightarrow>
      p < length (pq_queue q) \<and> qe_item (pq_queue q ! p) = x" for x p
    using q by (simp add: rev_ok_def)
  have "dict_get (pq_reverse (pq_swap q i j)) x = Some p \<longleftrightarrow>
      p < length (pq_queue q) \<and> qe_item (list_swap (pq_queue q) i j ! p) = x" for x p
    using i j q by (auto simp: get old nth_list_swap rev_ok_inj split: if_splits)
  moreover have "dict_ok (pq_reverse (pq_swap q i j))"
    using q by (simp add: rev_ok_def pq_swap_def Let_def)
  ultimately show ?thesis by (simp add: rev_ok_def)
qed

text \<open>What both sifting loops keep, by induction over the loop.\<close>

definition pq_shuffled :: "'i pqueue \<Rightarrow> 'i pqueue \<Rightarrow> bool" where
  "pq_shuffled q q' \<longleftrightarrow> mset (pq_queue q') = mset (pq_queue q) \<and>
     (rev_ok q \<longrightarrow> rev_ok q') \<and> pq_event q' = pq_event q \<and> pq_next_index q' = pq_next_index q"

lemma pq_shuffled_refl [simp]: "pq_shuffled q q"
  by (simp add: pq_shuffled_def)

lemma pq_shuffled_trans: "pq_shuffled a b \<Longrightarrow> pq_shuffled b c \<Longrightarrow> pq_shuffled a c"
  by (simp add: pq_shuffled_def)

lemma pq_shuffled_swap:
  "i < length (pq_queue q) \<Longrightarrow> j < length (pq_queue q) \<Longrightarrow> pq_shuffled q (pq_swap q i j)"
  by (simp add: pq_shuffled_def rev_ok_swap)

lemma pq_shuffled_length: "pq_shuffled q q' \<Longrightarrow> length (pq_queue q') = length (pq_queue q)"
  unfolding pq_shuffled_def by (metis size_mset)

lemma par_less: "0 < k \<Longrightarrow> par k < k"
  by (simp add: par_def)

lemma par_eq_iff: "0 < k \<Longrightarrow> par k = i \<longleftrightarrow> k = 2 * i + 1 \<or> k = 2 * i + 2"
  by (auto simp: par_def)

lemma pq_up_heap_eq:
  "pq_up_heap q idx =
     (if 0 < idx \<and> entry_lt (pq_queue q ! idx) (pq_queue q ! par idx)
      then pq_up_heap (pq_swap q (par idx) idx) (par idx) else (q, idx))"
  by (subst pq_up_heap.simps) (simp add: par_def Let_def)

lemma pq_down_heap_eq:
  "pq_down_heap q idx =
     (if 2 * idx + 1 < length (pq_queue q) \<and> entry_lt (pq_queue q ! pq_child q idx) (pq_queue q ! idx)
      then pq_down_heap (pq_swap q (pq_child q idx) idx) (pq_child q idx) else (q, idx))"
  by (subst pq_down_heap.simps) (simp add: Let_def)

lemma pq_up_heap_induct [case_names step]:
  assumes "\<And>q idx. (0 < idx \<Longrightarrow> entry_lt (pq_queue q ! idx) (pq_queue q ! par idx) \<Longrightarrow>
      P (pq_swap q (par idx) idx) (par idx)) \<Longrightarrow> P q idx"
  shows "P q idx"
  by (induction q idx rule: pq_up_heap.induct) (rule assms, simp add: par_def)

lemma pq_up_heap_shuffled:
  "idx < length (pq_queue q) \<Longrightarrow> pq_shuffled q (fst (pq_up_heap q idx))"
proof (induction q idx rule: pq_up_heap_induct)
  case (step q idx)
  show ?case
  proof (cases "0 < idx \<and> entry_lt (pq_queue q ! idx) (pq_queue q ! par idx)")
    case True
    then have "par idx < length (pq_queue q)" using step(2) par_less [of idx] by linarith
    with True step show ?thesis
      by (auto simp: pq_up_heap_eq [of q idx] intro: pq_shuffled_trans [OF pq_shuffled_swap])
  next
    case False
    then show ?thesis by (auto simp: pq_up_heap_eq [of q idx])
  qed
qed

lemma pq_down_heap_shuffled:
  "idx < length (pq_queue q) \<Longrightarrow> pq_shuffled q (fst (pq_down_heap q idx))"
proof (induction q idx rule: pq_down_heap.induct)
  case (1 q idx)
  let ?c = "pq_child q idx"
  show ?case
  proof (cases "2 * idx + 1 < length (pq_queue q) \<and> entry_lt (pq_queue q ! ?c) (pq_queue q ! idx)")
    case True
    then have c: "?c < length (pq_queue q)" by (simp add: pq_child_less)
    have "pq_shuffled q (pq_swap q ?c idx)" using c 1(2) by (rule pq_shuffled_swap)
    moreover have "pq_shuffled (pq_swap q ?c idx) (fst (pq_down_heap (pq_swap q ?c idx) ?c))"
      using True c by (intro 1(1)) auto
    ultimately show ?thesis
      using True by (auto simp: pq_down_heap_eq [of q idx] intro: pq_shuffled_trans)
  next
    case False
    then show ?thesis by (auto simp: pq_down_heap_eq [of q idx])
  qed
qed

lemma pq_up_heap_index: "idx < n \<Longrightarrow> snd (pq_up_heap q idx) < n"
proof (induction q idx rule: pq_up_heap_induct)
  case (step q idx)
  then show ?case using par_less [of idx] by (auto simp: pq_up_heap_eq [of q idx])
qed

lemma pq_updown_heap_shuffled:
  "idx < length (pq_queue q) \<Longrightarrow> pq_shuffled q (fst (pq_updown_heap q idx))"
  using pq_up_heap_shuffled [of idx q] pq_up_heap_index [of idx "length (pq_queue q)" q]
  by (auto simp: pq_updown_heap_def Let_def case_prod_beta pq_shuffled_length
      intro!: pq_shuffled_trans [OF _ pq_down_heap_shuffled])

section \<open>Sifting restores the heap order\<close>

lemma heap_ok_except_down: "heap_ok es \<Longrightarrow> heap_except_down es i"
  unfolding heap_except_down_def grand_ok_def heap_ok_def
  by (meson order_trans par_less order_less_trans)

lemma except_up_except: "heap_except_up es i \<Longrightarrow> heap_except es i"
  by (simp add: heap_except_up_def heap_except_def)

lemma except_up_heap:
  "heap_except_up es i \<Longrightarrow> (0 < i \<longrightarrow> entry_key (es ! par i) \<le> entry_key (es ! i)) \<Longrightarrow> heap_ok es"
  unfolding heap_except_up_def heap_ok_def by blast

lemma except_stop_up:
  "heap_except es i \<Longrightarrow> (0 < i \<longrightarrow> entry_key (es ! par i) \<le> entry_key (es ! i)) \<Longrightarrow>
   heap_except_down es i"
  unfolding heap_except_def heap_except_down_def by blast

lemma heap_up_step:
  assumes h: "heap_except es i" and i: "0 < i" "i < length es"
    and lt: "entry_key (es ! i) < entry_key (es ! par i)"
  shows "heap_except_up (list_swap es (par i) i) (par i)"
proof -
  define p where "p = par i"
  have p: "p < i" "p < length es" using i par_less [of i] by (auto simp: p_def)
  have old: "entry_key (es ! par k) \<le> entry_key (es ! k)"
    if "k < length es" "0 < k" "k \<noteq> i" "par k \<noteq> i" for k
    using h that by (simp add: heap_except_def)
  have gr: "entry_key (es ! p) \<le> entry_key (es ! k)" if "k < length es" "0 < k" "par k = i" for k
    using h that i by (simp add: heap_except_def grand_ok_def p_def)
  have sib: "entry_key (es ! p) \<le> entry_key (es ! k)"
    if "k < length es" "0 < k" "par k = p" "k \<noteq> i" for k
    using old [of k] that p by simp
  have nth: "list_swap es p i ! k = (if k = p then es ! i else if k = i then es ! p else es ! k)"
    if "k < length es" for k
    using that i p by (simp add: nth_list_swap)
  have "entry_key (list_swap es p i ! par k) \<le> entry_key (list_swap es p i ! k)"
    if k: "k < length es" "0 < k" "k \<noteq> p" for k
  proof -
    consider "k = i" | "k \<noteq> i" "par k = i" | "k \<noteq> i" "par k = p" | "k \<noteq> i" "par k \<noteq> i" "par k \<noteq> p"
      by blast
    then show ?thesis
    proof cases
      case 1 then show ?thesis using k lt p by (simp add: nth p_def [symmetric] less_imp_le)
    next
      case 2 then show ?thesis using k gr i p by (simp add: nth)
    next
      case 3 then show ?thesis using k sib [of k] lt i p by (simp add: nth p_def [symmetric])
    next
      case 4
      moreover have "par k < length es" using k par_less [of k] by linarith
      ultimately show ?thesis using old [of k] k by (simp add: nth)
    qed
  qed
  moreover have "entry_key (list_swap es p i ! par p) \<le> entry_key (list_swap es p i ! k)"
    if k: "k < length es" "0 < k" "par k = p" "0 < p" for k
  proof -
    have pp: "par p < p" using k by (simp add: par_less)
    have "entry_key (es ! par p) \<le> entry_key (es ! p)" using old [of p] pp p k by simp
    moreover have "k = i \<or> entry_key (es ! p) \<le> entry_key (es ! k)" using sib k by blast
    moreover have "k \<noteq> p" using k par_less [of k] by linarith
    ultimately show ?thesis using k pp p by (auto simp: nth)
  qed
  ultimately show ?thesis
    by (simp add: heap_except_up_def grand_ok_def p_def)
qed

lemma heap_down_step:
  assumes h: "heap_except_down es i" and c: "0 < c" "c < length es" "par c = i"
    and least: "\<And>k. k < length es \<Longrightarrow> 0 < k \<Longrightarrow> par k = i \<Longrightarrow> entry_key (es ! c) \<le> entry_key (es ! k)"
    and lt: "entry_key (es ! c) < entry_key (es ! i)"
  shows "heap_except_down (list_swap es c i) c"
proof -
  have i: "i < c" "i < length es" using c par_less [of c] by auto
  have old: "entry_key (es ! par k) \<le> entry_key (es ! k)"
    if "k < length es" "0 < k" "par k \<noteq> i" for k
    using h that by (simp add: heap_except_down_def)
  have gr: "entry_key (es ! par i) \<le> entry_key (es ! k)"
    if "k < length es" "0 < k" "par k = i" "0 < i" for k
    using h that by (simp add: heap_except_down_def grand_ok_def)
  have nth: "list_swap es c i ! k = (if k = c then es ! i else if k = i then es ! c else es ! k)"
    if "k < length es" for k
    using that i c by (simp add: nth_list_swap)
  have "entry_key (list_swap es c i ! par k) \<le> entry_key (list_swap es c i ! k)"
    if k: "k < length es" "0 < k" "par k \<noteq> c" for k
  proof -
    consider "k = c" | "k \<noteq> c" "par k = i" | "k = i" "par k \<noteq> i" | "k \<noteq> i" "k \<noteq> c" "par k \<noteq> i"
      by blast
    then show ?thesis
    proof cases
      case 1 then show ?thesis using k lt c i by (simp add: nth)
    next
      case 2
      then have "k \<noteq> i" using k par_less [of k] by linarith
      then show ?thesis using 2 k least [of k] i by (simp add: nth)
    next
      case 3
      moreover have "par i < length es" using 3 k par_less [of k] by simp
      ultimately show ?thesis using k gr [of c] c i by (simp add: nth)
    next
      case 4
      moreover have "par k < length es" using k par_less [of k] by linarith
      ultimately show ?thesis using old [of k] k by (simp add: nth)
    qed
  qed
  moreover have "entry_key (list_swap es c i ! par c) \<le> entry_key (list_swap es c i ! k)"
    if k: "k < length es" "0 < k" "par k = c" for k
  proof -
    have "k \<noteq> i" "k \<noteq> c" using k i par_less [of k] by auto
    then show ?thesis using k old [of k] c i by (simp add: nth)
  qed
  ultimately show ?thesis by (simp add: heap_except_down_def grand_ok_def)
qed

lemma pq_child_least:
  assumes "k < length (pq_queue q)" "0 < k" "par k = idx"
  shows "entry_key (pq_queue q ! pq_child q idx) \<le> entry_key (pq_queue q ! k)"
proof -
  have "k = 2 * idx + 1 \<or> k = 2 * idx + 2" using assms by (simp add: par_eq_iff)
  then show ?thesis using assms(1) by (auto simp: pq_child_def entry_lt_key not_less)
qed

lemma par_pq_child: "par (pq_child q idx) = idx"
  by (simp add: pq_child_def par_def)

lemma pq_up_heap_ok:
  "heap_except_up (pq_queue q) idx \<Longrightarrow> idx < length (pq_queue q) \<Longrightarrow>
   heap_ok (pq_queue (fst (pq_up_heap q idx)))"
proof (induction q idx rule: pq_up_heap_induct)
  case (step q idx)
  show ?case
  proof (cases "0 < idx \<and> entry_lt (pq_queue q ! idx) (pq_queue q ! par idx)")
    case True
    then have "heap_except_up (pq_queue (pq_swap q (par idx) idx)) (par idx)"
      using step(2,3) by (auto simp: entry_lt_key intro!: heap_up_step except_up_except)
    moreover have "par idx < length (pq_queue q)" using True step(3) par_less [of idx] by linarith
    ultimately have "heap_ok (pq_queue (fst (pq_up_heap (pq_swap q (par idx) idx) (par idx))))"
      using True by (intro step(1)) auto
    with True show ?thesis by (simp add: pq_up_heap_eq [of q idx])
  next
    case False
    then have "heap_ok (pq_queue q)"
      using step by (intro except_up_heap) (auto simp: entry_lt_key not_less)
    with False show ?thesis by (auto simp: pq_up_heap_eq [of q idx])
  qed
qed

lemma pq_up_heap_except:
  assumes "heap_except (pq_queue q) idx" "idx < length (pq_queue q)"
  shows "heap_except_down (pq_queue (fst (pq_up_heap q idx))) (snd (pq_up_heap q idx))"
proof (cases "0 < idx \<and> entry_lt (pq_queue q ! idx) (pq_queue q ! par idx)")
  case True
  then have "heap_except_up (pq_queue (pq_swap q (par idx) idx)) (par idx)"
    using assms by (auto simp: entry_lt_key intro: heap_up_step)
  then have "heap_ok (pq_queue (fst (pq_up_heap (pq_swap q (par idx) idx) (par idx))))"
    using assms par_less [of idx] True by (intro pq_up_heap_ok) auto
  with True show ?thesis
    by (simp add: pq_up_heap_eq [of q idx] heap_ok_except_down)
next
  case False
  then have "heap_except_down (pq_queue q) idx"
    using assms by (intro except_stop_up) (auto simp: entry_lt_key not_less)
  with False show ?thesis by (auto simp: pq_up_heap_eq [of q idx])
qed

lemma pq_down_heap_ok:
  "heap_except_down (pq_queue q) idx \<Longrightarrow> idx < length (pq_queue q) \<Longrightarrow>
   heap_ok (pq_queue (fst (pq_down_heap q idx)))"
proof (induction q idx rule: pq_down_heap.induct)
  case (1 q idx)
  let ?c = "pq_child q idx"
  show ?case
  proof (cases "2 * idx + 1 < length (pq_queue q) \<and> entry_lt (pq_queue q ! ?c) (pq_queue q ! idx)")
    case True
    have c: "0 < ?c" "?c < length (pq_queue q)" "par ?c = idx"
      using True pq_child_bounds(1) [of idx q] by (auto simp: pq_child_less par_pq_child)
    have "heap_except_down (pq_queue (pq_swap q ?c idx)) ?c"
      using True 1(2) c pq_child_least by (auto simp: entry_lt_key intro!: heap_down_step)
    then have "heap_ok (pq_queue (fst (pq_down_heap (pq_swap q ?c idx) ?c)))"
      using True c by (intro 1(1)) auto
    with True show ?thesis by (simp add: pq_down_heap_eq [of q idx])
  next
    case False
    have "entry_key (pq_queue q ! idx) \<le> entry_key (pq_queue q ! k)"
      if k: "k < length (pq_queue q)" "0 < k" "par k = idx" for k
    proof -
      have "2 * idx + 1 < length (pq_queue q)" using k by (auto simp: par_eq_iff)
      then show ?thesis
        using False pq_child_least [OF k] by (simp add: entry_lt_key not_less)
    qed
    then have "heap_ok (pq_queue q)"
      using 1(2) unfolding heap_ok_def heap_except_down_def by blast
    with False show ?thesis by (auto simp: pq_down_heap_eq [of q idx])
  qed
qed

lemma pq_updown_heap_ok:
  assumes "heap_except (pq_queue q) idx" "idx < length (pq_queue q)"
  shows "heap_ok (pq_queue (fst (pq_updown_heap q idx)))"
proof -
  obtain q' i' where u: "pq_up_heap q idx = (q', i')" by fastforce
  have "heap_except_down (pq_queue q') i'" using pq_up_heap_except [OF assms] u by simp
  moreover have "i' < length (pq_queue q')"
    using pq_up_heap_index [OF assms(2), of q] pq_up_heap_shuffled [OF assms(2)] u
    by (simp add: pq_shuffled_length)
  ultimately have "heap_ok (pq_queue (fst (pq_down_heap q' i')))" by (rule pq_down_heap_ok)
  then show ?thesis by (simp add: pq_updown_heap_def u)
qed

section \<open>Contents and invariant of each operation\<close>

lemma pq_contents_iff:
  assumes "rev_ok q"
  shows "pq_contents q x = Some k \<longleftrightarrow> (\<exists>e \<in> set (pq_queue q). qe_item e = x \<and> entry_key e = k)"
proof -
  have "distinct (map fst (map (\<lambda>e. (qe_item e, entry_key e)) (pq_queue q)))"
    using rev_ok_distinct [OF assms] by (simp add: comp_def)
  then have "pq_contents q x = Some k \<longleftrightarrow>
      (x, k) \<in> set (map (\<lambda>e. (qe_item e, entry_key e)) (pq_queue q))"
    unfolding pq_contents_def by (rule map_of_eq_Some_iff)
  also have "\<dots> \<longleftrightarrow> (\<exists>e \<in> set (pq_queue q). qe_item e = x \<and> entry_key e = k)"
    by (auto simp: image_iff)
  finally show ?thesis .
qed

lemma pq_contents_eqI:
  assumes "rev_ok q"
    and "\<And>x k. m x = Some k \<longleftrightarrow> (\<exists>e \<in> set (pq_queue q). qe_item e = x \<and> entry_key e = k)"
  shows "pq_contents q = m"
proof
  fix x
  have "pq_contents q x = Some k \<longleftrightarrow> m x = Some k" for k
    by (simp add: pq_contents_iff [OF assms(1)] assms(2))
  then show "pq_contents q x = m x" by (metis not_Some_eq)
qed

lemma pq_contains_iff:
  assumes "rev_ok q"
  shows "pq_contains q x \<longleftrightarrow> x \<in> qe_item ` set (pq_queue q)"
proof -
  have "dict_get (pq_reverse q) x = Some p \<longleftrightarrow> p < length (pq_queue q) \<and> qe_item (pq_queue q ! p) = x"
    for p using assms by (simp add: rev_ok_def)
  then have "pq_contains q x \<longleftrightarrow> (\<exists>p < length (pq_queue q). qe_item (pq_queue q ! p) = x)"
    unfolding pq_contains_def by (metis not_Some_eq)
  then show ?thesis by (metis (no_types, lifting) image_iff in_set_conv_nth)
qed

lemma pq_contains_contents:
  assumes "rev_ok q"
  shows "pq_contains q x \<longleftrightarrow> pq_contents q x \<noteq> None"
proof -
  have "pq_contents q x \<noteq> None \<longleftrightarrow> (\<exists>k. pq_contents q x = Some k)" by blast
  also have "\<dots> \<longleftrightarrow> x \<in> qe_item ` set (pq_queue q)"
    unfolding pq_contents_iff [OF assms] by blast
  finally show ?thesis using pq_contains_iff [OF assms] by blast
qed

lemma pq_contents_shuffled:
  assumes "pq_shuffled q q'" "rev_ok q"
  shows "pq_contents q' = pq_contents q"
proof (rule pq_contents_eqI)
  show "rev_ok q'" using assms by (simp add: pq_shuffled_def)
  have "mset (pq_queue q') = mset (pq_queue q)" using assms by (simp add: pq_shuffled_def)
  then have "set (pq_queue q') = set (pq_queue q)" by (rule mset_eq_setD)
  then show "pq_contents q x = Some k \<longleftrightarrow>
      (\<exists>e \<in> set (pq_queue q'). qe_item e = x \<and> entry_key e = k)" for x k
    by (simp add: pq_contents_iff [OF assms(2)])
qed

lemma index_ok_shuffled:
  assumes "pq_shuffled q q'" "index_ok q"
  shows "index_ok q'"
proof -
  have m: "mset (pq_queue q') = mset (pq_queue q)" using assms(1) by (simp add: pq_shuffled_def)
  then have "mset (map qe_index (pq_queue q')) = mset (map qe_index (pq_queue q))" by simp
  then have "distinct (map qe_index (pq_queue q')) \<longleftrightarrow> distinct (map qe_index (pq_queue q))"
    by (rule mset_eq_imp_distinct_iff)
  then show ?thesis
    using assms mset_eq_setD [OF m] by (simp add: index_ok_def pq_shuffled_def)
qed

lemma pq_inv_shuffled:
  assumes "pq_shuffled q q'" "rev_ok q" "index_ok q" "heap_ok (pq_queue q')"
    and "pq_event q \<longleftrightarrow> pq_queue q \<noteq> []"
  shows "pq_inv q'"
proof -
  have "pq_queue q' = [] \<longleftrightarrow> pq_queue q = []"
    using pq_shuffled_length [OF assms(1)] by (metis length_0_conv)
  then show ?thesis
    using assms index_ok_shuffled [OF assms(1,3)] by (simp add: pq_inv_def pq_shuffled_def)
qed

text \<open>\<open>push\<close>.\<close>

definition pq_appended :: "'i pqueue \<Rightarrow> 'i queue_entry \<Rightarrow> 'i pqueue" where
  "pq_appended q e = q\<lparr>pq_next_index := pq_next_index q + 1, pq_queue := pq_queue q @ [e],
     pq_reverse := dict_set (qe_item e) (length (pq_queue q)) (pq_reverse q), pq_event := True\<rparr>"

lemma pq_up_heap_event:
  "pq_up_heap (q\<lparr>pq_event := b\<rparr>) i = map_prod (\<lambda>q. q\<lparr>pq_event := b\<rparr>) id (pq_up_heap q i)"
proof (induction q i rule: pq_up_heap_induct)
  case (step q i)
  have "pq_swap (q\<lparr>pq_event := b\<rparr>) (par i) i = (pq_swap q (par i) i)\<lparr>pq_event := b\<rparr>"
    by (simp add: pq_swap_def Let_def)
  with step show ?case
    by (simp add: pq_up_heap_eq [of q i] pq_up_heap_eq [of "q\<lparr>pq_event := b\<rparr>" i])
qed

definition pq_new_entry ::
  "'i pqueue \<Rightarrow> 'i \<Rightarrow> int option \<Rightarrow> datetime option \<Rightarrow> datetime \<Rightarrow> 'i queue_entry" where
  "pq_new_entry q x p t now =
     \<lparr>qe_item = x, qe_priority = (case p of None \<Rightarrow> PRIORITY_MEDIUM | Some p \<Rightarrow> p),
      qe_timestamp = (case t of None \<Rightarrow> now | Some t \<Rightarrow> t), qe_index = pq_next_index q\<rparr>"

lemma pq_push_eq:
  "pq_push q x p t now =
     (if pq_contains q x then (q, False)
      else (fst (pq_up_heap (pq_appended q (pq_new_entry q x p t now)) (length (pq_queue q))), True))"
proof -
  have "pq_appended q e =
      (q\<lparr>pq_next_index := pq_next_index q + 1, pq_queue := pq_queue q @ [e],
         pq_reverse := dict_set (qe_item e) (length (pq_queue q)) (pq_reverse q)\<rparr>)\<lparr>pq_event := True\<rparr>" for e
    by (simp add: pq_appended_def)
  then show ?thesis
    by (simp add: pq_push_def Let_def case_prod_beta pq_up_heap_event pq_new_entry_def
        del: update_conv)
qed

lemma rev_ok_appended:
  assumes "rev_ok q" "\<not> pq_contains q (qe_item e)"
  shows "rev_ok (pq_appended q e)"
proof -
  have "qe_item (pq_queue q ! p) \<noteq> qe_item e" if "p < length (pq_queue q)" for p
    using assms that nth_mem [OF that] by (metis image_eqI pq_contains_iff)
  then show ?thesis
    using assms by (auto simp: rev_ok_def pq_appended_def nth_append less_Suc_eq)
qed

lemma heap_except_up_append:
  assumes "heap_ok es"
  shows "heap_except_up (es @ [e]) (length es)"
proof -
  have "par k < length es" if "0 < k" "k < length es" for k
    using that par_less [of k] by simp
  moreover have "par k \<noteq> length es" if "0 < k" "k < Suc (length es)" for k
    using that par_less [of k] by simp
  ultimately show ?thesis
    using assms unfolding heap_except_up_def grand_ok_def heap_ok_def
    by (auto simp: nth_append less_Suc_eq)
qed

lemma pq_push_effect:
  fixes q :: "'i pqueue" and x p t now
  assumes inv: "pq_inv q" and new: "\<not> pq_contains q x"
  defines "e \<equiv> pq_new_entry q x p t now"
  shows "pq_inv (fst (pq_push q x p t now))"
    and "pq_contents (fst (pq_push q x p t now)) = (pq_contents q)(x \<mapsto> entry_key e)"
    and "mset (pq_queue (fst (pq_push q x p t now))) = add_mset e (mset (pq_queue q))"
proof -
  let ?q = "pq_appended q e"
  have x: "qe_item e = x" and idx: "qe_index e = pq_next_index q"
    by (simp_all add: e_def pq_new_entry_def)
  have res: "fst (pq_push q x p t now) = fst (pq_up_heap ?q (length (pq_queue q)))"
    using new by (simp add: pq_push_eq e_def)
  have rev: "rev_ok ?q" using inv new by (simp add: rev_ok_appended pq_inv_def x)
  have ix: "index_ok ?q"
    using inv idx by (fastforce simp: index_ok_def pq_appended_def pq_inv_def)
  have sh: "pq_shuffled ?q (fst (pq_push q x p t now))"
    unfolding res by (rule pq_up_heap_shuffled) (simp add: pq_appended_def)
  have "heap_ok (pq_queue (fst (pq_push q x p t now)))"
    unfolding res using inv
    by (intro pq_up_heap_ok) (auto simp: pq_appended_def pq_inv_def heap_except_up_append)
  then show "pq_inv (fst (pq_push q x p t now))"
    using sh rev ix by (rule_tac pq_inv_shuffled) (auto simp: pq_appended_def)
  have "pq_contents ?q = (pq_contents q)(x \<mapsto> entry_key e)"
  proof (rule pq_contents_eqI [OF rev])
    fix y k
    have "\<forall>e' \<in> set (pq_queue q). qe_item e' \<noteq> x"
      using inv new by (auto simp: pq_contains_iff pq_inv_def)
    then show "((pq_contents q)(x \<mapsto> entry_key e)) y = Some k \<longleftrightarrow>
        (\<exists>e \<in> set (pq_queue ?q). qe_item e = y \<and> entry_key e = k)"
      using inv x by (auto simp: pq_contents_iff pq_inv_def pq_appended_def)
  qed
  then show "pq_contents (fst (pq_push q x p t now)) = (pq_contents q)(x \<mapsto> entry_key e)"
    using pq_contents_shuffled [OF sh rev] by simp
  show "mset (pq_queue (fst (pq_push q x p t now))) = add_mset e (mset (pq_queue q))"
    using sh by (simp add: pq_shuffled_def pq_appended_def)
qed

text \<open>\<open>pop\<close> and \<open>remove\<close>: the entry at \<open>pos\<close> goes to the end and is cut off.\<close>

definition pq_cut :: "'i pqueue \<Rightarrow> nat \<Rightarrow> 'i pqueue" where
  "pq_cut q pos =
     (let q1 = pq_swap q pos (length (pq_queue q) - 1)
      in q1\<lparr>pq_reverse := dict_del (qe_item (pq_queue q ! pos)) (pq_reverse q1),
            pq_queue := butlast (pq_queue q1)\<rparr>)"

lemma pq_queue_cut: "pq_queue (pq_cut q pos) = butlast (list_swap (pq_queue q) pos (length (pq_queue q) - 1))"
  by (simp add: pq_cut_def Let_def)

lemma pq_cut_frame [frame_simps, simp]:
  "pq_event (pq_cut q pos) = pq_event q" "pq_next_index (pq_cut q pos) = pq_next_index q"
  by (simp_all add: pq_cut_def Let_def)

lemma mset_pq_cut:
  assumes "pos < length (pq_queue q)"
  shows "add_mset (pq_queue q ! pos) (mset (pq_queue (pq_cut q pos))) = mset (pq_queue q)"
proof -
  let ?es = "list_swap (pq_queue q) pos (length (pq_queue q) - 1)"
  have ne: "?es \<noteq> []" using assms by auto
  have "mset ?es = mset (butlast ?es @ [last ?es])"
    by (simp only: append_butlast_last_id [OF ne])
  also have "\<dots> = add_mset (pq_queue q ! pos) (mset (butlast ?es))"
    using last_list_swap [OF assms] by simp
  finally show ?thesis using assms by (simp add: pq_queue_cut)
qed

lemma nth_pq_cut:
  assumes "pos < length (pq_queue q)" "k < length (pq_queue q) - 1"
  shows "pq_queue (pq_cut q pos) ! k =
    (if k = pos then pq_queue q ! (length (pq_queue q) - 1) else pq_queue q ! k)"
  using assms by (simp add: pq_queue_cut nth_butlast nth_list_swap)

lemma length_pq_cut: "length (pq_queue (pq_cut q pos)) = length (pq_queue q) - 1"
  by (simp add: pq_queue_cut)

lemma rev_ok_cut:
  assumes q: "rev_ok q" and pos: "pos < length (pq_queue q)"
  shows "rev_ok (pq_cut q pos)"
proof -
  let ?last = "length (pq_queue q) - 1"
  let ?q1 = "pq_swap q pos ?last"
  have r1: "rev_ok ?q1" using assms by (intro rev_ok_swap) auto
  have lastx: "qe_item (pq_queue ?q1 ! ?last) = qe_item (pq_queue q ! pos)"
    using pos by (simp add: nth_list_swap)
  have get: "dict_get (pq_reverse (pq_cut q pos)) x =
      (if x = qe_item (pq_queue q ! pos) then None else dict_get (pq_reverse ?q1) x)" for x
    by (simp add: pq_cut_def Let_def)
  have old: "dict_get (pq_reverse ?q1) x = Some p \<longleftrightarrow>
      p < length (pq_queue q) \<and> qe_item (pq_queue ?q1 ! p) = x" for x p
    using r1 by (simp add: rev_ok_def)
  have inj: "qe_item (pq_queue ?q1 ! p) = qe_item (pq_queue q ! pos) \<longleftrightarrow> p = ?last"
    if "p < length (pq_queue q)" for p
    using rev_ok_inj [OF r1, of p ?last] that pos lastx by auto
  have "dict_get (pq_reverse (pq_cut q pos)) x = Some p \<longleftrightarrow>
      p < ?last \<and> qe_item (butlast (pq_queue ?q1) ! p) = x" for x p
    unfolding get using old [of x p] inj [of p] pos by (auto simp: nth_butlast)
  moreover have "dict_ok (pq_reverse (pq_cut q pos))"
    using r1 by (simp add: pq_cut_def Let_def rev_ok_def)
  ultimately show ?thesis by (simp add: rev_ok_def pq_queue_cut)
qed

lemma index_ok_cut:
  assumes "index_ok q" "pos < length (pq_queue q)"
  shows "index_ok (pq_cut q pos)"
proof -
  have m: "mset (pq_queue q) = add_mset (pq_queue q ! pos) (mset (pq_queue (pq_cut q pos)))"
    using mset_pq_cut [OF assms(2)] by simp
  then have "mset (map qe_index (pq_queue q)) =
      mset (qe_index (pq_queue q ! pos) # map qe_index (pq_queue (pq_cut q pos)))" by simp
  then have "distinct (qe_index (pq_queue q ! pos) # map qe_index (pq_queue (pq_cut q pos)))"
    using assms(1) mset_eq_imp_distinct_iff unfolding index_ok_def by blast
  moreover have "set (pq_queue (pq_cut q pos)) \<subseteq> set (pq_queue q)"
    using m by (metis set_mset_mset set_mset_add_mset_insert subset_insertI)
  ultimately show ?thesis using assms(1) by (auto simp: index_ok_def)
qed

lemma pq_contents_cut:
  assumes "rev_ok q" "pos < length (pq_queue q)"
  shows "pq_contents (pq_cut q pos) = (pq_contents q)(qe_item (pq_queue q ! pos) := None)"
proof (rule pq_contents_eqI [OF rev_ok_cut [OF assms]])
  fix x k
  let ?e = "pq_queue q ! pos"
  have m: "mset (pq_queue q) = add_mset ?e (mset (pq_queue (pq_cut q pos)))"
    using mset_pq_cut [OF assms(2)] by simp
  then have s: "set (pq_queue q) = insert ?e (set (pq_queue (pq_cut q pos)))"
    by (metis set_mset_mset set_mset_add_mset_insert)
  have "mset (map qe_item (pq_queue q)) = mset (qe_item ?e # map qe_item (pq_queue (pq_cut q pos)))"
    using m by simp
  then have "distinct (qe_item ?e # map qe_item (pq_queue (pq_cut q pos)))"
    using rev_ok_distinct [OF assms(1)] mset_eq_imp_distinct_iff by blast
  then have "\<forall>e \<in> set (pq_queue (pq_cut q pos)). qe_item e \<noteq> qe_item ?e"
    by (simp add: image_iff) metis
  then show "((pq_contents q)(qe_item ?e := None)) x = Some k \<longleftrightarrow>
      (\<exists>e \<in> set (pq_queue (pq_cut q pos)). qe_item e = x \<and> entry_key e = k)"
    by (auto simp: pq_contents_iff [OF assms(1)] s)
qed

lemma heap_except_cut:
  assumes h: "heap_ok (pq_queue q)" and pos: "pos < length (pq_queue q) - 1"
  shows "heap_except (pq_queue (pq_cut q pos)) pos"
proof -
  let ?es = "pq_queue q"
  have old: "entry_key (?es ! par k) \<le> entry_key (?es ! k)" if "k < length ?es" "0 < k" for k
    using h that by (simp add: heap_ok_def)
  have pl: "par k < length ?es - 1" if "k < length ?es - 1" "0 < k" for k
    using that par_less [of k] by linarith
  have "entry_key (pq_queue (pq_cut q pos) ! par k) \<le> entry_key (pq_queue (pq_cut q pos) ! k)"
    if "k < length ?es - 1" "0 < k" "k \<noteq> pos" "par k \<noteq> pos" for k
    using that old [of k] pl pos by (simp add: nth_pq_cut)
  moreover have "entry_key (pq_queue (pq_cut q pos) ! par pos) \<le> entry_key (pq_queue (pq_cut q pos) ! k)"
    if "k < length ?es - 1" "0 < k" "par k = pos" "0 < pos" for k
  proof -
    have "entry_key (?es ! par pos) \<le> entry_key (?es ! pos)" using old [of pos] pos that by simp
    also have "\<dots> \<le> entry_key (?es ! k)" using old [of k] that by simp
    finally show ?thesis
      using that pos pl [of pos] par_less [of pos] par_less [of k] by (simp add: nth_pq_cut)
  qed
  ultimately show ?thesis by (simp add: heap_except_def grand_ok_def length_pq_cut)
qed

lemma heap_except_root: "heap_except es 0 \<Longrightarrow> heap_except_down es 0"
  by (auto simp: heap_except_def heap_except_down_def)

lemma heap_root_least:
  "heap_ok es \<Longrightarrow> k < length es \<Longrightarrow> entry_key (es ! 0) \<le> entry_key (es ! k)"
proof (induction k rule: less_induct)
  case (less k)
  show ?case
  proof (cases "k = 0")
    case False
    then have "par k < k" by (simp add: par_less)
    then have "entry_key (es ! 0) \<le> entry_key (es ! par k)" using less by simp
    also have "\<dots> \<le> entry_key (es ! k)" using less False by (simp add: heap_ok_def)
    finally show ?thesis .
  qed simp
qed

lemma pq_pop_eq:
  "pq_pop q wait =
     (if pq_queue q = [] then (if wait then Inr None else Inl LookupError)
      else if length (pq_queue q) = 1 then Inr (Some ((pq_cut q 0)\<lparr>pq_event := False\<rparr>, pq_queue q ! 0))
      else Inr (Some (fst (pq_down_heap (pq_cut q 0) 0), pq_queue q ! 0)))"
proof (cases "length (pq_queue q) \<le> 1")
  case True
  then show ?thesis
    by (auto simp: pq_pop_def pq_top_def pq_empty_def pq_length_def pq_cut_def Let_def le_Suc_eq)
next
  case False
  then show ?thesis
    by (auto simp: pq_pop_def pq_top_def pq_empty_def pq_length_def pq_cut_def Let_def)
qed

lemma pq_pop_effect:
  assumes inv: "pq_inv q" and ne: "pq_queue q \<noteq> []"
  obtains q' where "pq_pop q wait = Inr (Some (q', pq_queue q ! 0))" "pq_inv q'"
    "pq_contents q' = (pq_contents q)(qe_item (pq_queue q ! 0) := None)"
    "add_mset (pq_queue q ! 0) (mset (pq_queue q')) = mset (pq_queue q)"
proof (cases "length (pq_queue q) = 1")
  case True
  let ?q' = "(pq_cut q 0)\<lparr>pq_event := False\<rparr>"
  have e: "pq_queue ?q' = []" using True length_pq_cut [of q 0] by simp
  have "rev_ok (pq_cut q 0)" using inv ne by (intro rev_ok_cut) (auto simp: pq_inv_def)
  then have "pq_inv ?q'"
    using e by (simp add: pq_inv_def rev_ok_def index_ok_def heap_ok_def)
  moreover have "pq_contents ?q' = (pq_contents q)(qe_item (pq_queue q ! 0) := None)"
    using pq_contents_cut [of q 0] inv ne by (simp add: pq_inv_def pq_contents_def)
  moreover have "add_mset (pq_queue q ! 0) (mset (pq_queue ?q')) = mset (pq_queue q)"
    using mset_pq_cut [of 0 q] ne by simp
  ultimately show ?thesis using that [of ?q'] True ne by (simp add: pq_pop_eq)
next
  case False
  let ?q' = "fst (pq_down_heap (pq_cut q 0) 0)"
  have len: "0 < length (pq_queue q) - 1" using False ne by (cases "pq_queue q") auto
  then have pos: "0 < length (pq_queue q)" and c: "0 < length (pq_queue (pq_cut q 0))"
    by (auto simp: length_pq_cut)
  have rev: "rev_ok (pq_cut q 0)" and ix: "index_ok (pq_cut q 0)"
    using inv pos by (auto simp: pq_inv_def intro: rev_ok_cut index_ok_cut)
  have sh: "pq_shuffled (pq_cut q 0) ?q'" using c by (rule pq_down_heap_shuffled)
  have "heap_ok (pq_queue ?q')"
    using inv len c by (intro pq_down_heap_ok heap_except_root heap_except_cut) (auto simp: pq_inv_def)
  then have "pq_inv ?q'"
    using sh rev ix inv c ne by (intro pq_inv_shuffled [of "pq_cut q 0"]) (auto simp: pq_inv_def)
  moreover have "pq_contents ?q' = (pq_contents q)(qe_item (pq_queue q ! 0) := None)"
    using pq_contents_shuffled [OF sh rev] pq_contents_cut [of q 0] inv pos by (simp add: pq_inv_def)
  moreover have "add_mset (pq_queue q ! 0) (mset (pq_queue ?q')) = mset (pq_queue q)"
    using sh mset_pq_cut [OF pos] by (simp add: pq_shuffled_def)
  ultimately show ?thesis using that [of ?q'] False ne by (simp add: pq_pop_eq)
qed

lemma pq_remove_eq:
  assumes "rev_ok q"
  shows "pq_remove q x =
     (case dict_get (pq_reverse q) x of
        None \<Rightarrow> Inl KeyError
      | Some pos \<Rightarrow>
          (let q4 = (if pos \<noteq> length (pq_queue q) - 1 then fst (pq_updown_heap (pq_cut q pos) pos)
                     else pq_cut q pos)
           in Inr (if pq_queue q4 = [] then q4\<lparr>pq_event := False\<rparr> else q4, pq_queue q ! pos)))"
proof (cases "dict_get (pq_reverse q) x")
  case None
  then show ?thesis by (simp add: pq_remove_def)
next
  case (Some pos)
  then have "pos < length (pq_queue q)" "qe_item (pq_queue q ! pos) = x"
    using assms by (auto simp: rev_ok_def)
  then show ?thesis
    using Some by (auto simp: pq_remove_def pq_cut_def Let_def pq_empty_def pq_length_def)
qed

lemma pq_inv_event_reset:
  "rev_ok q \<Longrightarrow> index_ok q \<Longrightarrow> heap_ok (pq_queue q) \<Longrightarrow> pq_event q \<Longrightarrow>
   pq_inv (if pq_queue q = [] then q\<lparr>pq_event := False\<rparr> else q)"
  by (auto simp: pq_inv_def rev_ok_def index_ok_def)

lemma heap_ok_cut_last:
  assumes "heap_ok (pq_queue q)"
  shows "heap_ok (pq_queue (pq_cut q (length (pq_queue q) - 1)))"
proof -
  have "par k < length (pq_queue q) - 1" if "k < length (pq_queue q) - 1" "0 < k" for k
    using that par_less [of k] by linarith
  then show ?thesis
    using assms by (fastforce simp: heap_ok_def length_pq_cut nth_pq_cut)
qed

lemma pq_remove_effect:
  assumes inv: "pq_inv q" and x: "pq_contents q x = Some k"
  obtains q' e where "pq_remove q x = Inr (q', e)" "pq_inv q'" "qe_item e = x" "entry_key e = k"
    "pq_contents q' = (pq_contents q)(x := None)"
    "add_mset e (mset (pq_queue q')) = mset (pq_queue q)"
proof -
  have rq: "rev_ok q" using inv by (simp add: pq_inv_def)
  then obtain pos where get: "dict_get (pq_reverse q) x = Some pos"
    using x pq_contains_contents [OF rq, of x] by (auto simp: pq_contains_def)
  then have pos: "pos < length (pq_queue q)" and item: "qe_item (pq_queue q ! pos) = x"
    using rq by (auto simp: rev_ok_def)
  let ?q4 = "if pos \<noteq> length (pq_queue q) - 1 then fst (pq_updown_heap (pq_cut q pos) pos)
             else pq_cut q pos"
  let ?q' = "if pq_queue ?q4 = [] then ?q4\<lparr>pq_event := False\<rparr> else ?q4"
  have rev: "rev_ok (pq_cut q pos)" and ix: "index_ok (pq_cut q pos)"
    using inv pos by (auto simp: pq_inv_def intro: rev_ok_cut index_ok_cut)
  have sh: "pq_shuffled (pq_cut q pos) ?q4"
    using pos by (auto simp: length_pq_cut intro!: pq_updown_heap_shuffled)
  have heap: "heap_ok (pq_queue ?q4)"
  proof (cases "pos = length (pq_queue q) - 1")
    case True
    then show ?thesis using inv heap_ok_cut_last [of q] by (simp add: pq_inv_def)
  next
    case False
    then show ?thesis
      using inv pos
      by (auto simp: pq_inv_def length_pq_cut intro!: pq_updown_heap_ok heap_except_cut)
  qed
  have "pq_event ?q4" using sh inv pos by (auto simp: pq_shuffled_def pq_inv_def)
  moreover have "rev_ok ?q4" using sh rev by (simp only: pq_shuffled_def)
  ultimately have "pq_inv ?q'"
    using index_ok_shuffled [OF sh ix] heap by (intro pq_inv_event_reset)
  moreover have cont: "pq_contents ?q4 = (pq_contents q)(x := None)"
    using pq_contents_shuffled [OF sh rev] pq_contents_cut [OF rq pos] item by simp
  moreover have "pq_contents ?q' = pq_contents ?q4" by (simp add: pq_contents_def)
  moreover have "add_mset (pq_queue q ! pos) (mset (pq_queue ?q4)) = mset (pq_queue q)"
    using sh mset_pq_cut [OF pos] by (simp only: pq_shuffled_def)
  moreover have "pq_queue ?q' = pq_queue ?q4" by simp
  moreover have "pq_remove q x = Inr (?q', pq_queue q ! pos)"
    using get by (simp only: pq_remove_eq [OF rq] option.case Let_def)
  moreover have "entry_key (pq_queue q ! pos) = k"
    using x item pos pq_contents_iff [OF rq, of x "entry_key (pq_queue q ! pos)"] by auto
  ultimately show ?thesis using that item by metis
qed

text \<open>\<open>set_priority\<close>: one entry changes its key in place.\<close>

definition pq_changed :: "'i pqueue \<Rightarrow> nat \<Rightarrow> int \<Rightarrow> 'i pqueue" where
  "pq_changed q pos p = q\<lparr>pq_queue := (pq_queue q)[pos := (pq_queue q ! pos)\<lparr>qe_priority := p\<rparr>]\<rparr>"

lemma pq_changed_sel [simp]:
  "pq_queue (pq_changed q pos p) = (pq_queue q)[pos := (pq_queue q ! pos)\<lparr>qe_priority := p\<rparr>]"
  "pq_reverse (pq_changed q pos p) = pq_reverse q"
  "pq_event (pq_changed q pos p) = pq_event q"
  "pq_next_index (pq_changed q pos p) = pq_next_index q"
  by (simp_all add: pq_changed_def)

lemma map_item_changed [simp]:
  "map qe_item (es[pos := (es ! pos)\<lparr>qe_priority := p\<rparr>]) = map qe_item es"
  "map qe_index (es[pos := (es ! pos)\<lparr>qe_priority := p\<rparr>]) = map qe_index es"
  by (simp_all add: map_update) (metis list_update_id map_update)+

lemma nth_item_changed:
  "k < length es \<Longrightarrow> qe_item (es[pos := (es ! pos)\<lparr>qe_priority := p\<rparr>] ! k) = qe_item (es ! k)"
  by (cases "k = pos") auto

lemma rev_ok_changed: "rev_ok q \<Longrightarrow> rev_ok (pq_changed q pos p)"
  unfolding rev_ok_def by (metis length_list_update nth_item_changed pq_changed_sel(1,2))

lemma index_ok_changed: "index_ok q \<Longrightarrow> index_ok (pq_changed q pos p)"
proof -
  assume a: "index_ok q"
  have "qe_index ` set (pq_queue (pq_changed q pos p)) = qe_index ` set (pq_queue q)"
    by (metis list.set_map map_item_changed(2) pq_changed_sel(1))
  then have "\<forall>i \<in> qe_index ` set (pq_queue (pq_changed q pos p)). i < pq_next_index q"
    using a by (auto simp: index_ok_def)
  then show ?thesis using a by (simp add: index_ok_def)
qed

lemma heap_except_changed:
  assumes h: "heap_ok es" and pos: "pos < length es"
  shows "heap_except (es[pos := e]) pos"
proof -
  have old: "entry_key (es ! par k) \<le> entry_key (es ! k)" if "k < length es" "0 < k" for k
    using h that by (simp add: heap_ok_def)
  have "entry_key (es[pos := e] ! par pos) \<le> entry_key (es[pos := e] ! k)"
    if "k < length es" "0 < k" "par k = pos" "0 < pos" for k
  proof -
    have "entry_key (es ! par pos) \<le> entry_key (es ! pos)" using old [of pos] pos that by simp
    also have "\<dots> \<le> entry_key (es ! k)" using old [of k] that by simp
    finally show ?thesis using that par_less [of k] par_less [of pos] by simp
  qed
  then show ?thesis using old by (simp add: heap_except_def grand_ok_def)
qed

lemma pq_contents_changed:
  assumes rq: "rev_ok q" and pos: "pos < length (pq_queue q)"
  defines "e \<equiv> pq_queue q ! pos"
  shows "pq_contents (pq_changed q pos p) =
    (pq_contents q)(qe_item e \<mapsto> (p, qe_timestamp e, qe_index e))"
proof (rule pq_contents_eqI [OF rev_ok_changed [OF rq]])
  fix x k
  have nth: "(\<exists>e' \<in> set es. P e') \<longleftrightarrow> (\<exists>i < length es. P (es ! i))" for es :: "'a queue_entry list" and P
    by (metis in_set_conv_nth)
  have inj: "qe_item (pq_queue q ! i) = qe_item e \<longleftrightarrow> i = pos" if "i < length (pq_queue q)" for i
    using rev_ok_inj [OF rq that pos] by (simp add: e_def)
  show "((pq_contents q)(qe_item e \<mapsto> (p, qe_timestamp e, qe_index e))) x = Some k \<longleftrightarrow>
      (\<exists>e' \<in> set (pq_queue (pq_changed q pos p)). qe_item e' = x \<and> entry_key e' = k)"
  proof (cases "x = qe_item e")
    case True
    have "(\<exists>i < length (pq_queue q).
        qe_item (pq_queue (pq_changed q pos p) ! i) = x \<and> entry_key (pq_queue (pq_changed q pos p) ! i) = k)
        \<longleftrightarrow> entry_key (pq_queue (pq_changed q pos p) ! pos) = k"
      using inj pos True by (auto simp: nth_item_changed e_def)
    then show ?thesis using True pos by (auto simp: nth entry_key_def e_def)
  next
    case False
    have "qe_item (pq_queue (pq_changed q pos p) ! i) = x \<and> entry_key (pq_queue (pq_changed q pos p) ! i) = k
        \<longleftrightarrow> qe_item (pq_queue q ! i) = x \<and> entry_key (pq_queue q ! i) = k"
      if "i < length (pq_queue q)" for i
      using that False by (cases "i = pos") (auto simp: e_def)
    then show ?thesis
      using False by (auto simp: nth pq_contents_iff [OF rq] simp del: pq_changed_sel(1)
          simp: pq_changed_def)
  qed
qed

lemma pq_set_priority_effect:
  assumes inv: "pq_inv q" and x: "pq_contents q x = Some (p, t, i)"
  obtains q' where "pq_set_priority q x p' = Inr q'" "pq_inv q'"
    "pq_contents q' = (pq_contents q)(x \<mapsto> (p', t, i))"
proof -
  have rq: "rev_ok q" using inv by (simp add: pq_inv_def)
  then obtain pos where get: "dict_get (pq_reverse q) x = Some pos"
    using x pq_contains_contents [OF rq, of x] by (auto simp: pq_contains_def)
  then have pos: "pos < length (pq_queue q)" and item: "qe_item (pq_queue q ! pos) = x"
    using rq by (auto simp: rev_ok_def)
  have "entry_key (pq_queue q ! pos) = (p, t, i)"
    using x item pos pq_contents_iff [OF rq, of x "entry_key (pq_queue q ! pos)"] by auto
  then have ti: "qe_timestamp (pq_queue q ! pos) = t" "qe_index (pq_queue q ! pos) = i"
    by (auto simp: entry_key_def)
  let ?q1 = "pq_changed q pos p'"
  let ?q' = "fst (pq_updown_heap ?q1 pos)"
  have sh: "pq_shuffled ?q1 ?q'" using pos by (intro pq_updown_heap_shuffled) simp
  have "heap_ok (pq_queue ?q')"
    using inv pos by (intro pq_updown_heap_ok) (auto simp: pq_inv_def intro!: heap_except_changed)
  then have "pq_inv ?q'"
    using sh inv pos
    by (intro pq_inv_shuffled [OF sh]) (auto simp: pq_inv_def rev_ok_changed index_ok_changed)
  moreover have "pq_contents ?q' = (pq_contents q)(x \<mapsto> (p', t, i))"
    using pq_contents_shuffled [OF sh rev_ok_changed [OF rq]] pq_contents_changed [OF rq pos] item ti
    by simp
  moreover have "pq_set_priority q x p' = Inr ?q'"
    using get pos by (simp add: pq_set_priority_def pq_changed_def)
  ultimately show ?thesis using that by blast
qed

lemma pq_inv_init [simp]: "pq_inv pq_init"
  by (simp add: pq_inv_def pq_init_def heap_ok_def rev_ok_def index_ok_def)

section \<open>The contract of a keyed queue\<close>

text \<open>
  What a consumer may rely on: the queue is a finite map from items to keys, and taking
  returns an item with a least key and removes exactly that item. The loop that empties the
  queue is stated for any such \<open>take\<close>.
\<close>

primrec drain_with :: "('q \<Rightarrow> ('q \<times> 'i \<times> 'k) option) \<Rightarrow> nat \<Rightarrow> 'q \<Rightarrow> ('i \<times> 'k) list" where
  "drain_with tk 0 q = []"
| "drain_with tk (Suc n) q =
     (case tk q of None \<Rightarrow> [] | Some (q', x, k) \<Rightarrow> (x, k) # drain_with tk n q')"

locale keyed_queue =
  fixes invar :: "'q \<Rightarrow> bool"
    and contents :: "'q \<Rightarrow> 'i \<rightharpoonup> 'k :: linorder"
    and take_min :: "'q \<Rightarrow> ('q \<times> 'i \<times> 'k) option"
  assumes finite_contents: "invar q \<Longrightarrow> finite (dom (contents q))"
    and take_None: "invar q \<Longrightarrow> take_min q = None \<longleftrightarrow> contents q = Map.empty"
    and take_Some: "invar q \<Longrightarrow> take_min q = Some (q', x, k) \<Longrightarrow>
      invar q' \<and> contents q x = Some k \<and> contents q' = (contents q)(x := None)"
    and take_least: "invar q \<Longrightarrow> take_min q = Some (q', x, k) \<Longrightarrow> contents q y = Some k' \<Longrightarrow> k \<le> k'"
begin

lemma drain_contents:
  "invar q \<Longrightarrow> (x, k) \<in> set (drain_with take_min n q) \<Longrightarrow> contents q x = Some k"
proof (induction n arbitrary: q)
  case (Suc n)
  show ?case
  proof (cases "take_min q")
    case None
    then show ?thesis using Suc.prems by simp
  next
    case (Some t)
    obtain q' x' k' where t: "t = (q', x', k')" by (cases t)
    then have q': "invar q'" "contents q x' = Some k'" "contents q' = (contents q)(x' := None)"
      using take_Some [OF Suc.prems(1), of q' x' k'] Some by auto
    have "x = x' \<and> k = k' \<or> (x, k) \<in> set (drain_with take_min n q')"
      using Suc.prems(2) Some t by auto
    then show ?thesis using Suc.IH [OF q'(1)] q' by (auto split: if_splits)
  qed
qed simp

lemma drain_distinct: "invar q \<Longrightarrow> distinct (map fst (drain_with take_min n q))"
proof (induction n arbitrary: q)
  case (Suc n)
  show ?case
  proof (cases "take_min q")
    case (Some t)
    obtain q' x k where t: "t = (q', x, k)" by (cases t)
    then have "invar q'" "contents q' x = None"
      using take_Some [OF Suc.prems, of q' x k] Some by auto
    then show ?thesis using Suc.IH [of q'] drain_contents [of q' x _ n] Some t by auto
  qed simp
qed simp

lemma drain_sorted: "invar q \<Longrightarrow> sorted (map snd (drain_with take_min n q))"
proof (induction n arbitrary: q)
  case (Suc n)
  show ?case
  proof (cases "take_min q")
    case (Some t)
    obtain q' x k where t: "t = (q', x, k)" by (cases t)
    then have q': "invar q'" "contents q' = (contents q)(x := None)"
      using take_Some [OF Suc.prems, of q' x k] Some by auto
    have "k \<le> k'" if "(y, k') \<in> set (drain_with take_min n q')" for y k'
    proof -
      have "contents q y = Some k'"
        using drain_contents [OF q'(1) that] q'(2) by (simp split: if_splits)
      then show ?thesis using take_least [OF Suc.prems, of q' x k y k'] Some t by simp
    qed
    then show ?thesis using Suc.IH [OF q'(1)] Some t by auto
  qed simp
qed simp

lemma drain_complete:
  "invar q \<Longrightarrow> card (dom (contents q)) \<le> n \<Longrightarrow> map_of (drain_with take_min n q) = contents q"
proof (induction n arbitrary: q)
  case 0
  then have "dom (contents q) = {}" using finite_contents by simp
  then show ?case by simp
next
  case (Suc n)
  show ?case
  proof (cases "take_min q")
    case None
    then show ?thesis using take_None [OF Suc.prems(1)] by simp
  next
    case (Some t)
    obtain q' x k where t: "t = (q', x, k)" by (cases t)
    then have q': "invar q'" "contents q x = Some k" "contents q' = (contents q)(x := None)"
      using take_Some [OF Suc.prems(1), of q' x k] Some by auto
    have "card (dom (contents q')) \<le> n"
      using q' Suc.prems finite_contents [OF Suc.prems(1)] by (auto simp: domI)
    then have "map_of (drain_with take_min n q') = contents q'" using q' Suc.IH by blast
    then show ?thesis using Some t q' by auto
  qed
qed

end

text \<open>The queue of the program provides the contract.\<close>

definition pq_take :: "'i pqueue \<Rightarrow> ('i pqueue \<times> 'i \<times> int \<times> datetime \<times> int) option" where
  "pq_take q =
     (case pq_pop q False of Inr (Some (q', e)) \<Rightarrow> Some (q', qe_item e, entry_key e) | _ \<Rightarrow> None)"

lemma pq_contents_empty_iff: "pq_contents q = Map.empty \<longleftrightarrow> pq_queue q = []"
  by (auto simp: pq_contents_def)

lemma pq_pop_cases:
  assumes "pq_inv q" "pq_pop q wait = Inr (Some (q', e))"
  shows "e = pq_queue q ! 0" "pq_queue q \<noteq> []" "pq_inv q'"
    "pq_contents q' = (pq_contents q)(qe_item e := None)"
    "pq_contents q (qe_item e) = Some (entry_key e)"
    "add_mset e (mset (pq_queue q')) = mset (pq_queue q)"
proof -
  show ne: "pq_queue q \<noteq> []" using assms(2) by (auto simp: pq_pop_eq split: if_splits)
  obtain q'' where q'': "pq_pop q wait = Inr (Some (q'', pq_queue q ! 0))" "pq_inv q''"
    "pq_contents q'' = (pq_contents q)(qe_item (pq_queue q ! 0) := None)"
    "add_mset (pq_queue q ! 0) (mset (pq_queue q'')) = mset (pq_queue q)"
    using pq_pop_effect [OF assms(1) ne] by metis
  have rq: "rev_ok q" using assms(1) by (simp add: pq_inv_def)
  show "e = pq_queue q ! 0" "pq_inv q'" "pq_contents q' = (pq_contents q)(qe_item e := None)"
    "add_mset e (mset (pq_queue q')) = mset (pq_queue q)"
    using assms(2) q'' by auto
  then show "pq_contents q (qe_item e) = Some (entry_key e)"
    using ne pq_contents_iff [OF rq] by (metis length_greater_0_conv nth_mem)
qed

lemma pq_root_least:
  assumes "pq_inv q" "pq_contents q y = Some k"
  shows "entry_key (pq_queue q ! 0) \<le> k"
proof -
  obtain i where "i < length (pq_queue q)" "entry_key (pq_queue q ! i) = k"
    using assms pq_contents_iff [of q y k] by (auto simp: pq_inv_def in_set_conv_nth)
  then show ?thesis using assms heap_root_least [of "pq_queue q" i] by (auto simp: pq_inv_def)
qed

interpretation pq: keyed_queue pq_inv pq_contents pq_take
proof
  show "finite (dom (pq_contents q))" for q :: "'i pqueue"
    by (simp add: pq_contents_def finite_dom_map_of)
  show "pq_take q = None \<longleftrightarrow> pq_contents q = Map.empty" if "pq_inv q" for q :: "'i pqueue"
    by (auto simp: pq_take_def pq_pop_eq pq_contents_empty_iff entry_key_def)
  fix q q' :: "'i pqueue" and x k
  assume inv: "pq_inv q" and tk: "pq_take q = Some (q', x, k)"
  from tk obtain e where e: "pq_pop q False = Inr (Some (q', e))" "x = qe_item e" "k = entry_key e"
    by (auto simp: pq_take_def split: sum.splits option.splits)
  show "pq_inv q' \<and> pq_contents q x = Some k \<and> pq_contents q' = (pq_contents q)(x := None)"
    using pq_pop_cases [OF inv e(1)] e by simp
  show "k \<le> k'" if "pq_contents q y = Some k'" for y k'
    using pq_pop_cases(1) [OF inv e(1)] pq_root_least [OF inv that] e by simp
qed

section \<open>Reachable queues\<close>

text \<open>The states that calls of the public methods can reach.\<close>

inductive pq_reach :: "'i pqueue \<Rightarrow> bool" where
  init: "pq_reach pq_init"
| push: "pq_reach q \<Longrightarrow> pq_reach (fst (pq_push q x p t now))"
| pop: "pq_reach q \<Longrightarrow> pq_pop q wait = Inr (Some (q', e)) \<Longrightarrow> pq_reach q'"
| remove: "pq_reach q \<Longrightarrow> pq_remove q x = Inr (q', e) \<Longrightarrow> pq_reach q'"
| set_priority: "pq_reach q \<Longrightarrow> pq_set_priority q x p = Inr q' \<Longrightarrow> pq_reach q'"

lemma pq_absent:
  assumes "pq_inv q" "pq_contents q x = None"
  shows "pq_remove q x = Inl KeyError" "pq_set_priority q x p = Inl KeyError"
proof -
  have "dict_get (pq_reverse q) x = None"
    using assms pq_contains_contents [of q x] by (auto simp: pq_inv_def pq_contains_def)
  then show "pq_remove q x = Inl KeyError" "pq_set_priority q x p = Inl KeyError"
    by (simp_all add: pq_remove_def pq_set_priority_def)
qed

lemma pq_reach_inv: "pq_reach q \<Longrightarrow> pq_inv q"
proof (induction rule: pq_reach.induct)
  case (push q x p t now)
  then show ?case
    using pq_push_effect(1) [of q x] by (cases "pq_contains q x") (auto simp: pq_push_eq)
next
  case (pop q wait q' e)
  then show ?case using pq_pop_cases(3) by blast
next
  case (remove q x q' e)
  then show ?case
    using pq_absent(1) [of q x] pq_remove_effect [of q x]
    by (cases "pq_contents q x") (fastforce, metis Inr_inject prod.inject)
next
  case (set_priority q x p q')
  then show ?case
    using pq_absent(2) [of q x] pq_set_priority_effect [of q x]
    by (cases "pq_contents q x") (fastforce, metis Inr_inject prod_cases3)
qed simp

lemma pq_inv_verify:
  assumes "pq_inv q"
  shows "pq_verify q"
proof -
  have rq: "rev_ok q" using assms by (simp add: pq_inv_def)
  have "set (dict_keys (pq_reverse q)) = set (map qe_item (pq_queue q))"
    using pq_contains_iff [OF rq] unfolding pq_contains_def dict_keys_get [symmetric] by auto
  moreover have "distinct (dict_keys (pq_reverse q))" using rq by (simp add: rev_ok_def)
  ultimately have "length (pq_reverse q) = length (pq_queue q)"
    using rev_ok_distinct [OF rq] by (metis distinct_card length_map)
  moreover have "idx < length (pq_queue q) \<and> qe_item (pq_queue q ! idx) = x"
    if "(x, idx) \<in> set (pq_reverse q)" for x idx
    using rq map_of_is_SomeI [OF _ that] unfolding rev_ok_def by blast
  ultimately show ?thesis
    using assms
    by (auto simp: pq_verify_def pq_empty_def pq_length_def pq_inv_def list_all_iff)
qed

section \<open>Properties\<close>

lemma pq_card_contents: "pq_inv q \<Longrightarrow> card (dom (pq_contents q)) \<le> pq_length q"
proof -
  have "dom (pq_contents q) = qe_item ` set (pq_queue q)"
    by (simp add: pq_contents_def dom_map_of_conv_image_fst image_image)
  then show ?thesis
    using card_image_le [of "set (pq_queue q)" qe_item] card_length [of "pq_queue q"]
    by (simp add: pq_length_def)
qed

text \<open>A queue with two items, for the witnesses.\<close>

definition pq_sample :: "string pqueue" where
  "pq_sample =
     fst (pq_push (fst (pq_push pq_init ''a'' None (Some 10) 0)) ''b'' (Some PRIORITY_HIGH) None 20)"

lemma pq_reach_sample: "pq_reach pq_sample"
  unfolding pq_sample_def by (intro pq_reach.push pq_reach.init)

text \<open>
  C1. Whatever sequence of \<^verbatim>\<open>push\<close>, \<^verbatim>\<open>pop\<close>, \<^verbatim>\<open>remove\<close> and \<^verbatim>\<open>set_priority\<close> calls was made,
  the queue passes its own consistency check \<^verbatim>\<open>_verify\<close>, its list is a min-heap, and no item
  and no tie-breaking index is in it twice.
\<close>

theorem pq_reach_consistent:
  assumes "pq_reach q"
  shows "pq_verify q \<and> heap_ok (pq_queue q) \<and>
    distinct (map qe_item (pq_queue q)) \<and> distinct (map qe_index (pq_queue q))"
  using pq_reach_inv [OF assms] pq_inv_verify [of q] rev_ok_distinct [of q]
  by (simp add: pq_inv_def index_ok_def)

theorem pq_reach_consistent_witness:
  "pq_verify pq_sample \<and> length (pq_queue pq_sample) = 2"
  using pq_reach_consistent [OF pq_reach_sample] by code_simp

text \<open>
  C2. \<^verbatim>\<open>pop\<close> on a reachable queue: if the queue is empty it raises LookupError (or waits, if
  asked to); otherwise it returns an entry whose (priority, timestamp, index) is least among all
  queued entries, and removes exactly that item.
\<close>

theorem pq_pop_min:
  assumes "pq_reach q"
  shows "(pq_empty q \<longrightarrow> pq_pop q wait = (if wait then Inr None else Inl LookupError)) \<and>
    (\<not> pq_empty q \<longrightarrow> (\<exists>q' e. pq_pop q wait = Inr (Some (q', e)) \<and>
       pq_contents q (qe_item e) = Some (entry_key e) \<and>
       (\<forall>y k. pq_contents q y = Some k \<longrightarrow> entry_key e \<le> k) \<and>
       pq_contents q' = (pq_contents q)(qe_item e := None) \<and> pq_verify q'))"
proof (cases "pq_queue q = []")
  case True
  then show ?thesis by (simp add: pq_pop_eq pq_empty_def pq_length_def)
next
  case False
  have inv: "pq_inv q" using assms by (rule pq_reach_inv)
  obtain q' where q': "pq_pop q wait = Inr (Some (q', pq_queue q ! 0))"
    using pq_pop_effect [OF inv False] by metis
  show ?thesis
    using False q' pq_pop_cases [OF inv q'] pq_root_least [OF inv] pq_inv_verify
    by (auto simp: pq_empty_def pq_length_def)
qed

theorem pq_pop_min_witness:
  "\<exists>q' e. pq_pop pq_sample False = Inr (Some (q', e)) \<and>
     pq_contents pq_sample (qe_item e) = Some (entry_key e) \<and> pq_verify q'"
proof -
  have "\<not> pq_empty pq_sample" by code_simp
  then show ?thesis using pq_pop_min [OF pq_reach_sample, of False] by blast
qed

text \<open>
  Emptying a reachable queue by repeated \<^verbatim>\<open>pop\<close> yields every queued item exactly once,
  with its key, in non-decreasing order of (priority, timestamp, index): entries of equal
  priority come by timestamp, and first in first out where the timestamps agree too.
\<close>

theorem pq_drain:
  assumes "pq_reach q"
  shows "sorted (map snd (drain_with pq_take (pq_length q) q)) \<and>
    distinct (map fst (drain_with pq_take (pq_length q) q)) \<and>
    map_of (drain_with pq_take (pq_length q) q) = pq_contents q"
  using pq_reach_inv [OF assms] pq.drain_sorted pq.drain_distinct
    pq.drain_complete [OF _ pq_card_contents] by blast

theorem pq_drain_witness:
  "sorted (map snd (drain_with pq_take (pq_length pq_sample) pq_sample)) \<and>
   map fst (drain_with pq_take (pq_length pq_sample) pq_sample) = [''b'', ''a'']"
proof -
  have "map fst (drain_with pq_take (pq_length pq_sample) pq_sample) = [''b'', ''a'']"
    by code_simp
  then show ?thesis using pq_drain [OF pq_reach_sample] by blast
qed



end
