(* ===== verification/PhaseManagement.thy ===== *)
theory PhaseManagement
  imports Prelude
begin

text \<open>
  Contest phases, from \<^verbatim>\<open>cms/server/contest/phase_management.py\<close>: which phase a contestant is
  in at a given time, when that phase began and ends, and the decorator that refuses requests
  in the wrong phase. Times are microseconds; every \<^verbatim>\<open>assert\<close> and the unreachable
  \<^verbatim>\<open>RuntimeError\<close> branches are branches of the model.
\<close>

section \<open>Model\<close>

record phase_config =
  contest_start :: datetime
  contest_stop :: datetime
  analysis_start :: "datetime option"
  analysis_stop :: "datetime option"
  per_user_time :: "timedelta option"
  starting_time :: "datetime option"
  delay_time :: timedelta
  extra_time :: timedelta

record phase_result =
  actual_phase :: int
  current_phase_begin :: "datetime option"
  current_phase_end :: "datetime option"
  actual_start :: "datetime option"
  actual_stop :: "datetime option"

text \<open>The branch for a contestant of a USACO-like contest who has not started.\<close>

definition phase_not_started :: "datetime \<Rightarrow> phase_config \<Rightarrow> phase_result res" where
  "phase_not_started timestamp c =
     (let r = \<lparr>actual_phase = 0, current_phase_begin = None, current_phase_end = None,
               actual_start = None, actual_stop = None\<rparr>
      in if contest_start c \<le> timestamp \<and> timestamp \<le> contest_stop c then
           Inr (r\<lparr>actual_phase := -1, current_phase_begin := Some (contest_start c),
                  current_phase_end := Some (contest_stop c)\<rparr>)
         else if timestamp < contest_start c then
           Inr (r\<lparr>actual_phase := -2, current_phase_begin := None,
                  current_phase_end := Some (contest_start c)\<rparr>)
         else if contest_stop c < timestamp then
           Inr (r\<lparr>actual_phase := 2, current_phase_begin := Some (contest_stop c),
                  current_phase_end := None\<rparr>)
         else Inl RuntimeError)"

text \<open>When the contestant's own window opens and closes, before delay and extra time.\<close>

definition intended_window :: "phase_config \<Rightarrow> datetime \<times> datetime" where
  "intended_window c =
     (case (per_user_time c, starting_time c) of
        (Some put, Some st) \<Rightarrow>
          (min (max st (contest_start c)) (contest_stop c),
           min (max (st + put) (contest_start c)) (contest_stop c))
      | _ \<Rightarrow> (contest_start c, contest_stop c))"

text \<open>The branch for everybody else.\<close>

definition phase_started :: "datetime \<Rightarrow> phase_config \<Rightarrow> phase_result res" where
  "phase_started timestamp c =
     (let (intended_start, intended_stop) = intended_window c;
          a_start = intended_start + delay_time c;
          a_stop = intended_stop + delay_time c + extra_time c;
          r = \<lparr>actual_phase = 0, current_phase_begin = None, current_phase_end = None,
               actual_start = Some a_start, actual_stop = Some a_stop\<rparr>
      in if \<not> (contest_start c \<le> a_start \<and> a_start \<le> a_stop) then Inl AssertionError
         else if a_start \<le> timestamp \<and> timestamp \<le> a_stop then
           Inr (r\<lparr>actual_phase := 0, current_phase_begin := Some a_start,
                  current_phase_end := Some a_stop\<rparr>)
         else if contest_start c \<le> timestamp \<and> timestamp < a_start then
           Inr (r\<lparr>actual_phase := -1, current_phase_begin := Some (contest_start c),
                  current_phase_end := Some a_start\<rparr>)
         else if timestamp < contest_start c then
           Inr (r\<lparr>actual_phase := -2, current_phase_begin := None,
                  current_phase_end := Some (contest_start c)\<rparr>)
         else if a_stop < timestamp \<and> timestamp \<le> contest_stop c then
           Inr (r\<lparr>actual_phase := 1, current_phase_begin := Some a_stop,
                  current_phase_end := Some (contest_stop c)\<rparr>)
         else if contest_stop c < timestamp then
           Inr (r\<lparr>actual_phase := 2, current_phase_begin := Some (max (contest_stop c) a_stop),
                  current_phase_end := None\<rparr>)
         else Inl RuntimeError)"

definition begin_after :: "datetime \<Rightarrow> datetime option \<Rightarrow> datetime" where
  "begin_after t stop = (case stop of None \<Rightarrow> t | Some s \<Rightarrow> max t s)"

text \<open>The analysis mode, which refines phase +2.\<close>

definition phase_analysis :: "datetime \<Rightarrow> phase_config \<Rightarrow> phase_result \<Rightarrow> phase_result res" where
  "phase_analysis timestamp c r =
     (if actual_phase r \<noteq> 2 then Inr r
      else case analysis_start c of
        None \<Rightarrow> Inr (r\<lparr>actual_phase := 4\<rparr>)
      | Some an_start \<Rightarrow>
          if \<not> contest_stop c \<le> an_start then Inl AssertionError
          else case analysis_stop c of
            None \<Rightarrow> Inl AssertionError
          | Some an_stop \<Rightarrow>
              if \<not> an_start \<le> an_stop then Inl AssertionError
              else if timestamp < an_start then Inr (r\<lparr>current_phase_end := Some an_start\<rparr>)
              else if an_start \<le> timestamp \<and> timestamp \<le> an_stop then
                Inr (r\<lparr>current_phase_begin := Some (begin_after an_start (actual_stop r)),
                       current_phase_end := Some an_stop, actual_phase := 3\<rparr>)
              else if an_stop < timestamp then
                Inr (r\<lparr>current_phase_begin := Some (begin_after an_stop (actual_stop r)),
                       current_phase_end := None, actual_phase := 4\<rparr>)
              else Inl RuntimeError)"

definition compute_actual_phase :: "datetime \<Rightarrow> phase_config \<Rightarrow> phase_result res" where
  "compute_actual_phase timestamp c =
     (if \<not> contest_start c \<le> contest_stop c then Inl AssertionError
      else if \<not> (case per_user_time c of None \<Rightarrow> True | Some p \<Rightarrow> 0 \<le> p) then Inl AssertionError
      else if \<not> 0 \<le> delay_time c then Inl AssertionError
      else if \<not> 0 \<le> extra_time c then Inl AssertionError
      else res_bind
        (if per_user_time c \<noteq> None \<and> starting_time c = None
         then phase_not_started timestamp c else phase_started timestamp c)
        (phase_analysis timestamp c))"

definition phase_refusal_text :: "int \<Rightarrow> string" where
  "phase_refusal_text phase =
     (if phase < 0 then ''The contest hasn't started yet.''
      else ''The contest has already ended.'')"

text \<open>
  \<^verbatim>\<open>actual_phase_required\<close>: what the decorated handler sees of a request, and what the wrapper
  does with it. \<open>override_arg\<close> is the text of the \<^verbatim>\<open>override_phase_check\<close> argument, empty when
  the request has none.
\<close>

record cws_request =
  current_user_unrestricted :: "bool option"
  impersonated_by_admin :: bool
  override_arg :: string
  request_phase :: int
  is_api :: bool

datatype phase_reply =
    CallHandler
  | JsonError string nat
  | NotifyAndRedirect string string
  | RedirectOnly

definition get_boolean_argument :: "string \<Rightarrow> bool \<Rightarrow> bool res" where
  "get_boolean_argument arg dflt =
     (if arg = '''' then Inr dflt
      else if arg = ''0'' then Inr False
      else if arg = ''1'' then Inr True
      else Inl ValueError)"

definition actual_phase_required :: "int list \<Rightarrow> string option \<Rightarrow> cws_request \<Rightarrow> phase_reply" where
  "actual_phase_required phases refusal_subject r =
     (let unrestricted = (current_user_unrestricted r = Some True)
      in case (if impersonated_by_admin r then get_boolean_argument (override_arg r) unrestricted
               else Inr unrestricted) of
        Inl _ \<Rightarrow> JsonError ''Cannot parse boolean argument override_phase_check'' 400
      | Inr unrestricted' \<Rightarrow>
          if request_phase r \<notin> set phases \<and> \<not> unrestricted' then
            if is_api r then
              if set phases \<subseteq> {0, 3} then JsonError ''The contest is not open'' 403
              else JsonError ''Wrong contest phase'' 403
            else (case refusal_subject of
                Some subject \<Rightarrow> NotifyAndRedirect subject (phase_refusal_text (request_phase r))
              | None \<Rightarrow> RedirectOnly)
          else CallHandler)"

section \<open>Lemmas\<close>

text \<open>A configuration that satisfies what the function asserts.\<close>

definition phase_config_ok :: "phase_config \<Rightarrow> bool" where
  "phase_config_ok c \<longleftrightarrow>
     contest_start c \<le> contest_stop c \<and>
     (case per_user_time c of None \<Rightarrow> True | Some p \<Rightarrow> 0 \<le> p) \<and>
     0 \<le> delay_time c \<and> 0 \<le> extra_time c \<and>
     (case analysis_start c of None \<Rightarrow> True
      | Some a \<Rightarrow> contest_stop c \<le> a \<and> (case analysis_stop c of None \<Rightarrow> False | Some b \<Rightarrow> a \<le> b))"

definition phase_window_ok :: "datetime \<Rightarrow> phase_result \<Rightarrow> bool" where
  "phase_window_ok t r \<longleftrightarrow>
     (case current_phase_begin r of None \<Rightarrow> True | Some b \<Rightarrow> b \<le> t) \<and>
     (case current_phase_end r of None \<Rightarrow> True | Some e \<Rightarrow> t \<le> e)"

definition strictly_inside :: "datetime \<Rightarrow> phase_result \<Rightarrow> bool" where
  "strictly_inside t r \<longleftrightarrow>
     (case current_phase_begin r of None \<Rightarrow> True | Some b \<Rightarrow> b < t) \<and>
     (case current_phase_end r of None \<Rightarrow> True | Some e \<Rightarrow> t < e)"

lemmas phase_defs = phase_not_started_def phase_started_def phase_analysis_def begin_after_def
  compute_actual_phase_def Let_def

lemma intended_window_bounds:
  assumes "phase_config_ok c" "intended_window c = (s, e)"
  shows "contest_start c \<le> s" "s \<le> e" "e \<le> contest_stop c"
  using assms
  by (auto simp: intended_window_def phase_config_ok_def split: option.splits)

text \<open>The two cases of the function, with the asserts discharged.\<close>

lemma compute_not_started:
  assumes "phase_config_ok c" "per_user_time c \<noteq> None" "starting_time c = None"
  shows "compute_actual_phase t c = res_bind (phase_not_started t c) (phase_analysis t c)"
  using assms by (auto simp: compute_actual_phase_def phase_config_ok_def split: option.splits)

lemma compute_started:
  assumes "phase_config_ok c" "\<not> (per_user_time c \<noteq> None \<and> starting_time c = None)"
  shows "compute_actual_phase t c = res_bind (phase_started t c) (phase_analysis t c)"
  using assms by (auto simp: compute_actual_phase_def phase_config_ok_def split: option.splits)

text \<open>
  A reference definition: the phases as consecutive intervals of the time line, once the
  contestant's window \<open>[a, b]\<close> is known.
\<close>

definition late_phase :: "phase_config \<Rightarrow> datetime \<Rightarrow> int" where
  "late_phase c t =
     (case analysis_start c of None \<Rightarrow> 4
      | Some a \<Rightarrow> if t < a then 2
          else (case analysis_stop c of None \<Rightarrow> 4 | Some b \<Rightarrow> if t \<le> b then 3 else 4))"

definition late_begin :: "phase_config \<Rightarrow> datetime \<Rightarrow> datetime" where
  "late_begin c t =
     (if late_phase c t = 3 then the (analysis_start c)
      else if late_phase c t = 4 \<and> analysis_start c \<noteq> None then the (analysis_stop c)
      else contest_stop c)"

definition late_end :: "phase_config \<Rightarrow> datetime \<Rightarrow> datetime option" where
  "late_end c t =
     (if late_phase c t = 2 then analysis_start c
      else if late_phase c t = 3 then analysis_stop c else None)"

definition window_result :: "phase_config \<Rightarrow> datetime \<Rightarrow> datetime \<Rightarrow> datetime \<Rightarrow> phase_result" where
  "window_result c a b t =
     \<lparr>actual_phase =
        (if t < contest_start c then -2 else if t < a then -1 else if t \<le> b then 0
         else if t \<le> contest_stop c then 1 else late_phase c t),
      current_phase_begin =
        (if t < contest_start c then None else if t < a then Some (contest_start c)
         else if t \<le> b then Some a else if t \<le> contest_stop c then Some b
         else Some (max (late_begin c t) b)),
      current_phase_end =
        (if t < contest_start c then Some (contest_start c) else if t < a then Some a
         else if t \<le> b then Some b else if t \<le> contest_stop c then Some (contest_stop c)
         else late_end c t),
      actual_start = Some a, actual_stop = Some b\<rparr>"

definition no_window_result :: "phase_config \<Rightarrow> datetime \<Rightarrow> phase_result" where
  "no_window_result c t =
     \<lparr>actual_phase =
        (if t < contest_start c then -2 else if t \<le> contest_stop c then -1 else late_phase c t),
      current_phase_begin =
        (if t < contest_start c then None else if t \<le> contest_stop c then Some (contest_start c)
         else Some (late_begin c t)),
      current_phase_end =
        (if t < contest_start c then Some (contest_start c)
         else if t \<le> contest_stop c then Some (contest_stop c) else late_end c t),
      actual_start = None, actual_stop = None\<rparr>"

lemmas late_defs = late_phase_def late_begin_def late_end_def

text \<open>The contestant's window, if they have one.\<close>

definition user_window :: "phase_config \<Rightarrow> (datetime \<times> datetime) option" where
  "user_window c =
     (if per_user_time c \<noteq> None \<and> starting_time c = None then None
      else Some (fst (intended_window c) + delay_time c,
                 snd (intended_window c) + delay_time c + extra_time c))"

definition phase_reference :: "phase_config \<Rightarrow> datetime \<Rightarrow> phase_result" where
  "phase_reference c t =
     (case user_window c of None \<Rightarrow> no_window_result c t | Some (a, b) \<Rightarrow> window_result c a b t)"

lemma user_window_bounds:
  assumes "phase_config_ok c" "user_window c = Some (a, b)"
  shows "contest_start c \<le> a" "a \<le> b"
  using assms intended_window_bounds [of c "fst (intended_window c)" "snd (intended_window c)"]
  by (auto simp: user_window_def phase_config_ok_def split: if_splits)

lemma compute_not_started_eq:
  assumes "phase_config_ok c" "user_window c = None"
  shows "compute_actual_phase t c = Inr (no_window_result c t)"
proof -
  have "per_user_time c \<noteq> None" "starting_time c = None"
    using assms(2) by (auto simp: user_window_def split: if_splits)
  then show ?thesis
    using assms(1)
    by (auto simp: compute_not_started phase_not_started_def no_window_result_def
        phase_analysis_def begin_after_def late_defs phase_config_ok_def Let_def split: option.splits)
qed

lemma compute_started_eq:
  assumes ok: "phase_config_ok c" and w: "user_window c = Some (a, b)"
  shows "compute_actual_phase t c = Inr (window_result c a b t)"
proof -
  note ab = user_window_bounds [OF assms]
  have st: "\<not> (per_user_time c \<noteq> None \<and> starting_time c = None)"
    and a: "a = fst (intended_window c) + delay_time c"
    and b: "b = snd (intended_window c) + delay_time c + extra_time c"
    using w by (auto simp: user_window_def split: if_splits)
  have "phase_started t c = (let
      r = \<lparr>actual_phase = 0, current_phase_begin = None, current_phase_end = None,
           actual_start = Some a, actual_stop = Some b\<rparr>
      in if a \<le> t \<and> t \<le> b then
           Inr (r\<lparr>current_phase_begin := Some a, current_phase_end := Some b\<rparr>)
         else if contest_start c \<le> t \<and> t < a then
           Inr (r\<lparr>actual_phase := -1, current_phase_begin := Some (contest_start c),
                  current_phase_end := Some a\<rparr>)
         else if t < contest_start c then
           Inr (r\<lparr>actual_phase := -2, current_phase_end := Some (contest_start c)\<rparr>)
         else if t \<le> contest_stop c then
           Inr (r\<lparr>actual_phase := 1, current_phase_begin := Some b,
                  current_phase_end := Some (contest_stop c)\<rparr>)
         else Inr (r\<lparr>actual_phase := 2, current_phase_begin := Some (max (contest_stop c) b)\<rparr>))"
    using ab by (auto simp: phase_started_def case_prod_beta a b Let_def)
  then show ?thesis
    using ab ok unfolding compute_started [OF ok st]
    by (auto simp: window_result_def phase_analysis_def begin_after_def late_defs
        phase_config_ok_def Let_def split: option.splits)
qed

lemma compute_reference:
  assumes "phase_config_ok c"
  shows "compute_actual_phase t c = Inr (phase_reference c t)"
  using compute_not_started_eq [OF assms] compute_started_eq [OF assms]
  by (cases "user_window c") (auto simp: phase_reference_def)

lemma late_phase_range: "late_phase c t \<in> {2, 3, 4}"
  by (auto simp: late_phase_def split: option.splits)

lemma late_phase_mono: "phase_config_ok c \<Longrightarrow> t \<le> t' \<Longrightarrow> late_phase c t \<le> late_phase c t'"
  by (auto simp: late_phase_def phase_config_ok_def split: option.splits)

lemma late_window:
  assumes "phase_config_ok c" "contest_stop c < t"
  shows "late_begin c t \<le> t" "contest_stop c \<le> late_begin c t"
    "case late_end c t of None \<Rightarrow> True | Some e \<Rightarrow> t \<le> e"
  using assms by (auto simp: late_defs phase_config_ok_def split: option.splits)

lemma late_stable:
  assumes "phase_config_ok c" "contest_stop c < t" "late_begin c t < t'"
    "case late_end c t of None \<Rightarrow> True | Some e \<Rightarrow> t' < e"
  shows "late_phase c t' = late_phase c t" "contest_stop c < t'"
  using assms by (auto simp: late_defs phase_config_ok_def split: option.splits if_splits)

lemma late_stable_bounds:
  "late_phase c t' = late_phase c t \<Longrightarrow> late_begin c t' = late_begin c t"
  "late_phase c t' = late_phase c t \<Longrightarrow> late_end c t' = late_end c t"
  by (simp_all add: late_begin_def late_end_def)

lemma phase_reference_stable:
  assumes ok: "phase_config_ok c" and t': "strictly_inside t' (phase_reference c t)"
  shows "phase_reference c t' = phase_reference c t"
proof (cases "user_window c")
  case None
  show ?thesis
  proof (cases "t \<le> contest_stop c")
    case True
    then show ?thesis
      using None t' ok
      by (auto simp: phase_reference_def no_window_result_def strictly_inside_def
          phase_config_ok_def split: if_splits)
  next
    case False
    then have "contest_start c \<le> t" using ok by (auto simp: phase_config_ok_def)
    with False None t' have "late_begin c t < t'" "case late_end c t of None \<Rightarrow> True | Some e \<Rightarrow> t' < e"
      by (auto simp: phase_reference_def no_window_result_def strictly_inside_def)
    then have "late_phase c t' = late_phase c t" "contest_stop c < t'"
      using late_stable [OF ok, of t t'] False by (auto simp: not_le)
    then show ?thesis
      using None False ok late_stable_bounds [of c t' t]
      by (auto simp: phase_reference_def no_window_result_def phase_config_ok_def)
  qed
next
  case (Some ab)
  obtain a b where ab: "user_window c = Some (a, b)" using Some by (cases ab) auto
  note bounds = user_window_bounds [OF ok ab]
  show ?thesis
  proof (cases "t \<le> contest_stop c \<or> t \<le> b")
    case True
    then show ?thesis
      using ab t' ok bounds
      by (auto simp: phase_reference_def window_result_def strictly_inside_def
          phase_config_ok_def split: if_splits)
  next
    case False
    then have "contest_start c \<le> t" "a \<le> t" using ok bounds by (auto simp: phase_config_ok_def)
    with False ab t' have "late_begin c t < t'" "b < t'"
      "case late_end c t of None \<Rightarrow> True | Some e \<Rightarrow> t' < e"
      by (auto simp: phase_reference_def window_result_def strictly_inside_def)
    moreover from this have "late_phase c t' = late_phase c t" "contest_stop c < t'"
      using late_stable [OF ok, of t t'] False by (auto simp: not_le)
    ultimately show ?thesis
      using ab False ok bounds late_stable_bounds [of c t' t]
      by (auto simp: phase_reference_def window_result_def phase_config_ok_def)
  qed
qed

lemma phase_reference_window: "phase_config_ok c \<Longrightarrow> phase_window_ok t (phase_reference c t)"
proof (cases "user_window c")
  case None
  assume ok: "phase_config_ok c"
  show ?thesis
    using None ok late_window [OF ok, of t]
    by (auto simp: phase_reference_def no_window_result_def phase_window_ok_def not_le)
next
  case (Some ab)
  assume ok: "phase_config_ok c"
  obtain a b where "user_window c = Some (a, b)" using Some by (cases ab) auto
  then show ?thesis
    using user_window_bounds [OF ok, of a b] late_window [OF ok, of t]
    by (auto simp: phase_reference_def window_result_def phase_window_ok_def not_le)
qed

lemma phase_reference_mono:
  assumes "phase_config_ok c" "t \<le> t'"
  shows "actual_phase (phase_reference c t) \<le> actual_phase (phase_reference c t')"
  using assms late_phase_range [of c t] late_phase_range [of c t'] late_phase_mono [OF assms]
  by (cases "user_window c") (auto simp: phase_reference_def no_window_result_def window_result_def)

section \<open>Properties\<close>

definition phase_sample :: phase_config where
  "phase_sample = \<lparr>contest_start = 100, contest_stop = 200, analysis_start = Some 250,
     analysis_stop = Some 300, per_user_time = Some 30, starting_time = Some 150,
     delay_time = 5, extra_time = 10\<rparr>"

lemma phase_sample_ok: "phase_config_ok phase_sample"
  by code_simp

text \<open>
  C4. On every configuration that satisfies the documented constraints the function returns (no
  assertion fails, and no "Logic doesn't seem to be working" branch is reached); the phase is one
  of the seven phases -2 to +4, the reported interval contains the given time, and the phase
  intervals partition the time line: at every time strictly between the reported boundaries the
  function returns the same answer.
\<close>

theorem compute_actual_phase_interval:
  assumes "phase_config_ok c"
  shows "\<exists>r. compute_actual_phase t c = Inr r \<and> actual_phase r \<in> {-2, -1, 0, 1, 2, 3, 4} \<and>
    phase_window_ok t r \<and>
    (\<forall>t'. strictly_inside t' r \<longrightarrow> compute_actual_phase t' c = Inr r)"
proof -
  have "actual_phase (phase_reference c t) \<in> {-2, -1, 0, 1, 2, 3, 4}"
    using late_phase_range [of c t]
    by (cases "user_window c")
      (auto simp: phase_reference_def no_window_result_def window_result_def split: if_splits)
  then show ?thesis
    using compute_reference [OF assms] phase_reference_window [OF assms]
      phase_reference_stable [OF assms] by auto
qed

theorem compute_actual_phase_interval_witness:
  "\<exists>r. compute_actual_phase 170 phase_sample = Inr r \<and> actual_phase r = 0 \<and>
     compute_actual_phase 171 phase_sample = Inr r"
proof -
  have r: "compute_actual_phase 170 phase_sample =
      Inr \<lparr>actual_phase = 0, current_phase_begin = Some 155, current_phase_end = Some 195,
           actual_start = Some 155, actual_stop = Some 195\<rparr>" by code_simp
  have "strictly_inside 171 \<lparr>actual_phase = 0, current_phase_begin = Some 155,
      current_phase_end = Some 195, actual_start = Some 155, actual_stop = Some 195\<rparr>" by code_simp
  then show ?thesis
    using compute_actual_phase_interval [OF phase_sample_ok, of 170] r by auto
qed

text \<open>
  A contestant never goes back to an earlier phase: as time passes the phase number does not
  decrease.
\<close>

theorem compute_actual_phase_mono:
  assumes "phase_config_ok c" "t \<le> t'" "compute_actual_phase t c = Inr r"
    "compute_actual_phase t' c = Inr r'"
  shows "actual_phase r \<le> actual_phase r'"
  using assms compute_reference [OF assms(1)] phase_reference_mono [OF assms(1,2)] by auto

theorem compute_actual_phase_mono_witness:
  "\<exists>r r'. compute_actual_phase 170 phase_sample = Inr r \<and> compute_actual_phase 260 phase_sample = Inr r' \<and>
     actual_phase r \<le> actual_phase r'"
proof -
  obtain r r' where "compute_actual_phase 170 phase_sample = Inr r"
    "compute_actual_phase 260 phase_sample = Inr r'"
    using compute_reference [OF phase_sample_ok] by blast
  then show ?thesis
    using compute_actual_phase_mono [OF phase_sample_ok, of 170 260 r r'] by auto
qed

text \<open>
  C5. The time to compete. A contestant is in phase 0 exactly at the times of their actual window;
  the window starts no earlier than the contest (plus their delay), ends no later than the contest
  plus delay and extra time, lasts exactly the contest plus the extra time in a traditional
  contest, and at most the per-user time plus the extra time in a USACO-like one.
\<close>

theorem compute_actual_phase_window:
  assumes "phase_config_ok c" "compute_actual_phase t c = Inr r"
  shows "(actual_phase r = 0 \<longleftrightarrow>
      (\<exists>a b. actual_start r = Some a \<and> actual_stop r = Some b \<and> a \<le> t \<and> t \<le> b)) \<and>
    (\<forall>a b. actual_start r = Some a \<longrightarrow> actual_stop r = Some b \<longrightarrow>
      contest_start c + delay_time c \<le> a \<and>
      b \<le> contest_stop c + delay_time c + extra_time c \<and>
      (case per_user_time c of
         None \<Rightarrow> b - a = contest_stop c - contest_start c + extra_time c
       | Some p \<Rightarrow> b - a \<le> p + extra_time c))"
proof -
  have r: "r = phase_reference c t" using assms compute_reference [OF assms(1)] by simp
  show ?thesis
  proof (cases "user_window c")
    case None
    then show ?thesis
      using late_phase_range [of c t] by (auto simp: r phase_reference_def no_window_result_def)
  next
    case (Some ab)
    obtain a b where ab: "user_window c = Some (a, b)" using Some by (cases ab) auto
    have "b - a \<le> p + extra_time c" if "per_user_time c = Some p" for p
      using ab assms(1) that
      by (auto simp: user_window_def intended_window_def phase_config_ok_def
          split: option.splits if_splits)
    moreover have "b - a = contest_stop c - contest_start c + extra_time c" if "per_user_time c = None"
      using ab that by (auto simp: user_window_def intended_window_def split: option.splits)
    moreover have "contest_start c + delay_time c \<le> a" "b \<le> contest_stop c + delay_time c + extra_time c"
      using ab intended_window_bounds [OF assms(1), of "fst (intended_window c)" "snd (intended_window c)"]
      by (auto simp: user_window_def split: if_splits)
    ultimately show ?thesis
      using ab user_window_bounds [OF assms(1) ab] late_phase_range [of c t]
      by (auto simp: r phase_reference_def window_result_def split: option.splits)
  qed
qed

theorem compute_actual_phase_window_witness:
  "\<exists>r. compute_actual_phase 195 phase_sample = Inr r \<and> actual_phase r = 0 \<and>
     (\<forall>a b. actual_start r = Some a \<longrightarrow> actual_stop r = Some b \<longrightarrow> b - a \<le> 40)"
proof -
  have r: "compute_actual_phase 195 phase_sample =
      Inr \<lparr>actual_phase = 0, current_phase_begin = Some 155, current_phase_end = Some 195,
           actual_start = Some 155, actual_stop = Some 195\<rparr>" by code_simp
  show ?thesis
    using compute_actual_phase_window [OF phase_sample_ok r] r by (auto simp: phase_sample_def)
qed

text \<open>
  The decorator calls the handler exactly when the phase is one of those listed, or the
  contestant is unrestricted; for an administrator who impersonates the contestant the
  \<^verbatim>\<open>override_phase_check\<close> argument decides instead, when it is given. Every other request is
  answered with an error or a redirect.
\<close>

theorem actual_phase_required_passes:
  "actual_phase_required phases subj r = CallHandler \<longleftrightarrow>
     (if impersonated_by_admin r \<and> override_arg r \<noteq> '''' then
        override_arg r \<in> {''0'', ''1''} \<and> (request_phase r \<in> set phases \<or> override_arg r = ''1'')
      else request_phase r \<in> set phases \<or> current_user_unrestricted r = Some True)"
  by (auto simp: actual_phase_required_def get_boolean_argument_def Let_def split: option.splits)

end
