(* ===== verification/Tokening.thy ===== *)
theory Tokening
  imports Prelude
begin

text \<open>
  Tokens, from \<^verbatim>\<open>cms/server/contest/tokening.py\<close>: how many tokens a contestant has, when the next
  one is generated, when they may play one, and the request that plays one. Times are
  microseconds; the quotients that Python computes on seconds as floats are exact here.
\<close>

section \<open>Model\<close>

datatype token_mode = TOKEN_MODE_DISABLED | TOKEN_MODE_FINITE | TOKEN_MODE_INFINITE

text \<open>The token parameters of a contest or of a task.\<close>

record token_params =
  token_mode :: token_mode
  token_gen_initial :: int
  token_gen_number :: int
  token_gen_interval :: timedelta
  token_gen_max :: "int option"
  token_max_number :: "int option"
  token_min_interval :: timedelta

type_synonym token_status = "int \<times> datetime option \<times> datetime option"

definition num_periods :: "token_params \<Rightarrow> datetime \<Rightarrow> datetime \<Rightarrow> int" where
  "num_periods p start t = (t - start) div token_gen_interval p"

text \<open>The nested function \<^verbatim>\<open>generate_tokens\<close>.\<close>

definition generate_tokens :: "token_params \<Rightarrow> datetime \<Rightarrow> datetime \<Rightarrow> datetime \<Rightarrow> int res" where
  "generate_tokens p start begin_timestamp end_timestamp =
     (if token_gen_interval p = 0 then Inl ZeroDivisionError
      else Inr (token_gen_number p *
        (num_periods p start end_timestamp - num_periods p start begin_timestamp)))"

definition cap :: "int option \<Rightarrow> int \<Rightarrow> int" where
  "cap m n = (case m of None \<Rightarrow> n | Some k \<Rightarrow> min n k)"

text \<open>One turn of the loop before the token is played: generate, then cap.\<close>

definition token_accrue :: "token_params \<Rightarrow> datetime \<Rightarrow> datetime \<Rightarrow> datetime \<Rightarrow> int \<Rightarrow> int res" where
  "token_accrue p start prev now avail =
     (if \<not> prev \<le> now then Inl AssertionError
      else res_bind (generate_tokens p start prev now)
             (\<lambda>g. Inr (cap (token_gen_max p) (avail + g))))"

text \<open>The loop over the tokens already played: the tokens left and the last time considered.\<close>

fun token_simulate ::
  "token_params \<Rightarrow> datetime \<Rightarrow> datetime \<Rightarrow> int \<Rightarrow> datetime list \<Rightarrow> (int \<times> datetime) res" where
  "token_simulate p start prev avail [] = Inr (avail, prev)"
| "token_simulate p start prev avail (t # ts) =
     res_bind (token_accrue p start prev t avail)
       (\<lambda>a. token_simulate p start t (a - 1) ts)"

text \<open>
  \<^verbatim>\<open>_tokens_available\<close>. \<open>start\<close> is \<open>None\<close> for a contestant of a USACO-like contest who has not
  started: comparing it with a time raises TypeError.
\<close>

definition tokens_available_one ::
  "token_params \<Rightarrow> datetime option \<Rightarrow> datetime list \<Rightarrow> datetime \<Rightarrow> token_status res" where
  "tokens_available_one p start history timestamp =
     (if token_mode p = TOKEN_MODE_DISABLED then Inr (0, None, None)
      else if token_mode p = TOKEN_MODE_INFINITE then Inr (-1, None, None)
      else case start of None \<Rightarrow> Inl TypeError
      | Some st \<Rightarrow>
        res_bind (token_simulate p st st (token_gen_initial p) history) (\<lambda>(avail0, prev).
        res_bind (token_accrue p st prev timestamp avail0) (\<lambda>avail.
          let next_gen_time =
                (if 0 < token_gen_number p \<and>
                    (case token_gen_max p of None \<Rightarrow> True | Some m \<Rightarrow> avail < m)
                 then Some (st + token_gen_interval p * (num_periods p st timestamp + 1))
                 else None);
              (avail2, next2) =
                (case token_max_number p of
                   None \<Rightarrow> (avail, next_gen_time)
                 | Some m \<Rightarrow> if m - int (length history) \<le> avail
                            then (m - int (length history), None) else (avail, next_gen_time));
              expiration = (if history \<noteq> [] then last history + token_min_interval p else st);
              expiration2 =
                (if expiration \<le> timestamp \<or> (avail2 = 0 \<and> next2 = None) then None
                 else Some expiration)
          in Inr (avail2, next2, expiration2))))"

text \<open>The last part of \<^verbatim>\<open>tokens_available\<close>: merging the two results.\<close>

definition later :: "datetime option \<Rightarrow> datetime option \<Rightarrow> datetime option" where
  "later a b = (case (a, b) of (None, y) \<Rightarrow> y | (x, None) \<Rightarrow> x | (Some x, Some y) \<Rightarrow> Some (max y x))"

definition merge_tokens :: "token_status \<Rightarrow> token_status \<Rightarrow> token_status" where
  "merge_tokens res_contest res_task =
     (let (c, cnext, cexp) = res_contest; (k, knext, kexp) = res_task;
          expiration = later cexp kexp
      in if c = -1 \<and> k = -1 then (-1, None, expiration)
         else
           let c' = (if c = -1 then k + 1 else c);
               k' = (if k = -1 then c' + 1 else k)
           in if c' < k' then (c', cnext, expiration)
              else if k' < c' then (k', knext, expiration)
              else (case (cnext, knext) of
                  (Some x, Some y) \<Rightarrow> (k', Some (max x y), expiration)
                | _ \<Rightarrow> (k', None, expiration)))"

text \<open>
  What the database holds of this: the submissions and the tokens played on them. The query
  selects the tokens of a participation up to a time, ordered by time.
\<close>

record submission_row =
  sub_id :: nat
  sub_participation :: nat
  sub_task :: nat

record token_row =
  tok_timestamp :: datetime
  tok_submission :: nat

record token_db =
  db_submissions :: "submission_row list"
  db_tokens :: "token_row list"

definition submission_of :: "token_db \<Rightarrow> nat \<Rightarrow> submission_row option" where
  "submission_of db i = find (\<lambda>s. sub_id s = i) (db_submissions db)"

definition token_timestamps :: "token_db \<Rightarrow> nat \<Rightarrow> datetime \<Rightarrow> (datetime \<times> nat) list" where
  "token_timestamps db part timestamp =
     sort_key fst (concat (map (\<lambda>tk.
       if tok_timestamp tk \<le> timestamp then
         (case submission_of db (tok_submission tk) of
            None \<Rightarrow> []
          | Some s \<Rightarrow> if sub_participation s = part then [(tok_timestamp tk, sub_task s)] else [])
       else []) (db_tokens db)))"

record token_setting =
  ts_contest :: token_params
  ts_task :: "nat \<Rightarrow> token_params"
  ts_per_user_time :: "timedelta option"
  ts_starting_time :: "datetime option"
  ts_group_start :: datetime

definition token_start :: "token_setting \<Rightarrow> datetime option" where
  "token_start cf = (if ts_per_user_time cf \<noteq> None then ts_starting_time cf else Some (ts_group_start cf))"

definition tokens_available ::
  "token_setting \<Rightarrow> token_db \<Rightarrow> nat \<Rightarrow> nat \<Rightarrow> datetime \<Rightarrow> token_status res" where
  "tokens_available cf db part task timestamp =
     (let stamps = token_timestamps db part timestamp;
          contest_history = map fst stamps;
          task_history = map fst (filter (\<lambda>x. snd x = task) stamps);
          start = token_start cf
      in res_bind (tokens_available_one (ts_contest cf) start contest_history timestamp) (\<lambda>res_contest.
         res_bind (tokens_available_one (ts_task cf task) start task_history timestamp) (\<lambda>res_task.
           Inr (merge_tokens res_contest res_task))))"

datatype token_error = ConcurrentRequest | NoTokensAvailable | TokenAlreadyPlayed | Raised py_error

text \<open>
  \<^verbatim>\<open>accept_token\<close>. \<open>locked\<close> is the answer of the advisory lock; the first two errors are the
  two uses of \<^verbatim>\<open>UnacceptableToken\<close>.
\<close>

definition accept_token ::
  "token_setting \<Rightarrow> bool \<Rightarrow> token_db \<Rightarrow> submission_row \<Rightarrow> datetime \<Rightarrow> token_error + token_db" where
  "accept_token cf locked db s timestamp =
     (if \<not> locked then Inl ConcurrentRequest
      else case tokens_available cf db (sub_participation s) (sub_task s) timestamp of
        Inl e \<Rightarrow> Inl (Raised e)
      | Inr (avail, _, expiration) \<Rightarrow>
          if avail = 0 \<or> expiration \<noteq> None then Inl NoTokensAvailable
          else if \<exists>tk \<in> set (db_tokens db). tok_submission tk = sub_id s then Inl TokenAlreadyPlayed
          else Inr (db\<lparr>db_tokens := db_tokens db @
                 [\<lparr>tok_timestamp = timestamp, tok_submission = sub_id s\<rparr>]\<rparr>))"

section \<open>The count as a pure function\<close>

text \<open>The constraints of the database on the parameters.\<close>

definition token_params_ok :: "token_params \<Rightarrow> bool" where
  "token_params_ok p \<longleftrightarrow>
     0 \<le> token_gen_initial p \<and> 0 \<le> token_gen_number p \<and> 0 < token_gen_interval p \<and>
     0 \<le> token_min_interval p \<and>
     (case token_gen_max p of None \<Rightarrow> True | Some m \<Rightarrow> 0 < m \<and> token_gen_initial p \<le> m) \<and>
     (case token_max_number p of None \<Rightarrow> True | Some m \<Rightarrow> 0 < m)"

definition accrued :: "token_params \<Rightarrow> datetime \<Rightarrow> datetime \<Rightarrow> datetime \<Rightarrow> int \<Rightarrow> int" where
  "accrued p st prev t a =
     cap (token_gen_max p) (a + token_gen_number p * (num_periods p st t - num_periods p st prev))"

fun left_after :: "token_params \<Rightarrow> datetime \<Rightarrow> datetime \<Rightarrow> int \<Rightarrow> datetime list \<Rightarrow> int" where
  "left_after p st prev a [] = a"
| "left_after p st prev a (t # ts) = left_after p st t (accrued p st prev t a - 1) ts"

abbreviation last_time :: "datetime \<Rightarrow> datetime list \<Rightarrow> datetime" where
  "last_time st h \<equiv> last (st # h)"

definition generated :: "token_params \<Rightarrow> datetime \<Rightarrow> datetime list \<Rightarrow> datetime \<Rightarrow> int" where
  "generated p st h t =
     accrued p st (last_time st h) t (left_after p st st (token_gen_initial p) h)"

definition avail_count :: "token_params \<Rightarrow> datetime \<Rightarrow> datetime list \<Rightarrow> datetime \<Rightarrow> int" where
  "avail_count p st h t =
     (case token_max_number p of None \<Rightarrow> generated p st h t
      | Some m \<Rightarrow> min (generated p st h t) (m - int (length h)))"

definition next_gen :: "token_params \<Rightarrow> datetime \<Rightarrow> datetime list \<Rightarrow> datetime \<Rightarrow> datetime option" where
  "next_gen p st h t =
     (if 0 < token_gen_number p \<and>
         (case token_gen_max p of None \<Rightarrow> True | Some m \<Rightarrow> generated p st h t < m) \<and>
         (case token_max_number p of None \<Rightarrow> True | Some m \<Rightarrow> generated p st h t < m - int (length h))
      then Some (st + token_gen_interval p * (num_periods p st t + 1)) else None)"

definition ready_at :: "token_params \<Rightarrow> datetime \<Rightarrow> datetime list \<Rightarrow> datetime" where
  "ready_at p st h = (if h = [] then st else last h + token_min_interval p)"

lemma token_accrue_eq:
  "token_params_ok p \<Longrightarrow> prev \<le> t \<Longrightarrow> token_accrue p st prev t a = Inr (accrued p st prev t a)"
  by (simp add: token_accrue_def generate_tokens_def accrued_def token_params_ok_def)

lemma token_simulate_eq:
  "token_params_ok p \<Longrightarrow> sorted (prev # h) \<Longrightarrow>
   token_simulate p st prev a h = Inr (left_after p st prev a h, last_time prev h)"
  by (induction h arbitrary: prev a) (auto simp: token_accrue_eq)

lemma tokens_available_finite:
  assumes ok: "token_params_ok p" and m: "token_mode p = TOKEN_MODE_FINITE"
    and s: "sorted (st # h @ [t])"
  shows "tokens_available_one p (Some st) h t =
    Inr (avail_count p st h t, next_gen p st h t,
      if ready_at p st h \<le> t \<or> (avail_count p st h t = 0 \<and> next_gen p st h t = None) then None
      else Some (ready_at p st h))"
proof -
  have "sorted (st # h)" "last_time st h \<le> t" using s by (auto simp: sorted_append)
  then have "token_simulate p st st (token_gen_initial p) h =
      Inr (left_after p st st (token_gen_initial p) h, last_time st h)"
    "token_accrue p st (last_time st h) t (left_after p st st (token_gen_initial p) h) =
      Inr (generated p st h t)"
    using ok by (simp_all add: token_simulate_eq token_accrue_eq generated_def)
  then show ?thesis
    using m
    by (auto simp: tokens_available_one_def Let_def avail_count_def next_gen_def ready_at_def
        min_def split: option.splits)
qed

lemma left_after_snoc:
  "left_after p st prev a (h @ [t]) = accrued p st (last_time prev h) t (left_after p st prev a h) - 1"
  by (induction h arbitrary: prev a) auto

lemma left_after_initial_snoc:
  "left_after p st st (token_gen_initial p) (h @ [t]) = generated p st h t - 1"
  by (simp add: left_after_snoc generated_def)

lemma num_periods_mono: "token_params_ok p \<Longrightarrow> t \<le> t' \<Longrightarrow> num_periods p st t \<le> num_periods p st t'"
  by (auto simp: num_periods_def token_params_ok_def intro: zdiv_mono1)

lemma cap_mono: "a \<le> b \<Longrightarrow> cap m a \<le> cap m b"
  by (auto simp: cap_def split: option.splits)

lemma cap_le: "cap m a \<le> a"
  by (simp add: cap_def split: option.splits)

lemma generated_mono:
  assumes "token_params_ok p" "t \<le> t'"
  shows "generated p st h t \<le> generated p st h t'"
proof -
  have "token_gen_number p * (num_periods p st t - num_periods p st (last_time st h))
      \<le> token_gen_number p * (num_periods p st t' - num_periods p st (last_time st h))"
    using num_periods_mono [OF assms, of st] assms(1)
    by (intro mult_left_mono) (auto simp: token_params_ok_def)
  then show ?thesis unfolding generated_def accrued_def by (intro cap_mono) linarith
qed

section \<open>When the count changes\<close>

lemma num_periods_next:
  fixes st t t' :: datetime
  assumes "token_params_ok p"
  defines "g \<equiv> st + token_gen_interval p * (num_periods p st t + 1)"
  shows "t < g" "num_periods p st g = num_periods p st t + 1"
    "t \<le> t' \<Longrightarrow> t' < g \<Longrightarrow> num_periods p st t' = num_periods p st t"
proof -
  let ?i = "token_gen_interval p"
  have i: "0 < ?i" using assms(1) by (simp add: token_params_ok_def)
  have e: "?i * ((t - st) div ?i) + (t - st) mod ?i = t - st" by simp
  have m: "0 \<le> (t - st) mod ?i" "(t - st) mod ?i < ?i" using i by auto
  have g: "g = st + (?i * ((t - st) div ?i) + ?i)"
    by (simp add: g_def num_periods_def algebra_simps)
  show "t < g" using e m g by linarith
  show "num_periods p st g = num_periods p st t + 1"
    using i by (simp add: num_periods_def g_def)
  assume t': "t \<le> t'" "t' < g"
  have lo: "(t - st) div ?i \<le> (t' - st) div ?i" using t' i by (intro zdiv_mono1) auto
  have "t' - st < ?i * ((t - st) div ?i + 1)" using t' by (simp add: g algebra_simps)
  moreover have "?i * ((t' - st) div ?i) + (t' - st) mod ?i = t' - st" "0 \<le> (t' - st) mod ?i"
    using i by simp_all
  ultimately have "?i * ((t' - st) div ?i) < ?i * ((t - st) div ?i + 1)" by linarith
  then have "(t' - st) div ?i < (t - st) div ?i + 1" using i by simp
  with lo show "num_periods p st t' = num_periods p st t" by (simp add: num_periods_def)
qed

lemma generated_step:
  assumes ok: "token_params_ok p" and n: "num_periods p st g = num_periods p st t + 1"
    and gn: "0 < token_gen_number p"
    and room: "case token_gen_max p of None \<Rightarrow> True | Some m \<Rightarrow> generated p st h t < m"
  shows "generated p st h t < generated p st h g"
proof -
  have "token_gen_number p * (num_periods p st g - num_periods p st (last_time st h)) =
      token_gen_number p * (num_periods p st t - num_periods p st (last_time st h)) + token_gen_number p"
    by (simp add: n algebra_simps)
  then show ?thesis
    using gn room by (auto simp: generated_def accrued_def cap_def split: option.splits)
qed

lemma next_gen_Some:
  assumes ok: "token_params_ok p" and g: "next_gen p st h t = Some g"
  shows "t < g" "avail_count p st h t < avail_count p st h g"
    "t \<le> t' \<Longrightarrow> t' < g \<Longrightarrow> avail_count p st h t' = avail_count p st h t"
proof -
  have g': "g = st + token_gen_interval p * (num_periods p st t + 1)" and gn: "0 < token_gen_number p"
    and room: "case token_gen_max p of None \<Rightarrow> True | Some m \<Rightarrow> generated p st h t < m"
    and lim: "case token_max_number p of None \<Rightarrow> True | Some m \<Rightarrow> generated p st h t < m - int (length h)"
    using g by (auto simp: next_gen_def split: if_splits)
  show "t < g" using num_periods_next(1) [OF ok] by (simp add: g')
  have "generated p st h t < generated p st h g"
    using num_periods_next(2) [OF ok] gn room by (intro generated_step [OF ok]) (auto simp: g')
  then show "avail_count p st h t < avail_count p st h g"
    using lim by (auto simp: avail_count_def split: option.splits)
  assume "t \<le> t'" "t' < g"
  then have "num_periods p st t' = num_periods p st t"
    using num_periods_next(3) [OF ok] by (simp add: g')
  then have "generated p st h t' = generated p st h t" by (simp add: generated_def accrued_def)
  then show "avail_count p st h t' = avail_count p st h t"
    by (simp add: avail_count_def split: option.split)
qed

lemma next_gen_None:
  assumes ok: "token_params_ok p" and g: "next_gen p st h t = None" and t': "t \<le> t'"
  shows "avail_count p st h t' = avail_count p st h t"
proof -
  note mono = generated_mono [OF ok t', of st h]
  consider "token_gen_number p = 0"
    | m where "token_gen_max p = Some m" "m \<le> generated p st h t"
    | m where "token_max_number p = Some m" "m - int (length h) \<le> generated p st h t"
    using g ok by (auto simp: next_gen_def token_params_ok_def split: option.splits if_splits)
  then show ?thesis
  proof cases
    case 1
    then have "generated p st h t' = generated p st h t" by (simp add: generated_def accrued_def)
    then show ?thesis by (simp add: avail_count_def split: option.split)
  next
    case (2 m)
    then have "generated p st h t' \<le> m" by (simp add: generated_def accrued_def cap_def)
    then have "generated p st h t' = generated p st h t" using 2 mono by linarith
    then show ?thesis by (simp add: avail_count_def split: option.split)
  next
    case (3 m)
    then show ?thesis using mono by (simp add: avail_count_def)
  qed
qed

section \<open>Histories that the program itself produced\<close>

text \<open>
  A history is regular when every token of it was played at a time when the parameters allowed
  one: that is what \<^verbatim>\<open>accept_token\<close> checks before it adds a token.
\<close>

definition playable :: "token_params \<Rightarrow> datetime \<Rightarrow> datetime list \<Rightarrow> datetime \<Rightarrow> bool" where
  "playable p st h t \<longleftrightarrow> token_mode p \<noteq> TOKEN_MODE_DISABLED \<and>
     (token_mode p = TOKEN_MODE_FINITE \<longrightarrow> 0 < avail_count p st h t \<and> ready_at p st h \<le> t)"

inductive regular :: "token_params \<Rightarrow> datetime \<Rightarrow> datetime list \<Rightarrow> bool" for p st where
  none: "regular p st []"
| play: "regular p st h \<Longrightarrow> sorted (st # h @ [t]) \<Longrightarrow> playable p st h t \<Longrightarrow> regular p st (h @ [t])"

lemma regular_sorted: "regular p st h \<Longrightarrow> sorted (st # h)"
  by (induction rule: regular.induct) auto

lemma regular_left:
  "regular p st h \<Longrightarrow> token_params_ok p \<Longrightarrow> token_mode p = TOKEN_MODE_FINITE \<Longrightarrow>
   0 \<le> left_after p st st (token_gen_initial p) h"
proof (induction rule: regular.induct)
  case none
  then show ?case by (simp add: token_params_ok_def)
next
  case (play h t)
  then have "0 < generated p st h t"
    by (auto simp: playable_def avail_count_def split: option.splits)
  then show ?case by (simp add: left_after_initial_snoc)
qed

lemma regular_max:
  "regular p st h \<Longrightarrow> token_mode p = TOKEN_MODE_FINITE \<Longrightarrow> token_max_number p = Some m \<Longrightarrow> 0 < m \<Longrightarrow>
   int (length h) \<le> m"
  by (induction rule: regular.induct) (auto simp: playable_def avail_count_def)

lemma regular_spaced:
  "regular p st h \<Longrightarrow> token_mode p = TOKEN_MODE_FINITE \<Longrightarrow> Suc i < length h \<Longrightarrow>
   h ! i + token_min_interval p \<le> h ! Suc i"
proof (induction rule: regular.induct)
  case (play h t)
  show ?case
  proof (cases "Suc i < length h")
    case True
    then show ?thesis using play by (simp add: nth_append)
  next
    case False
    then have i: "Suc i = length h" using play.prems by simp
    then have "h \<noteq> []" by auto
    moreover have "length h - Suc 0 = i" using i by linarith
    ultimately have "ready_at p st h = h ! i + token_min_interval p"
      by (simp add: ready_at_def last_conv_nth)
    then show ?thesis using play i by (simp add: playable_def nth_append)
  qed
qed simp

lemma accrued_nonneg:
  assumes "token_params_ok p" "prev \<le> t" "0 \<le> a"
  shows "0 \<le> accrued p st prev t a"
proof -
  have "0 \<le> token_gen_number p * (num_periods p st t - num_periods p st prev)"
    using num_periods_mono [OF assms(1,2), of st] assms(1) by (simp add: token_params_ok_def)
  then show ?thesis
    using assms by (auto simp: accrued_def cap_def token_params_ok_def split: option.splits)
qed

lemma regular_avail_nonneg:
  assumes "regular p st h" "token_params_ok p" "token_mode p = TOKEN_MODE_FINITE" "last_time st h \<le> t"
  shows "0 \<le> avail_count p st h t"
proof -
  have "0 \<le> generated p st h t"
    unfolding generated_def using assms by (intro accrued_nonneg regular_left) auto
  moreover have "0 \<le> m - int (length h)" if "token_max_number p = Some m" for m
    using regular_max [OF assms(1,3) that] assms(2) that by (simp add: token_params_ok_def)
  ultimately show ?thesis by (auto simp: avail_count_def split: option.splits)
qed

lemma left_after_bound:
  "token_params_ok p \<Longrightarrow> sorted (prev # h) \<Longrightarrow>
   left_after p st prev a h + int (length h) \<le>
     a + token_gen_number p * (num_periods p st (last_time prev h) - num_periods p st prev)"
proof (induction h arbitrary: prev a)
  case (Cons t h)
  have "left_after p st t (accrued p st prev t a - 1) h + int (length h) \<le>
      accrued p st prev t a - 1 +
      token_gen_number p * (num_periods p st (last_time t h) - num_periods p st t)"
    using Cons by auto
  moreover have "accrued p st prev t a \<le>
      a + token_gen_number p * (num_periods p st t - num_periods p st prev)"
    by (simp add: accrued_def cap_le)
  ultimately show ?case by (simp add: algebra_simps)
qed simp

lemma regular_rate:
  assumes "regular p st h" "token_params_ok p" "token_mode p = TOKEN_MODE_FINITE"
  shows "int (length h) \<le>
    token_gen_initial p + token_gen_number p * num_periods p st (last_time st h)"
  using left_after_bound [OF assms(2) regular_sorted [OF assms(1)], of st "token_gen_initial p"]
    regular_left [OF assms] by (simp add: num_periods_def)

section \<open>The merged status\<close>

lemma later_None: "later a b = None \<longleftrightarrow> a = None \<and> b = None"
  by (auto simp: later_def split: option.splits)

definition status_ok :: "token_params \<Rightarrow> token_status \<Rightarrow> bool" where
  "status_ok p r \<longleftrightarrow> (case token_mode p of
     TOKEN_MODE_DISABLED \<Rightarrow> r = (0, None, None)
   | TOKEN_MODE_INFINITE \<Rightarrow> r = (-1, None, None)
   | TOKEN_MODE_FINITE \<Rightarrow> 0 \<le> fst r)"

lemma merge_playable:
  assumes "status_ok p (c, cn, ce)" "status_ok p' (k, kn, ke)"
    and "merge_tokens (c, cn, ce) (k, kn, ke) = (av, nx, ex)" "av \<noteq> 0" "ex = None"
  shows "c \<noteq> 0" "k \<noteq> 0" "ce = None" "ke = None"
proof -
  have ex: "ex = later ce ke"
    using assms(3) by (auto simp: merge_tokens_def Let_def split: if_splits option.splits)
  then show "ce = None" "ke = None" using assms(5) later_None [of ce ke] by auto
  have "0 \<le> c \<or> c = -1" "0 \<le> k \<or> k = -1"
    using assms(1,2) by (auto simp: status_ok_def split: token_mode.splits)
  then show "c \<noteq> 0" "k \<noteq> 0"
    using assms(3,4) by (auto simp: merge_tokens_def Let_def split: if_splits option.splits)
qed

lemma one_status:
  assumes "regular p st h" "token_params_ok p" "last_time st h \<le> t"
  obtains r where "tokens_available_one p (Some st) h t = Inr r" "status_ok p r"
    "fst r \<noteq> 0 \<Longrightarrow> snd (snd r) = None \<Longrightarrow> playable p st h t"
proof (cases "token_mode p")
  case TOKEN_MODE_FINITE
  have "sorted (st # h @ [t])"
    using regular_sorted [OF assms(1)] assms(3)
    by (cases h rule: rev_cases) (auto simp: sorted_append)
  then have eq: "tokens_available_one p (Some st) h t =
    Inr (avail_count p st h t, next_gen p st h t,
      if ready_at p st h \<le> t \<or> (avail_count p st h t = 0 \<and> next_gen p st h t = None) then None
      else Some (ready_at p st h))"
    using assms(2) TOKEN_MODE_FINITE by (intro tokens_available_finite)
  have "0 \<le> avail_count p st h t"
    using regular_avail_nonneg [OF assms(1,2) TOKEN_MODE_FINITE assms(3)] .
  show ?thesis
  proof (rule that [OF eq])
    show "status_ok p (avail_count p st h t, next_gen p st h t,
        if ready_at p st h \<le> t \<or> (avail_count p st h t = 0 \<and> next_gen p st h t = None) then None
        else Some (ready_at p st h))"
      using \<open>0 \<le> avail_count p st h t\<close> TOKEN_MODE_FINITE by (simp add: status_ok_def)
  qed (use \<open>0 \<le> avail_count p st h t\<close> TOKEN_MODE_FINITE in
      \<open>auto simp: playable_def split: if_splits\<close>)
qed (use that in \<open>auto simp: tokens_available_one_def status_ok_def playable_def\<close>)

section \<open>Runs of token requests\<close>

lemma sort_key_sorted: "sorted (map f xs) \<Longrightarrow> sort_key f xs = xs"
proof (induction xs)
  case (Cons x xs)
  then have "\<forall>y \<in> set xs. f x \<le> f y" by simp
  then have "insort_key f x xs = x # xs" by (cases xs) auto
  then show ?case using Cons by simp
qed simp

definition token_pairs :: "token_db \<Rightarrow> nat \<Rightarrow> (datetime \<times> nat) list" where
  "token_pairs db part = concat (map (\<lambda>tk.
     case submission_of db (tok_submission tk) of
       None \<Rightarrow> []
     | Some s \<Rightarrow> if sub_participation s = part then [(tok_timestamp tk, sub_task s)] else [])
     (db_tokens db))"

definition tokens_until :: "token_db \<Rightarrow> datetime \<Rightarrow> bool" where
  "tokens_until db now \<longleftrightarrow>
     sorted (map tok_timestamp (db_tokens db)) \<and> (\<forall>tk \<in> set (db_tokens db). tok_timestamp tk \<le> now)"

lemma token_pairs_from: "(t, k) \<in> set (token_pairs db part) \<Longrightarrow> \<exists>tk \<in> set (db_tokens db). tok_timestamp tk = t"
  by (auto simp: token_pairs_def split: option.splits if_splits)

lemma sorted_token_pairs:
  assumes "sorted (map tok_timestamp tks)"
  shows "sorted (map fst (concat (map (\<lambda>tk.
     case f tk of None \<Rightarrow> [] | Some s \<Rightarrow> if P s then [(tok_timestamp tk, g s)] else []) tks)))"
  using assms
  by (induction tks) (auto simp: sorted_append split: option.splits if_splits)

lemma token_timestamps_eq:
  assumes "tokens_until db now" "now \<le> t"
  shows "token_timestamps db part t = token_pairs db part"
proof -
  have "map (\<lambda>tk. if tok_timestamp tk \<le> t then
        (case submission_of db (tok_submission tk) of
            None \<Rightarrow> []
          | Some s \<Rightarrow> if sub_participation s = part then [(tok_timestamp tk, sub_task s)] else [])
       else []) (db_tokens db) =
     map (\<lambda>tk. case submission_of db (tok_submission tk) of
            None \<Rightarrow> []
          | Some s \<Rightarrow> if sub_participation s = part then [(tok_timestamp tk, sub_task s)] else [])
       (db_tokens db)"
    using assms by (intro map_cong) (auto simp: tokens_until_def)
  moreover have "sorted (map fst (token_pairs db part))"
    unfolding token_pairs_def using assms(1) by (intro sorted_token_pairs) (simp add: tokens_until_def)
  ultimately show ?thesis
    unfolding token_timestamps_def token_pairs_def by (simp only: sort_key_sorted)
qed

definition contest_history :: "token_db \<Rightarrow> nat \<Rightarrow> datetime list" where
  "contest_history db part = map fst (token_pairs db part)"

definition task_history :: "token_db \<Rightarrow> nat \<Rightarrow> nat \<Rightarrow> datetime list" where
  "task_history db part task = map fst (filter (\<lambda>x. snd x = task) (token_pairs db part))"

text \<open>
  The database as the program changes it: requests of the contestant \<open>part\<close> whose settings are
  \<open>cf\<close>, at non-decreasing times, and tokens of other contestants.
\<close>

inductive token_reach ::
  "token_setting \<Rightarrow> nat \<Rightarrow> submission_row list \<Rightarrow> datetime \<Rightarrow> token_db \<Rightarrow> datetime \<Rightarrow> bool"
  for cf part subs st where
  start: "st \<le> now \<Longrightarrow> token_reach cf part subs st \<lparr>db_submissions = subs, db_tokens = []\<rparr> now"
| wait: "token_reach cf part subs st db now \<Longrightarrow> now \<le> t \<Longrightarrow> token_reach cf part subs st db t"
| play: "token_reach cf part subs st db now \<Longrightarrow> now \<le> t \<Longrightarrow>
    submission_of db (sub_id s) = Some s \<Longrightarrow> sub_participation s = part \<Longrightarrow>
    accept_token cf locked db s t = Inr db' \<Longrightarrow> token_reach cf part subs st db' t"
| other: "token_reach cf part subs st db now \<Longrightarrow> now \<le> t \<Longrightarrow>
    submission_of db i = Some s \<Longrightarrow> sub_participation s \<noteq> part \<Longrightarrow>
    token_reach cf part subs st
      (db\<lparr>db_tokens := db_tokens db @ [\<lparr>tok_timestamp = t, tok_submission = i\<rparr>]\<rparr>) t"

definition setting_ok :: "token_setting \<Rightarrow> bool" where
  "setting_ok cf \<longleftrightarrow> token_params_ok (ts_contest cf) \<and> (\<forall>k. token_params_ok (ts_task cf k))"

definition token_inv :: "token_setting \<Rightarrow> nat \<Rightarrow> datetime \<Rightarrow> token_db \<Rightarrow> datetime \<Rightarrow> bool" where
  "token_inv cf part st db now \<longleftrightarrow> st \<le> now \<and> tokens_until db now \<and>
     regular (ts_contest cf) st (contest_history db part) \<and>
     (\<forall>k. regular (ts_task cf k) st (task_history db part k))"

lemma tokens_until_snoc:
  "tokens_until db now \<Longrightarrow> now \<le> t \<Longrightarrow>
   tokens_until (db\<lparr>db_tokens := db_tokens db @ [\<lparr>tok_timestamp = t, tok_submission = i\<rparr>]\<rparr>) t"
  by (fastforce simp: tokens_until_def sorted_append)

lemma token_pairs_snoc:
  "token_pairs (db\<lparr>db_tokens := db_tokens db @ [tk]\<rparr>) part = token_pairs db part @
     (case submission_of db (tok_submission tk) of None \<Rightarrow> []
      | Some s \<Rightarrow> if sub_participation s = part then [(tok_timestamp tk, sub_task s)] else [])"
  by (simp add: token_pairs_def submission_of_def)

lemma history_until:
  assumes "tokens_until db now" "st \<le> now"
  shows "last_time st (contest_history db part) \<le> now" "last_time st (task_history db part k) \<le> now"
proof -
  have "t \<le> now" if "t \<in> set (contest_history db part)" for t
    using that assms(1) token_pairs_from by (fastforce simp: contest_history_def tokens_until_def)
  moreover have "set (task_history db part k) \<subseteq> set (contest_history db part)"
    by (auto simp: task_history_def contest_history_def)
  ultimately have "\<forall>t \<in> set (contest_history db part). t \<le> now"
    "\<forall>t \<in> set (task_history db part k). t \<le> now" by blast+
  then show "last_time st (contest_history db part) \<le> now"
    "last_time st (task_history db part k) \<le> now"
    using assms(2) by simp_all
qed

lemma regular_play:
  assumes "regular p st h" "playable p st h t" "last_time st h \<le> t"
  shows "regular p st (h @ [t])"
proof -
  have "sorted (st # h @ [t])"
    using regular_sorted [OF assms(1)] assms(3)
    by (cases h rule: rev_cases) (auto simp: sorted_append)
  then show ?thesis using assms by (intro regular.play)
qed

lemma accept_token_playable:
  assumes inv: "token_inv cf part st db now" and ok: "setting_ok cf" and st: "token_start cf = Some st"
    and t: "now \<le> t" and s: "sub_participation s = part"
    and acc: "accept_token cf locked db s t = Inr db'"
  shows "playable (ts_contest cf) st (contest_history db part) t"
    "playable (ts_task cf (sub_task s)) st (task_history db part (sub_task s)) t"
    "db' = db\<lparr>db_tokens := db_tokens db @ [\<lparr>tok_timestamp = t, tok_submission = sub_id s\<rparr>]\<rparr>"
    "\<forall>tk \<in> set (db_tokens db). tok_submission tk \<noteq> sub_id s"
proof -
  let ?k = "sub_task s"
  have u: "tokens_until db now" and st_now: "st \<le> now" using inv by (auto simp: token_inv_def)
  have lt: "last_time st (contest_history db part) \<le> t" "last_time st (task_history db part ?k) \<le> t"
    using history_until [OF u st_now] t by (meson order_trans)+
  have reg: "regular (ts_contest cf) st (contest_history db part)"
    "regular (ts_task cf ?k) st (task_history db part ?k)"
    and pok: "token_params_ok (ts_contest cf)" "token_params_ok (ts_task cf ?k)"
    using inv ok by (simp_all add: token_inv_def setting_ok_def)
  obtain c where c: "tokens_available_one (ts_contest cf) (Some st) (contest_history db part) t = Inr c"
    "status_ok (ts_contest cf) c"
    "fst c \<noteq> 0 \<Longrightarrow> snd (snd c) = None \<Longrightarrow> playable (ts_contest cf) st (contest_history db part) t"
    using one_status [OF reg(1) pok(1) lt(1)] by blast
  obtain k where k: "tokens_available_one (ts_task cf ?k) (Some st) (task_history db part ?k) t = Inr k"
    "status_ok (ts_task cf ?k) k"
    "fst k \<noteq> 0 \<Longrightarrow> snd (snd k) = None \<Longrightarrow> playable (ts_task cf ?k) st (task_history db part ?k) t"
    using one_status [OF reg(2) pok(2) lt(2)] by blast
  have "tokens_available cf db part ?k t = Inr (merge_tokens c k)"
    using c(1) k(1)
    by (simp add: tokens_available_def Let_def token_timestamps_eq [OF u t] st
        contest_history_def task_history_def)
  then obtain av nx ex where m: "merge_tokens c k = (av, nx, ex)" "av \<noteq> 0" "ex = None"
    and db': "db' = db\<lparr>db_tokens := db_tokens db @ [\<lparr>tok_timestamp = t, tok_submission = sub_id s\<rparr>]\<rparr>"
    and new: "\<forall>tk \<in> set (db_tokens db). tok_submission tk \<noteq> sub_id s"
    using acc s by (auto simp: accept_token_def split: if_splits prod.splits)
  obtain c1 c2 c3 k1 k2 k3 where ck: "c = (c1, c2, c3)" "k = (k1, k2, k3)"
    by (cases c, cases k) auto
  note mp = merge_playable [OF c(2) [unfolded ck] k(2) [unfolded ck] m(1) [unfolded ck] m(2,3)]
  show "playable (ts_contest cf) st (contest_history db part) t" using c(3) mp ck by simp
  show "playable (ts_task cf ?k) st (task_history db part ?k) t" using k(3) mp ck by simp
  show "db' = db\<lparr>db_tokens := db_tokens db @ [\<lparr>tok_timestamp = t, tok_submission = sub_id s\<rparr>]\<rparr>"
    using db' .
  show "\<forall>tk \<in> set (db_tokens db). tok_submission tk \<noteq> sub_id s" using new .
qed

lemma token_reach_inv:
  assumes "token_reach cf part subs st db now" "setting_ok cf" "token_start cf = Some st"
  shows "token_inv cf part st db now"
  using assms
proof (induction rule: token_reach.induct)
  case (start now)
  then show ?case
    by (auto simp: token_inv_def tokens_until_def contest_history_def task_history_def token_pairs_def
        intro: regular.none)
next
  case (wait db now t)
  then show ?case by (auto simp: token_inv_def tokens_until_def)
next
  case (play db now t s locked db')
  then have inv: "token_inv cf part st db now" by simp
  note acc = accept_token_playable [OF inv play.prems play.hyps(2,4,5)]
  have u: "tokens_until db now" "st \<le> now" using inv by (auto simp: token_inv_def)
  have lt: "last_time st (contest_history db part) \<le> t" "last_time st (task_history db part k) \<le> t" for k
    using history_until [OF u] play.hyps(2) by (meson order_trans)+
  have ch: "contest_history db' part = contest_history db part @ [t]"
    and th: "task_history db' part k =
      task_history db part k @ (if k = sub_task s then [t] else [])" for k
    using play.hyps(3,4) by (simp_all add: acc(3) contest_history_def task_history_def token_pairs_snoc)
  have "tokens_until db' t" unfolding acc(3) by (rule tokens_until_snoc [OF u(1) play.hyps(2)])
  moreover have "regular (ts_contest cf) st (contest_history db part @ [t])"
    using inv acc(1) lt(1) by (intro regular_play) (simp_all add: token_inv_def)
  moreover have "regular (ts_task cf k) st
      (task_history db part k @ (if k = sub_task s then [t] else []))" for k
    using inv acc(2) lt(2) [of k] by (auto simp: token_inv_def intro: regular_play)
  ultimately show ?case using u(2) play.hyps(2) unfolding token_inv_def ch th by simp
next
  case (other db now t i s)
  then show ?case
    using tokens_until_snoc
    by (auto simp: token_inv_def contest_history_def task_history_def token_pairs_snoc)
qed

section \<open>What the announced generation time means\<close>

text \<open>
  A status that evolves with time announces its changes: the count does not decrease; it stays
  until the announced time, where it is larger; without an announced time it stays forever.
\<close>

definition announces_at :: "(datetime \<Rightarrow> int) \<Rightarrow> datetime option \<Rightarrow> datetime \<Rightarrow> bool" where
  "announces_at C n t \<longleftrightarrow>
     (\<forall>t1 t2. t \<le> t1 \<longrightarrow> t1 \<le> t2 \<longrightarrow> C t1 \<le> C t2) \<and>
     (n = None \<longrightarrow> (\<forall>t' \<ge> t. C t = C t')) \<and>
     (\<forall>g. n = Some g \<longrightarrow> t < g \<and> (\<forall>t' \<ge> t. t' < g \<longrightarrow> C t = C t') \<and> C t < C g)"

definition announces :: "(datetime \<Rightarrow> token_status) \<Rightarrow> datetime \<Rightarrow> bool" where
  "announces f t \<longleftrightarrow> announces_at (\<lambda>t'. fst (f t')) (fst (snd (f t))) t"

definition unlimited :: "(datetime \<Rightarrow> token_status) \<Rightarrow> bool" where
  "unlimited f \<longleftrightarrow> (\<forall>t. f t = (-1, None, None))"

definition counted :: "(datetime \<Rightarrow> token_status) \<Rightarrow> datetime \<Rightarrow> bool" where
  "counted f t \<longleftrightarrow> announces f t \<and> (\<forall>t' \<ge> t. 0 \<le> fst (f t'))"

lemma announces_at_cong:
  assumes "announces_at C n t" "\<And>t'. t \<le> t' \<Longrightarrow> D t' = C t'" "m = n"
  shows "announces_at D m t"
  using assms by (auto simp: announces_at_def)

lemma announces_at_min_left:
  assumes "announces_at C n t" "announces_at D m t" "C t < D t"
  shows "announces_at (\<lambda>t'. min (C t') (D t')) n t"
proof -
  have "C t < D t'" if "t \<le> t'" for t'
    using assms(2,3) that by (auto simp: announces_at_def intro: less_le_trans)
  moreover have "min (C t) (D t) = C t" using assms(3) by simp
  moreover have "min (C t1) (D t1) \<le> min (C t2) (D t2)" if "t \<le> t1" "t1 \<le> t2" for t1 t2
    using assms(1,2) that unfolding announces_at_def by (meson min.mono)
  ultimately show ?thesis
    using assms(1) unfolding announces_at_def
    by (auto simp: less_imp_le)
qed

lemma announces_at_min_right:
  assumes "announces_at C n t" "announces_at D m t" "D t < C t"
  shows "announces_at (\<lambda>t'. min (C t') (D t')) m t"
  using announces_at_min_left [OF assms(2,1,3)] by (simp add: min.commute)

lemma announces_at_min_eq:
  assumes C: "announces_at C n t" and D: "announces_at D m t" and eq: "C t = D t"
  shows "announces_at (\<lambda>t'. min (C t') (D t'))
    (case (n, m) of (Some x, Some y) \<Rightarrow> Some (max x y) | _ \<Rightarrow> None) t"
proof -
  have "C t \<le> C t'" "D t \<le> D t'" if "t \<le> t'" for t'
    using C D that unfolding announces_at_def by blast+
  then have mono: "C t \<le> C t'" "C t \<le> D t'" if "t \<le> t'" for t'
    using that by (simp_all add: eq)
  have up: "min (C t1) (D t1) \<le> min (C t2) (D t2)" if "t \<le> t1" "t1 \<le> t2" for t1 t2
    using C D that unfolding announces_at_def by (meson min.mono)
  show ?thesis
  proof (cases "n = None \<or> m = None")
    case True
    then have stay: "C t = C t' \<or> C t = D t'" if "t \<le> t'" for t'
      using C D that unfolding announces_at_def eq by metis
    then have "min (C t') (D t') = C t" if "t \<le> t'" for t'
      using mono [OF that] stay [OF that] by linarith
    then have "announces_at (\<lambda>t'. min (C t') (D t')) None t"
      using up unfolding announces_at_def by (metis order_refl option.distinct(1))
    moreover have "(case (n, m) of (Some x, Some y) \<Rightarrow> Some (max x y) | _ \<Rightarrow> None) = None"
      using True by (auto split: option.split)
    ultimately show ?thesis by simp
  next
    case False
    then obtain x y where xy: "n = Some x" "m = Some y" by auto
    have x: "t < x" "C t < C x" "\<And>t'. t \<le> t' \<Longrightarrow> t' < x \<Longrightarrow> C t = C t'"
      and y: "t < y" "C t < D y" "\<And>t'. t \<le> t' \<Longrightarrow> t' < y \<Longrightarrow> C t = D t'"
      using C D eq by (simp_all add: announces_at_def xy)
    have "min (C t') (D t') = C t" if "t \<le> t'" "t' < max x y" for t'
      using mono [OF that(1)] x(3) [OF that(1)] y(3) [OF that(1)] that(2) by linarith
    moreover have "C t < min (C (max x y)) (D (max x y))"
    proof -
      have "C x \<le> C (max x y)" "D y \<le> D (max x y)"
        using C D x(1) y(1) by (simp_all add: announces_at_def)
      then show ?thesis using x(2) y(2) by simp
    qed
    ultimately show ?thesis using x(1) y(1) up eq by (auto simp: announces_at_def xy)
  qed
qed

lemma merge_count:
  "0 \<le> c \<Longrightarrow> 0 \<le> k \<Longrightarrow> fst (merge_tokens (c, cn, ce) (k, kn, ke)) = min c k"
  by (auto simp: merge_tokens_def Let_def split: option.split)

lemma merge_next:
  "0 \<le> c \<Longrightarrow> 0 \<le> k \<Longrightarrow> fst (snd (merge_tokens (c, cn, ce) (k, kn, ke))) =
     (if c < k then cn else if k < c then kn
      else case (cn, kn) of (Some x, Some y) \<Rightarrow> Some (max x y) | _ \<Rightarrow> None)"
  by (auto simp: merge_tokens_def Let_def split: option.split)

lemma merge_unlimited:
  "fst (merge_tokens (-1, None, None) (k, kn, ke)) = k"
  "fst (merge_tokens (c, cn, ce) (-1, None, None)) = c"
  "0 \<le> k \<Longrightarrow> fst (snd (merge_tokens (-1, None, None) (k, kn, ke))) = kn"
  "0 \<le> c \<Longrightarrow> fst (snd (merge_tokens (c, cn, ce) (-1, None, None))) = cn"
  by (auto simp: merge_tokens_def Let_def)

lemma merge_counted:
  assumes f: "counted f t" and g: "counted g t"
  shows "announces (\<lambda>t. merge_tokens (f t) (g t)) t"
proof -
  have c: "fst (merge_tokens (f t') (g t')) = min (fst (f t')) (fst (g t'))" if "t \<le> t'" for t'
    using assms that
    by (cases "f t'"; cases "g t'") (metis counted_def fst_conv merge_count)
  have n: "fst (snd (merge_tokens (f t) (g t))) =
     (if fst (f t) < fst (g t) then fst (snd (f t)) else if fst (g t) < fst (f t) then fst (snd (g t))
      else case (fst (snd (f t)), fst (snd (g t))) of (Some x, Some y) \<Rightarrow> Some (max x y) | _ \<Rightarrow> None)"
  proof -
    have "0 \<le> fst (f t)" "0 \<le> fst (g t)" using assms by (simp_all add: counted_def)
    then show ?thesis by (cases "f t"; cases "g t") (simp add: merge_next)
  qed
  have F: "announces_at (\<lambda>t'. fst (f t')) (fst (snd (f t))) t"
    "announces_at (\<lambda>t'. fst (g t')) (fst (snd (g t))) t"
    using assms by (auto simp: counted_def announces_def)
  consider (lt) "fst (f t) < fst (g t)" | (gt) "fst (g t) < fst (f t)" | (eq) "fst (f t) = fst (g t)"
    by linarith
  then show ?thesis
    unfolding announces_def
  proof cases
    case lt
    then show "announces_at (\<lambda>t'. fst (merge_tokens (f t') (g t'))) (fst (snd (merge_tokens (f t) (g t)))) t"
      by (intro announces_at_cong [OF announces_at_min_left [OF F]]) (simp_all add: c n)
  next
    case gt
    then show "announces_at (\<lambda>t'. fst (merge_tokens (f t') (g t'))) (fst (snd (merge_tokens (f t) (g t)))) t"
      by (intro announces_at_cong [OF announces_at_min_right [OF F]]) (simp_all add: c n)
  next
    case eq
    then show "announces_at (\<lambda>t'. fst (merge_tokens (f t') (g t'))) (fst (snd (merge_tokens (f t) (g t)))) t"
      by (intro announces_at_cong [OF announces_at_min_eq [OF F]]) (simp_all add: c n)
  qed
qed

lemma merge_announces:
  assumes f: "unlimited f \<or> counted f t" and g: "unlimited g \<or> counted g t"
  shows "announces (\<lambda>t. merge_tokens (f t) (g t)) t"
proof -
  consider "unlimited f" "unlimited g" | "unlimited f" "counted g t"
    | "counted f t" "unlimited g" | "counted f t" "counted g t"
    using assms by blast
  then show ?thesis
  proof cases
    case 1
    then show ?thesis
      by (simp add: announces_def announces_at_def unlimited_def merge_tokens_def later_def)
  next
    case 2
    have c: "fst (merge_tokens (f t') (g t')) = fst (g t')" for t'
      using 2(1) by (cases "g t'") (simp add: unlimited_def merge_unlimited)
    have "0 \<le> fst (g t)" using 2(2) by (simp add: counted_def)
    then have "fst (snd (merge_tokens (f t) (g t))) = fst (snd (g t))"
      using 2(1) by (cases "g t") (simp add: unlimited_def merge_unlimited)
    then show ?thesis using 2(2) by (simp add: announces_def counted_def c)
  next
    case 3
    have c: "fst (merge_tokens (f t') (g t')) = fst (f t')" for t'
      using 3(2) by (cases "f t'") (simp add: unlimited_def merge_unlimited)
    have "0 \<le> fst (f t)" using 3(1) by (simp add: counted_def)
    then have "fst (snd (merge_tokens (f t) (g t))) = fst (snd (f t))"
      using 3(2) by (cases "f t") (simp add: unlimited_def merge_unlimited)
    then show ?thesis using 3(1) by (simp add: announces_def counted_def c)
  next
    case 4
    then show ?thesis by (rule merge_counted)
  qed
qed

lemma one_announcing:
  assumes reg: "regular p st h" and ok: "token_params_ok p" and lt: "last_time st h \<le> t"
  obtains f where "\<And>t'. t \<le> t' \<Longrightarrow> tokens_available_one p (Some st) h t' = Inr (f t')"
    "unlimited f \<or> counted f t"
proof (cases "token_mode p")
  case TOKEN_MODE_FINITE
  define f where "f = (\<lambda>t'. (avail_count p st h t', next_gen p st h t',
      if ready_at p st h \<le> t' \<or> (avail_count p st h t' = 0 \<and> next_gen p st h t' = None) then None
      else Some (ready_at p st h)))"
  have s: "sorted (st # h @ [t'])" if "t \<le> t'" for t'
    using regular_sorted [OF reg] lt that
    by (cases h rule: rev_cases) (auto simp: sorted_append)
  have eq: "tokens_available_one p (Some st) h t' = Inr (f t')" if "t \<le> t'" for t'
    unfolding f_def using ok TOKEN_MODE_FINITE s [OF that] by (intro tokens_available_finite)
  have up: "avail_count p st h t1 \<le> avail_count p st h t2" if "t1 \<le> t2" for t1 t2
    using generated_mono [OF ok that, of st h] by (auto simp: avail_count_def split: option.split)
  have "0 \<le> avail_count p st h t'" if "t \<le> t'" for t'
    using regular_avail_nonneg [OF reg ok TOKEN_MODE_FINITE] lt that by (meson order_trans)
  moreover have "announces_at (\<lambda>t'. avail_count p st h t') (next_gen p st h t) t"
    unfolding announces_at_def
    using up next_gen_Some [OF ok, of st h t] next_gen_None [OF ok, of st h t] by metis
  ultimately have "counted f t"
    by (simp add: counted_def announces_def f_def)
  then show ?thesis using that eq by blast
next
  case TOKEN_MODE_DISABLED
  then show ?thesis
    by (intro that [of "\<lambda>_. (0, None, None)"])
      (auto simp: tokens_available_one_def counted_def announces_def announces_at_def)
next
  case TOKEN_MODE_INFINITE
  then show ?thesis
    by (intro that [of "\<lambda>_. (-1, None, None)"]) (auto simp: tokens_available_one_def unlimited_def)
qed

lemma tokens_available_announcing:
  assumes inv: "token_inv cf part st db now" and ok: "setting_ok cf" and st: "token_start cf = Some st"
    and t: "now \<le> t"
  shows "\<exists>F. announces F t \<and> (\<forall>t' \<ge> t. tokens_available cf db part task t' = Inr (F t'))"
proof -
  have u: "tokens_until db now" and st_now: "st \<le> now" using inv by (auto simp: token_inv_def)
  have lt: "last_time st (contest_history db part) \<le> t" "last_time st (task_history db part task) \<le> t"
    using history_until [OF u st_now] t by (meson order_trans)+
  have reg: "regular (ts_contest cf) st (contest_history db part)"
    "regular (ts_task cf task) st (task_history db part task)"
    and pok: "token_params_ok (ts_contest cf)" "token_params_ok (ts_task cf task)"
    using inv ok by (simp_all add: token_inv_def setting_ok_def)
  obtain f where f: "\<And>t'. t \<le> t' \<Longrightarrow>
      tokens_available_one (ts_contest cf) (Some st) (contest_history db part) t' = Inr (f t')"
    "unlimited f \<or> counted f t"
    using one_announcing [OF reg(1) pok(1) lt(1)] by blast
  obtain g where g: "\<And>t'. t \<le> t' \<Longrightarrow>
      tokens_available_one (ts_task cf task) (Some st) (task_history db part task) t' = Inr (g t')"
    "unlimited g \<or> counted g t"
    using one_announcing [OF reg(2) pok(2) lt(2)] by blast
  have "tokens_available cf db part task t' = Inr (merge_tokens (f t') (g t'))" if "t \<le> t'" for t'
    using f(1) [OF that] g(1) [OF that] token_timestamps_eq [OF u, of t' part] t that
    by (simp add: tokens_available_def Let_def st contest_history_def task_history_def)
  then show ?thesis using merge_announces [OF f(2) g(2)] by blast
qed

section \<open>Properties\<close>

definition token_params_sample :: token_params where
  "token_params_sample = \<lparr>token_mode = TOKEN_MODE_FINITE, token_gen_initial = 1, token_gen_number = 1,
     token_gen_interval = 100, token_gen_max = Some 2, token_max_number = Some 3,
     token_min_interval = 10\<rparr>"

definition token_setting_sample :: token_setting where
  "token_setting_sample = \<lparr>ts_contest = token_params_sample,
     ts_task = (\<lambda>_. token_params_sample\<lparr>token_mode := TOKEN_MODE_INFINITE\<rparr>),
     ts_per_user_time = None, ts_starting_time = None, ts_group_start = 0\<rparr>"

definition token_db_sample :: token_db where
  "token_db_sample = \<lparr>db_submissions = [\<lparr>sub_id = 7, sub_participation = 1, sub_task = 4\<rparr>],
     db_tokens = [\<lparr>tok_timestamp = 50, tok_submission = 7\<rparr>]\<rparr>"

lemma token_sample_ok: "setting_ok token_setting_sample" "token_start token_setting_sample = Some 0"
  by (simp_all add: setting_ok_def token_params_ok_def token_setting_sample_def
      token_params_sample_def token_start_def)

lemma token_sample_accepts:
  "accept_token token_setting_sample True (token_db_sample\<lparr>db_tokens := []\<rparr>)
     \<lparr>sub_id = 7, sub_participation = 1, sub_task = 4\<rparr> 50 = Inr token_db_sample"
  by code_simp

lemma token_sample_reach:
  "token_reach token_setting_sample 1 (db_submissions token_db_sample) 0 token_db_sample 50"
proof (rule token_reach.play [OF token_reach.start [of 0 0]])
  show "accept_token token_setting_sample True
     \<lparr>db_submissions = db_submissions token_db_sample, db_tokens = []\<rparr>
     \<lparr>sub_id = 7, sub_participation = 1, sub_task = 4\<rparr> 50 = Inr token_db_sample"
    using token_sample_accepts by (simp add: token_db_sample_def)
qed (simp_all add: submission_of_def token_db_sample_def)



text \<open>
  The next generation time. For finite tokens, on a history of plays in chronological order
  up to the given time: if a time is reported, the number of available tokens stays the same
  until then and is larger at that time; if none is reported, it never changes again (as long as
  no token is played).
\<close>

theorem tokens_available_next_gen:
  assumes "token_params_ok p" "token_mode p = TOKEN_MODE_FINITE" "sorted (st # h @ [t])"
    and "tokens_available_one p (Some st) h t = Inr (av, nx, ex)"
  shows "(\<forall>g. nx = Some g \<longrightarrow> t < g \<and>
      (\<forall>t'. t \<le> t' \<longrightarrow> t' < g \<longrightarrow> (\<exists>nx' ex'. tokens_available_one p (Some st) h t' = Inr (av, nx', ex'))) \<and>
      (\<exists>av' nx' ex'. tokens_available_one p (Some st) h g = Inr (av', nx', ex') \<and> av < av')) \<and>
    (nx = None \<longrightarrow> (\<forall>t'. t \<le> t' \<longrightarrow>
      (\<exists>nx' ex'. tokens_available_one p (Some st) h t' = Inr (av, nx', ex'))))"
proof -
  have later: "tokens_available_one p (Some st) h t' =
    Inr (avail_count p st h t', next_gen p st h t',
      if ready_at p st h \<le> t' \<or> (avail_count p st h t' = 0 \<and> next_gen p st h t' = None) then None
      else Some (ready_at p st h))" if "t \<le> t'" for t'
    using assms(1-3) that by (intro tokens_available_finite) (auto simp: sorted_append)
  have eq: "av = avail_count p st h t" "nx = next_gen p st h t"
    using assms(4) later [of t] by auto
  show ?thesis
    using next_gen_Some [OF assms(1), of st h t] next_gen_None [OF assms(1), of st h t] later
    unfolding eq by (metis order_less_imp_le)
qed

theorem tokens_available_next_gen_witness:
  "\<exists>ex. tokens_available_one token_params_sample (Some 0) [50] 60 = Inr (0, Some 100, ex) \<and>
     (\<exists>av' nx' ex'. tokens_available_one token_params_sample (Some 0) [50] 100 = Inr (av', nx', ex') \<and> 0 < av')"
proof -
  have p: "token_params_ok token_params_sample" "token_mode token_params_sample = TOKEN_MODE_FINITE"
    by (simp_all add: token_params_ok_def token_params_sample_def)
  have "tokens_available_one token_params_sample (Some 0) [50] 60 = Inr (0, Some 100, None)"
    by code_simp
  then show ?thesis using tokens_available_next_gen [OF p, of 0 "[50]" 60 0 "Some 100" None] by simp
qed

text \<open>
  C7. The merged answer is exact too. With the tokens already played held fixed, the combined
  number of tokens of contest and task that \<^verbatim>\<open>tokens_available\<close> reports stays the same until the
  generation time it announces and is larger at that time; when it announces none, the number
  never grows again. This covers all nine combinations of modes, the case that both counts are
  equal (where the later of the two times is announced) included.
\<close>

theorem tokens_available_announces:
  assumes "token_reach cf part subs st db now" "setting_ok cf" "token_start cf = Some st" "now \<le> t"
    and "tokens_available cf db part task t = Inr (av, nx, ex)"
  shows "(\<forall>g. nx = Some g \<longrightarrow> t < g \<and>
      (\<forall>t'. t \<le> t' \<longrightarrow> t' < g \<longrightarrow> (\<exists>r. tokens_available cf db part task t' = Inr (av, r))) \<and>
      (\<exists>av' r. tokens_available cf db part task g = Inr (av', r) \<and> av < av')) \<and>
    (nx = None \<longrightarrow> (\<forall>t'. t \<le> t' \<longrightarrow> (\<exists>r. tokens_available cf db part task t' = Inr (av, r))))"
proof -
  obtain F where "announces F t"
    and F: "\<And>t'. t \<le> t' \<Longrightarrow> tokens_available cf db part task t' = Inr (F t')"
    using tokens_available_announcing [OF token_reach_inv [OF assms(1-3)] assms(2-4)] by metis
  then have "F t = (av, nx, ex)" using assms(5) by simp
  then have a: "announces_at (\<lambda>t'. fst (F t')) nx t" "av = fst (F t)"
    using \<open>announces F t\<close> by (simp_all add: announces_def)
  have "\<exists>r. tokens_available cf db part task t' = Inr (av, r)" if "t \<le> t'" "fst (F t') = av" for t'
    using F [OF that(1)] that(2) by (metis prod.collapse)
  moreover have "\<exists>r. tokens_available cf db part task g = Inr (fst (F g), r)" if "t \<le> g" for g
    using F [OF that] by (metis prod.collapse)
  ultimately show ?thesis using a unfolding announces_at_def by (metis order_less_imp_le)
qed

theorem tokens_available_announces_witness:
  "\<exists>r. tokens_available token_setting_sample token_db_sample 1 4 60 = Inr (0, Some 100, r) \<and>
     (\<exists>av' r'. tokens_available token_setting_sample token_db_sample 1 4 100 = Inr (av', r') \<and> 0 < av')"
proof -
  have "tokens_available token_setting_sample token_db_sample 1 4 60 = Inr (0, Some 100, None)"
    by code_simp
  then show ?thesis
    using tokens_available_announces [OF token_sample_reach token_sample_ok, of 60 4 0 "Some 100" None]
    by simp
qed


end
