(* ===== verification/SubtaskDag.thy ===== *)
theory SubtaskDag
  imports Prelude "HOL-Library.Sublist"
begin

text \<open>
  Dependencies between the subtasks of a group score type, from \<^verbatim>\<open>cms/grading/subtaskdag.py\<close>:
  reading and validating the dependencies, ordering the subtasks, zeroing those whose dependency
  failed, and the gate that decides which testcases of a submission may be evaluated next and which
  may be skipped. The outcomes are exact rational numbers.
\<close>

section \<open>Reading the dependencies\<close>

definition DEPENDS_ON :: string where "DEPENDS_ON = ''depends_on''"
definition HIDE_DEPENDENCY :: string where "HIDE_DEPENDENCY = ''hide_dependency''"

definition declares_dependencies :: "json \<Rightarrow> bool" where
  "declares_dependencies parameters =
     (case parameters of
        JList ps \<Rightarrow>
          list_ex (\<lambda>p. case p of
              JDict d \<Rightarrow> (case dict_get d DEPENDS_ON of None \<Rightarrow> False | Some v \<Rightarrow> py_truth v)
            | _ \<Rightarrow> False) ps
      | _ \<Rightarrow> False)"

text \<open>A bool of Python is an int as well, and is refused here.\<close>

fun json_int :: "json \<Rightarrow> int res" where
  "json_int (JInt i) = Inr i"
| "json_int _ = Inl ValueError"

text \<open>The turn of the loop of \<^verbatim>\<open>parse_dependencies\<close> for the subtask \<open>index\<close> of \<open>n\<close>.\<close>

definition subtask_dependencies :: "nat \<Rightarrow> nat \<Rightarrow> json \<Rightarrow> nat list res" where
  "subtask_dependencies n index parameter =
     (case parameter of
        JDict d \<Rightarrow>
          (case dict_get d DEPENDS_ON of
             None \<Rightarrow> Inr []
           | Some (JList raw) \<Rightarrow>
               res_bind (res_map json_int raw) (\<lambda>numbers.
                 if list_ex (\<lambda>number. \<not> (0 \<le> number \<and> number < int n) \<or> number = int index) numbers
                 then Inl ValueError
                 else if \<not> distinct numbers then Inl ValueError
                 else Inr (sort (map nat numbers)))
           | Some _ \<Rightarrow> Inl ValueError)
      | _ \<Rightarrow> Inr [])"

definition parse_hide_dependency :: "json list \<Rightarrow> bool list res" where
  "parse_hide_dependency parameters =
     res_map (\<lambda>parameter.
       case (case parameter of
               JDict d \<Rightarrow> (case dict_get d HIDE_DEPENDENCY of None \<Rightarrow> JBool False | Some v \<Rightarrow> v)
             | _ \<Rightarrow> JBool False) of
         JBool b \<Rightarrow> Inr b
       | _ \<Rightarrow> Inl ValueError) parameters"

section \<open>Ordering the subtasks\<close>

text \<open>
  \<^verbatim>\<open>topological_order\<close>. The heap of \<^verbatim>\<open>heapq\<close> is the list of its elements in increasing order:
  \<^verbatim>\<open>heapify\<close> is \<open>sort\<close>, \<^verbatim>\<open>heappush\<close> is \<open>insort\<close>, and \<^verbatim>\<open>heappop\<close> takes the head.
\<close>

definition link_dependents :: "nat list list \<Rightarrow> (nat \<times> nat list) \<Rightarrow> nat list list res" where
  "link_dependents dependents entry =
     (case entry of (index, deps) \<Rightarrow>
        res_fold (\<lambda>ds number. res_bind (py_nth ds number) (\<lambda>old. py_upd ds number (old @ [index])))
          dependents deps)"

text \<open>The inner loop over the dependents of the subtask just placed.\<close>

fun release_dependents :: "nat list \<Rightarrow> int list \<Rightarrow> nat list \<Rightarrow> int list \<times> nat list" where
  "release_dependents [] remaining ready = (remaining, ready)"
| "release_dependents (dep # ds) remaining ready =
     (if dep < length remaining then
        let remaining' = remaining[dep := remaining ! dep - 1]
        in release_dependents ds remaining'
             (if remaining' ! dep = 0 then insort dep ready else ready)
      else (remaining, ready))"

definition waiting :: "int list \<Rightarrow> nat" where
  "waiting remaining = length (filter (\<lambda>c. 0 < c) remaining)"

lemma length_filter_update:
  "i < length xs \<Longrightarrow> length (filter P (xs[i := v])) + (if P (xs ! i) then 1 else 0) =
     length (filter P xs) + (if P v then 1 else 0)"
proof (induction xs arbitrary: i)
  case (Cons x xs)
  then show ?case by (cases i) (auto split: if_splits)
qed simp

lemma release_dependents_waiting:
  "release_dependents ds remaining ready = (remaining', ready') \<Longrightarrow>
   waiting remaining' + length ready' \<le> waiting remaining + length ready"
proof (induction ds remaining ready rule: release_dependents.induct)
  case (2 d ds remaining ready)
  show ?case
  proof (cases "d < length remaining")
    case True
    then have "waiting (remaining[d := remaining ! d - 1]) + (if remaining ! d = 1 then 1 else 0)
        \<le> waiting remaining"
      using length_filter_update [OF True, of "\<lambda>c. 0 < c" "remaining ! d - 1"]
      unfolding waiting_def by (cases "remaining ! d = 1") (auto split: if_splits)
    moreover have "waiting remaining' + length ready' \<le> waiting (remaining[d := remaining ! d - 1]) +
        length (if remaining[d := remaining ! d - 1] ! d = 0 then insort d ready else ready)"
      using 2 True by (simp add: Let_def)
    ultimately show ?thesis using True by (auto split: if_splits)
  qed (use 2 in auto)
qed simp

text \<open>The outer loop: the counts left and the order built.\<close>

function place_ready :: "nat list list \<Rightarrow> int list \<Rightarrow> nat list \<Rightarrow> nat list \<Rightarrow> int list \<times> nat list" where
  "place_ready dependents remaining [] order = (remaining, order)"
| "place_ready dependents remaining (current # ready) order =
     (case release_dependents (dependents ! current) remaining ready of
        (remaining', ready') \<Rightarrow> place_ready dependents remaining' ready' (order @ [current]))"
  by pat_completeness auto
termination
  by (relation "measure (\<lambda>(_, remaining, ready, _). waiting remaining + length ready)")
    (auto dest!: release_dependents_waiting [OF sym])

definition topological_order :: "nat list list \<Rightarrow> nat list res" where
  "topological_order dependencies =
     (let remaining = map (\<lambda>deps. int (length deps)) dependencies in
      res_bind (res_fold link_dependents (map (\<lambda>_. []) dependencies) (enumerate 0 dependencies))
        (\<lambda>dependents.
           let ready = filter (\<lambda>index. remaining ! index = 0) [0..<length dependencies];
               (remaining', order) = place_ready dependents remaining (sort ready) []
           in if length order \<noteq> length dependencies then Inl ValueError else Inr order))"

definition parse_dependencies :: "json list \<Rightarrow> nat list list res" where
  "parse_dependencies parameters =
     res_bind (res_map (\<lambda>(index, parameter). subtask_dependencies (length parameters) index parameter)
       (enumerate 0 parameters)) (\<lambda>dependencies.
     res_bind (topological_order dependencies) (\<lambda>_. Inr dependencies))"

section \<open>Zeroing\<close>

definition zero_step ::
  "nat list list \<Rightarrow> rat list \<times> nat option list \<Rightarrow> nat \<Rightarrow> (rat list \<times> nat option list) res" where
  "zero_step dependencies state index =
     (case state of (effective, result) \<Rightarrow>
        res_bind (py_nth dependencies index) (\<lambda>deps.
        res_bind (res_map (py_nth effective) deps) (\<lambda>values.
          let failed = map snd (filter (\<lambda>(v, _). v \<le> 0) (zip values deps))
          in if failed \<noteq> []
             then res_bind (py_upd result index (Some (Min (set failed)))) (\<lambda>result'.
                  res_bind (py_upd effective index 0) (\<lambda>effective'. Inr (effective', result')))
             else Inr (effective, result))))"

definition zeroed_by :: "rat list \<Rightarrow> nat list list \<Rightarrow> nat option list res" where
  "zeroed_by fractions dependencies =
     res_bind (topological_order dependencies) (\<lambda>order.
     res_bind (res_fold (zero_step dependencies) (fractions, map (\<lambda>_. None) fractions) order)
       (\<lambda>(effective, result). Inr result))"


section \<open>The gate\<close>

fun outcome_or_zero :: "outcome \<Rightarrow> rat" where
  "outcome_or_zero (Outcome r) = r"
| "outcome_or_zero _ = 0"

text \<open>
  What the gate uses of a group score type: its parameters, its \<^verbatim>\<open>reduce\<close>, its target testcases
  and its dependencies. The type of a parameter is left open; \<open>ScoreTypes\<close> instantiates it.
\<close>

record 'p group_view =
  gv_parameters :: "'p list"
  gv_reduce :: "rat list \<Rightarrow> 'p \<Rightarrow> rat res"
  gv_targets :: "string list list res"
  gv_dependencies :: "nat list list"

record 'p subtask_gate =
  gate_score_type :: "'p group_view"
  gate_targets :: "string list list"
  gate_dependencies :: "nat list list"
  gate_order :: "nat list"
  gate_subtasks_of :: "(string, nat list) dict"

datatype subtask_status = PENDING | PASSED | FAILED

definition add_subtask_of ::
  "(string, nat list) dict \<Rightarrow> nat \<times> string \<Rightarrow> (string, nat list) dict" where
  "add_subtask_of d entry =
     (case entry of (index, codename) \<Rightarrow>
        dict_set codename ((case dict_get d codename of None \<Rightarrow> [] | Some l \<Rightarrow> l) @ [index]) d)"

definition subtask_gate_init :: "'p group_view \<Rightarrow> 'p subtask_gate res" where
  "subtask_gate_init score_type =
     res_bind (res_map (\<lambda>parameter. gv_reduce score_type [1] parameter) (gv_parameters score_type)) (\<lambda>_.
     res_bind (gv_targets score_type) (\<lambda>targets.
     res_bind (topological_order (gv_dependencies score_type)) (\<lambda>order.
       Inr \<lparr>gate_score_type = score_type, gate_targets = targets,
            gate_dependencies = gv_dependencies score_type, gate_order = order,
            gate_subtasks_of = foldl add_subtask_of []
              (concat (map (\<lambda>(index, target). map (\<lambda>codename. (index, codename)) target)
                (enumerate 0 targets)))\<rparr>)))"

text \<open>One turn of the loop of \<^verbatim>\<open>statuses\<close>.\<close>

definition status_step ::
  "'p subtask_gate \<Rightarrow> (string, outcome) dict \<Rightarrow> subtask_status list \<times> nat option list \<Rightarrow> nat \<Rightarrow>
   (subtask_status list \<times> nat option list) res" where
  "status_step gate outcome_by_codename state index =
     (case state of (status, blocked_by) \<Rightarrow>
        res_bind (py_nth (gate_dependencies gate) index) (\<lambda>deps.
        res_bind (res_map (py_nth status) deps) (\<lambda>dep_status.
          let failed = map snd (filter (\<lambda>(s, _). s = FAILED) (zip dep_status deps))
          in if failed \<noteq> []
             then res_bind (py_upd status index FAILED) (\<lambda>status'.
                  res_bind (py_upd blocked_by index (Some (Min (set failed)))) (\<lambda>blocked_by'.
                    Inr (status', blocked_by')))
             else
               res_bind (py_nth (gate_targets gate) index) (\<lambda>target.
               res_bind (py_nth (gv_parameters (gate_score_type gate)) index) (\<lambda>parameter.
               let done = map (\<lambda>codename. outcome_or_zero (the (dict_get outcome_by_codename codename)))
                     (filter (\<lambda>codename. dict_get outcome_by_codename codename \<noteq> None) target)
               in res_bind (if done \<noteq> [] then gv_reduce (gate_score_type gate) done parameter else Inr 1)
                   (\<lambda>fraction.
                 if done \<noteq> [] \<and> fraction \<le> 0
                 then res_bind (py_upd status index FAILED) (\<lambda>status'. Inr (status', blocked_by))
                 else if length done = length target \<and> list_all (\<lambda>s. s = PASSED) dep_status
                 then res_bind (py_upd status index PASSED) (\<lambda>status'. Inr (status', blocked_by))
                 else Inr (status, blocked_by)))))))"

definition statuses ::
  "'p subtask_gate \<Rightarrow> (string, outcome) dict \<Rightarrow> (subtask_status list \<times> nat option list) res" where
  "statuses gate outcome_by_codename =
     res_fold (status_step gate outcome_by_codename)
       (map (\<lambda>_. PENDING) (gate_targets gate), map (\<lambda>_. None) (gate_targets gate)) (gate_order gate)"

definition releasable :: "'p subtask_gate \<Rightarrow> string \<Rightarrow> subtask_status list \<Rightarrow> bool" where
  "releasable gate codename status =
     (case dict_get (gate_subtasks_of gate) codename of
        None \<Rightarrow> True
      | Some subtasks \<Rightarrow>
          subtasks = [] \<or>
          list_ex (\<lambda>index. list_all (\<lambda>number. status ! number = PASSED) (gate_dependencies gate ! index))
            subtasks)"

definition skippable ::
  "'p subtask_gate \<Rightarrow> string list \<Rightarrow> subtask_status list \<Rightarrow> nat option list \<Rightarrow> (string, nat) dict" where
  "skippable gate codenames_left status blocked_by =
     foldl (\<lambda>skip codename.
       case dict_get (gate_subtasks_of gate) codename of
         None \<Rightarrow> skip
       | Some subtasks \<Rightarrow>
           if subtasks \<noteq> [] \<and> list_all (\<lambda>index. blocked_by ! index \<noteq> None) subtasks
           then dict_set codename (the (blocked_by ! Min (set subtasks))) skip
           else skip) [] codenames_left"

text \<open>
  \<^verbatim>\<open>gate_for_dataset\<close>: the dataset's raw parameters, its score type object (whose construction
  may fail), its id and the ids already warned about.
\<close>

definition gate_for_dataset ::
  "json \<Rightarrow> 'p group_view res \<Rightarrow> nat \<Rightarrow> nat set \<Rightarrow> 'p subtask_gate option \<times> nat set" where
  "gate_for_dataset parameters score_type_object dataset_id warned =
     (if \<not> declares_dependencies parameters then (None, warned)
      else case res_bind score_type_object subtask_gate_init of
        Inr gate \<Rightarrow> (Some gate, warned)
      | Inl _ \<Rightarrow> (None, insert dataset_id warned))"


section \<open>The order is a topological order\<close>

definition deps_in_range :: "nat list list \<Rightarrow> bool" where
  "deps_in_range deps \<longleftrightarrow> (\<forall>ds \<in> set deps. \<forall>d \<in> set ds. d < length deps)"

definition dep_rel :: "nat list list \<Rightarrow> (nat \<times> nat) set" where
  "dep_rel deps = {(j, i). i < length deps \<and> j \<in> set (deps ! i)}"

text \<open>The subtasks that may come next once those of \<open>S\<close> are placed.\<close>

definition ready_set :: "nat list list \<Rightarrow> nat set \<Rightarrow> nat set" where
  "ready_set deps S = {i. i < length deps \<and> i \<notin> S \<and> set (deps ! i) \<subseteq> S}"

lemma dep_in_range: "deps_in_range deps \<Longrightarrow> i < length deps \<Longrightarrow> d \<in> set (deps ! i) \<Longrightarrow> d < length deps"
  by (auto simp: deps_in_range_def)

lemma link_dependents_count:
  assumes "\<forall>d \<in> set deps. d < length ds"
  shows "\<exists>ds'. link_dependents ds (index, deps) = Inr ds' \<and> length ds' = length ds \<and>
    (\<forall>k < length ds. \<forall>i. count_list (ds' ! k) i =
       count_list (ds ! k) i + (if i = index then count_list deps k else 0)) \<and>
    (\<forall>k < length ds. set (ds' ! k) \<subseteq> insert index (set (ds ! k)))"
  using assms
proof (induction deps arbitrary: ds)
  case Nil
  then show ?case by (auto simp: link_dependents_def)
next
  case (Cons d deps)
  let ?ds = "ds[d := ds ! d @ [index]]"
  obtain ds' where ds': "link_dependents ?ds (index, deps) = Inr ds'" "length ds' = length ds"
    "\<And>k i. k < length ds \<Longrightarrow> count_list (ds' ! k) i =
       count_list (?ds ! k) i + (if i = index then count_list deps k else 0)"
    "\<And>k. k < length ds \<Longrightarrow> set (ds' ! k) \<subseteq> insert index (set (?ds ! k))"
    using Cons.IH [of ?ds] Cons.prems by auto
  have "link_dependents ds (index, d # deps) = Inr ds'"
    using ds'(1) Cons.prems by (simp add: link_dependents_def)
  moreover have "count_list (ds' ! k) i =
      count_list (ds ! k) i + (if i = index then count_list (d # deps) k else 0)" if "k < length ds" for k i
    using ds'(3) [OF that, of i] that by (auto simp: nth_list_update)
  moreover have "set (ds' ! k) \<subseteq> insert index (set (ds ! k))" if "k < length ds" for k
    using ds'(4) [OF that] that by (cases "k = d") auto
  ultimately show ?case using ds'(2) by blast
qed

lemma link_all_count:
  assumes "\<forall>(i, ds) \<in> set es. \<forall>d \<in> set ds. d < length acc" "distinct (map fst es)"
  shows "\<exists>acc'. res_fold link_dependents acc es = Inr acc' \<and> length acc' = length acc \<and>
    (\<forall>k < length acc. \<forall>i. count_list (acc' ! k) i = count_list (acc ! k) i +
       (case map_of es i of None \<Rightarrow> 0 | Some ds \<Rightarrow> count_list ds k)) \<and>
    (\<forall>k < length acc. set (acc' ! k) \<subseteq> set (acc ! k) \<union> set (map fst es))"
  using assms
proof (induction es arbitrary: acc)
  case Nil
  then show ?case by simp
next
  case (Cons e es)
  obtain index deps where e: "e = (index, deps)" by (cases e)
  obtain acc1 where acc1: "link_dependents acc (index, deps) = Inr acc1" "length acc1 = length acc"
    "\<And>k i. k < length acc \<Longrightarrow> count_list (acc1 ! k) i =
       count_list (acc ! k) i + (if i = index then count_list deps k else 0)"
    "\<And>k. k < length acc \<Longrightarrow> set (acc1 ! k) \<subseteq> insert index (set (acc ! k))"
    using link_dependents_count [of deps acc index] Cons.prems(1) e by auto
  obtain acc2 where acc2: "res_fold link_dependents acc1 es = Inr acc2" "length acc2 = length acc"
    "\<And>k i. k < length acc \<Longrightarrow> count_list (acc2 ! k) i = count_list (acc1 ! k) i +
       (case map_of es i of None \<Rightarrow> 0 | Some ds \<Rightarrow> count_list ds k)"
    "\<And>k. k < length acc \<Longrightarrow> set (acc2 ! k) \<subseteq> set (acc1 ! k) \<union> set (map fst es)"
    using Cons.IH [of acc1] Cons.prems acc1(2) by auto
  have new: "map_of es index = None"
    using Cons.prems(2) e by (simp add: map_of_eq_None_iff)
  have "count_list (acc2 ! k) i = count_list (acc ! k) i +
      (case map_of (e # es) i of None \<Rightarrow> 0 | Some ds \<Rightarrow> count_list ds k)" if "k < length acc" for k i
    using acc1(3) [OF that, of i] acc2(3) [OF that, of i] new e by auto
  moreover have "set (acc2 ! k) \<subseteq> set (acc ! k) \<union> set (map fst (e # es))" if "k < length acc" for k
    using acc1(4) [OF that] acc2(4) [OF that] e by auto
  ultimately show ?case using acc1(1) acc2(1,2) e by auto
qed

lemma map_of_enumerate:
  "map_of (enumerate n xs) i = (if n \<le> i \<and> i < n + length xs then Some (xs ! (i - n)) else None)"
proof (induction xs arbitrary: n)
  case (Cons x xs)
  show ?case
    by (cases "i = n") (auto simp: Cons.IH nth_Cons' less_Suc_eq_le Suc_diff_Suc)
qed simp

text \<open>The dependents of \<open>k\<close>: each subtask as often as it lists \<open>k\<close>.\<close>

definition dependents_of :: "nat list list \<Rightarrow> nat list list \<Rightarrow> bool" where
  "dependents_of deps D \<longleftrightarrow> length D = length deps \<and>
     (\<forall>k < length deps. (\<forall>i < length deps. count_list (D ! k) i = count_list (deps ! i) k) \<and>
        set (D ! k) \<subseteq> {..<length deps})"

lemma dependents_built:
  assumes "deps_in_range deps"
  obtains D where "res_fold link_dependents (map (\<lambda>_. []) deps) (enumerate 0 deps) = Inr D"
    "dependents_of deps D"
proof -
  have "\<forall>(i, ds) \<in> set (enumerate 0 deps). \<forall>d \<in> set ds. d < length (map (\<lambda>_. [] :: nat list) deps)"
    using assms by (fastforce simp: deps_in_range_def in_set_enumerate_eq)
  moreover have "distinct (map fst (enumerate 0 deps))" by simp
  ultimately obtain D where "res_fold link_dependents (map (\<lambda>_. []) deps) (enumerate 0 deps) = Inr D"
    "length D = length deps"
    "\<forall>k < length deps. \<forall>i. count_list (D ! k) i =
       (case map_of (enumerate 0 deps) i of None \<Rightarrow> 0 | Some ds \<Rightarrow> count_list ds k)"
    "\<forall>k < length deps. set (D ! k) \<subseteq> set (map fst (enumerate 0 deps))"
    using link_all_count [of "enumerate 0 deps" "map (\<lambda>_. []) deps"] by auto
  then show ?thesis
    by (intro that [of D]) (auto simp: dependents_of_def map_of_enumerate atLeast0LessThan)
qed


text \<open>What the inner loop does to the counts and to the heap.\<close>

lemma release_dependents_correct:
  assumes "\<forall>d \<in> set ds. d < length r" "\<forall>i < length r. int (count_list ds i) \<le> r ! i"
    and "release_dependents ds r q = (r', q')" "sorted q"
  shows "length r' = length r" "sorted q'"
    "\<And>i. i < length r \<Longrightarrow> r' ! i = r ! i - int (count_list ds i)"
    "set q' = set q \<union> {i \<in> set ds. r' ! i = 0}"
    "distinct q \<Longrightarrow> (\<forall>i \<in> set q. i < length r \<and> r ! i = 0) \<Longrightarrow> distinct q'"
proof -
  have "length r' = length r \<and> sorted q' \<and> (\<forall>i < length r. r' ! i = r ! i - int (count_list ds i)) \<and>
    set q' = set q \<union> {i \<in> set ds. r' ! i = 0} \<and>
    (distinct q \<longrightarrow> (\<forall>i \<in> set q. i < length r \<and> r ! i = 0) \<longrightarrow> distinct q')"
    using assms
  proof (induction ds r q rule: release_dependents.induct)
    case (2 d ds r q)
    let ?r = "r[d := r ! d - 1]"
    let ?q = "if ?r ! d = 0 then insort d q else q"
    have d: "d < length r" using 2(2) by simp
    have cnt: "int (count_list ds i) \<le> ?r ! i" if "i < length r" for i
      using 2(3) that by (cases "i = d") (auto dest!: spec [of _ i])
    have IH: "length r' = length ?r \<and> sorted q' \<and> (\<forall>i < length ?r. r' ! i = ?r ! i - int (count_list ds i)) \<and>
      set q' = set ?q \<union> {i \<in> set ds. r' ! i = 0} \<and>
      (distinct ?q \<longrightarrow> (\<forall>i \<in> set ?q. i < length ?r \<and> ?r ! i = 0) \<longrightarrow> distinct q')"
      using 2(1) [OF d refl] 2(2,4,5) d cnt by (simp add: Let_def sorted_insort split: if_splits)
    have r': "r' ! i = r ! i - int (count_list (d # ds) i)" if "i < length r" for i
      using IH that by (auto simp: nth_list_update)
    have "d \<in> set ds" if "r' ! d = 0" "r ! d - 1 \<noteq> 0"
      using that r' [OF d] by (cases "d \<in> set ds") (simp_all add: count_notin)
    moreover have "r' ! d = 0" if "r ! d = 1"
      using cnt [OF d] d r' [OF d] that by simp
    moreover have "set q' = set ?q \<union> {i \<in> set ds. r' ! i = 0}" using IH by blast
    moreover have "set ?q = (if r ! d = 1 then insert d (set q) else set q)"
      using d by (simp add: set_insort_key)
    ultimately have "set q' = set q \<union> {i \<in> set (d # ds). r' ! i = 0}"
      by (cases "r ! d = 1") auto
    moreover have "distinct q'" if "distinct q" "\<forall>i \<in> set q. i < length r \<and> r ! i = 0"
    proof -
      have "d \<notin> set q" using 2(3) d that(2) by (auto dest!: spec [of _ d])
      then have "distinct ?q" "\<forall>i \<in> set ?q. i < length ?r \<and> ?r ! i = 0"
        using that d by (auto simp: distinct_insort set_insort_key nth_list_update)
      then show ?thesis using IH by blast
    qed
    ultimately show ?case using IH r' by simp
  qed simp
  then show "length r' = length r" "sorted q'" "\<And>i. i < length r \<Longrightarrow> r' ! i = r ! i - int (count_list ds i)"
    "set q' = set q \<union> {i \<in> set ds. r' ! i = 0}"
    "distinct q \<Longrightarrow> (\<forall>i \<in> set q. i < length r \<and> r ! i = 0) \<Longrightarrow> distinct q'" by auto
qed


text \<open>The invariant of the outer loop.\<close>

definition kahn_inv :: "nat list list \<Rightarrow> int list \<Rightarrow> nat list \<Rightarrow> nat list \<Rightarrow> bool" where
  "kahn_inv deps r q ord \<longleftrightarrow>
     length r = length deps \<and> sorted q \<and> distinct (ord @ q) \<and>
     (\<forall>i < length deps. r ! i = int (length (filter (\<lambda>d. d \<notin> set ord) (deps ! i)))) \<and>
     set ord \<union> set q = {i. i < length deps \<and> r ! i = 0} \<and>
     (\<forall>k < length ord. is_arg_min id (\<lambda>i. i \<in> ready_set deps (set (take k ord))) (ord ! k))"

lemma length_filter_remove:
  "c \<notin> S \<Longrightarrow> length (filter (\<lambda>d. d \<noteq> c \<and> d \<notin> S) xs) + count_list xs c = length (filter (\<lambda>d. d \<notin> S) xs)"
  by (induction xs) auto

lemma filter_length_0: "length (filter (\<lambda>d. d \<notin> S) xs) = 0 \<longleftrightarrow> set xs \<subseteq> S"
  by (auto simp: filter_empty_conv)

lemma kahn_ready:
  assumes "kahn_inv deps r q ord"
  shows "set q = ready_set deps (set ord)"
proof -
  have "r ! i = 0 \<longleftrightarrow> set (deps ! i) \<subseteq> set ord" if "i < length deps" for i
    using assms that filter_length_0 [of "set ord" "deps ! i"] by (simp add: kahn_inv_def)
  moreover have "set q = {i. i < length deps \<and> r ! i = 0} - set ord"
    using assms by (auto simp: kahn_inv_def)
  ultimately show ?thesis by (auto simp: ready_set_def)
qed

lemma kahn_step:
  assumes inv: "kahn_inv deps r (c # q) ord" and dep: "dependents_of deps D"
    and rel: "release_dependents (D ! c) r q = (r', q')"
  shows "kahn_inv deps r' q' (ord @ [c])"
proof -
  have D: "length D = length deps"
    "\<And>k i. k < length deps \<Longrightarrow> i < length deps \<Longrightarrow> count_list (D ! k) i = count_list (deps ! i) k"
    "\<And>k i. k < length deps \<Longrightarrow> i \<in> set (D ! k) \<Longrightarrow> i < length deps"
    using dep by (auto simp: dependents_of_def)
  have len: "length r = length deps" and c: "c < length deps" "c \<notin> set ord" "c \<notin> set q" "r ! c = 0"
    and zero: "set ord \<union> insert c (set q) = {i. i < length deps \<and> r ! i = 0}"
    and r: "\<And>i. i < length deps \<Longrightarrow> r ! i = int (length (filter (\<lambda>d. d \<notin> set ord) (deps ! i)))"
    using inv by (auto simp: kahn_inv_def)
  have step: "int (length (filter (\<lambda>d. d \<notin> set (ord @ [c])) (deps ! i))) = r ! i - int (count_list (D ! c) i)"
    if "i < length deps" for i
    using length_filter_remove [OF c(2), of "deps ! i"] r [OF that] D(2) [OF c(1) that]
    by (simp add: conj_commute)
  have le: "\<forall>i < length r. int (count_list (D ! c) i) \<le> r ! i"
    using step len by (metis diff_ge_0_iff_ge of_nat_0_le_iff)
  have D': "\<forall>d \<in> set (D ! c). d < length r" using D(3) [OF c(1)] len by simp
  have "sorted q" using inv by (simp add: kahn_inv_def)
  note R = release_dependents_correct [OF D' le rel this]
  have r': "r' ! i = int (length (filter (\<lambda>d. d \<notin> set (ord @ [c])) (deps ! i)))" if "i < length deps" for i
    using R(3) [of i] step [OF that] that len by simp
  have same: "r' ! i = r ! i" if "i < length deps" "i \<notin> set (D ! c)" for i
    using R(3) [of i] that len by (simp add: count_notin)
  have mono: "r' ! i = 0" if "i < length deps" "r ! i = 0" for i
    using R(3) [of i] le that len r' [of i] by (auto dest!: spec [of _ i])
  have zero': "set (ord @ [c]) \<union> set q' = {i. i < length deps \<and> r' ! i = 0}" (is "?L = ?R")
  proof
    show "?L \<subseteq> ?R" using R(4) zero mono D(3) [OF c(1)] c(1,4) by auto
    show "?R \<subseteq> ?L"
    proof
      fix i assume i: "i \<in> ?R"
      then show "i \<in> ?L"
        using R(4) zero same [of i] by (cases "i \<in> set (D ! c)") auto
    qed
  qed
  have "distinct q'" using R(5) inv zero len by (auto simp: kahn_inv_def)
  moreover have "set (ord @ [c]) \<inter> set q' = {}"
  proof -
    have "r ! i \<noteq> 0" if "i \<in> set (D ! c)" for i
    proof -
      have "0 < count_list (D ! c) i" using that by (metis count_list_0_iff gr0I)
      then show ?thesis using le D' that by fastforce
    qed
    then show ?thesis using R(4) zero c inv by (auto simp: kahn_inv_def)
  qed
  moreover have "is_arg_min id (\<lambda>i. i \<in> ready_set deps (set ord)) c"
    using kahn_ready [OF inv] inv by (auto simp: is_arg_min_def kahn_inv_def not_less)
  ultimately show ?thesis
    using inv R(1,2) r' zero' len c
    by (auto simp: kahn_inv_def nth_append less_Suc_eq)
qed


lemma place_ready_inv:
  assumes D: "dependents_of deps D"
  shows "kahn_inv deps r q ord \<Longrightarrow> place_ready D r q ord = (r', ord') \<Longrightarrow> kahn_inv deps r' [] ord'"
proof (induction "waiting r + length q" arbitrary: r q ord rule: less_induct)
  case less
  show ?case
  proof (cases q)
    case (Cons c q1)
    obtain r1 q2 where rel: "release_dependents (D ! c) r q1 = (r1, q2)" by fastforce
    have "waiting r1 + length q2 < waiting r + length q"
      using release_dependents_waiting [OF rel] Cons by simp
    moreover have "kahn_inv deps r1 q2 (ord @ [c])"
      using kahn_step [OF _ D rel] less.prems(1) Cons by blast
    moreover have "place_ready D r1 q2 (ord @ [c]) = (r', ord')" using less.prems(2) Cons rel by simp
    ultimately show ?thesis using less.hyps by blast
  qed (use less.prems in auto)
qed

lemma kahn_start:
  assumes "q = filter (\<lambda>i. map (\<lambda>ds. int (length ds)) deps ! i = 0) [0..<length deps]"
  shows "kahn_inv deps (map (\<lambda>ds. int (length ds)) deps) (sort q) []"
  unfolding kahn_inv_def assms by auto

text \<open>
  The order placed so far when the loop ends: the lowest ready subtask always goes next, and
  nothing is ready any more.
\<close>

definition lowest_first :: "nat list list \<Rightarrow> nat list \<Rightarrow> bool" where
  "lowest_first deps ord \<longleftrightarrow> distinct ord \<and>
     (\<forall>k < length ord. is_arg_min id (\<lambda>i. i \<in> ready_set deps (set (take k ord))) (ord ! k))"

lemma topological_order_run:
  assumes "deps_in_range deps"
  obtains ord where "lowest_first deps ord" "ready_set deps (set ord) = {}"
    "topological_order deps = (if length ord = length deps then Inr ord else Inl ValueError)"
proof -
  obtain D where D: "res_fold link_dependents (map (\<lambda>_. []) deps) (enumerate 0 deps) = Inr D"
    "dependents_of deps D"
    using dependents_built [OF assms] by blast
  define r where "r = map (\<lambda>ds. int (length ds)) deps"
  define q where "q = filter (\<lambda>i. r ! i = 0) [0..<length deps]"
  obtain r' ord where run: "place_ready D r (sort q) [] = (r', ord)" by fastforce
  have "kahn_inv deps r (sort q) []"
    using kahn_start [of q deps] by (simp add: q_def r_def)
  then have inv: "kahn_inv deps r' [] ord" using place_ready_inv [OF D(2)] run by blast
  show ?thesis
  proof (rule that)
    show "lowest_first deps ord" using inv by (simp add: kahn_inv_def lowest_first_def)
    show "ready_set deps (set ord) = {}" using kahn_ready [OF inv] by simp
    show "topological_order deps = (if length ord = length deps then Inr ord else Inl ValueError)"
      using D(1) run unfolding topological_order_def Let_def q_def r_def by simp
  qed
qed

lemma lowest_first_in_range:
  assumes "lowest_first deps ord"
  shows "set ord \<subseteq> {..<length deps}" "k < length ord \<Longrightarrow> set (deps ! (ord ! k)) \<subseteq> set (take k ord)"
  using assms by (auto simp: lowest_first_def in_set_conv_nth is_arg_min_def ready_set_def)

lemma lowest_first_nth:
  "lowest_first deps ord \<Longrightarrow> k < length ord \<Longrightarrow> ord ! k \<in> ready_set deps (set (take k ord))"
  by (simp add: lowest_first_def is_arg_min_def)

lemma lowest_first_full:
  assumes "lowest_first deps ord" "length ord = length deps"
  shows "set ord = {..<length deps}"
proof (rule card_subset_eq)
  show "card (set ord) = card {..<length deps}"
    using assms by (simp add: lowest_first_def distinct_card)
qed (use lowest_first_in_range(1) [OF assms(1)] in auto)

text \<open>A subtask comes after its dependencies, so the dependency relation is well-founded.\<close>

definition position :: "nat list \<Rightarrow> nat \<Rightarrow> nat" where
  "position ord i = length (takeWhile (\<lambda>x. x \<noteq> i) ord)"

lemma position_nth: "distinct ord \<Longrightarrow> k < length ord \<Longrightarrow> position ord (ord ! k) = k"
proof (induction ord arbitrary: k)
  case (Cons x ord)
  then show ?case by (cases k) (auto simp: position_def)
qed simp

lemma dep_before:
  assumes "lowest_first deps ord" "length ord = length deps" "(j, i) \<in> dep_rel deps"
  shows "position ord j < position ord i"
proof -
  have "i \<in> set ord" using lowest_first_full [OF assms(1,2)] assms(3) by (auto simp: dep_rel_def)
  then obtain k where k: "k < length ord" "ord ! k = i" by (auto simp: in_set_conv_nth)
  then have "j \<in> set (take k ord)"
    using lowest_first_in_range(2) [OF assms(1) k(1)] assms(3) by (auto simp: dep_rel_def)
  then obtain l where "l < k" "ord ! l = j" using k by (auto simp: in_set_conv_nth)
  moreover have "distinct ord" using assms(1) by (simp add: lowest_first_def)
  ultimately show ?thesis using k position_nth [of ord k] position_nth [of ord l] by simp
qed

lemma dep_rel_wf:
  assumes "topological_order deps = Inr ord" "deps_in_range deps"
  shows "wf (dep_rel deps)"
proof -
  obtain ord' where o: "lowest_first deps ord'" "length ord' = length deps"
    using topological_order_run [OF assms(2)] assms(1) by (metis sum.distinct(1))
  have "dep_rel deps \<subseteq> measure (position ord')" using dep_before [OF o] by auto
  then show ?thesis by (rule wf_subset [OF wf_measure])
qed

lemma finite_dep_rel: "finite (dep_rel deps)"
proof (rule finite_subset)
  show "dep_rel deps \<subseteq> (\<Union>ds \<in> set deps. set ds) \<times> {..<length deps}"
    by (auto simp: dep_rel_def intro!: bexI [of _ "deps ! _"])
qed simp

lemma topological_order_acyclic:
  assumes r: "deps_in_range deps" and a: "acyclic (dep_rel deps)"
  shows "\<exists>ord. topological_order deps = Inr ord"
proof -
  obtain ord where ord: "lowest_first deps ord" "ready_set deps (set ord) = {}"
    "topological_order deps = (if length ord = length deps then Inr ord else Inl ValueError)"
    using topological_order_run [OF r] by blast
  have "set ord = {..<length deps}"
  proof (rule ccontr)
    assume "set ord \<noteq> {..<length deps}"
    then obtain x where x: "x \<in> {..<length deps} - set ord"
      using lowest_first_in_range(1) [OF ord(1)] by blast
    have "wf (dep_rel deps)" using finite_acyclic_wf [OF finite_dep_rel a] .
    then obtain m where m: "m \<in> {..<length deps} - set ord"
      "\<And>y. (y, m) \<in> dep_rel deps \<Longrightarrow> y \<notin> {..<length deps} - set ord"
      using wfE_min [OF _ x] by blast
    then have "set (deps ! m) \<subseteq> set ord" using dep_in_range [OF r] by (auto simp: dep_rel_def)
    then have "m \<in> ready_set deps (set ord)" using m(1) by (simp add: ready_set_def)
    then show False using ord(2) by simp
  qed
  then have "length ord = length deps"
    using ord(1) distinct_card [of ord] by (simp add: lowest_first_def)
  then show ?thesis using ord(3) by simp
qed


section \<open>What zeroing computes\<close>

text \<open>
  A subtask passes when its own fraction and that of everything it depends on, directly or not,
  are above 0. \<open>own\<close> gives the subtasks' own fractions.
\<close>

definition passes :: "nat list list \<Rightarrow> (nat \<Rightarrow> rat) \<Rightarrow> nat \<Rightarrow> bool" where
  "passes deps own i \<longleftrightarrow> (\<forall>j. (j, i) \<in> (dep_rel deps)\<^sup>* \<longrightarrow> 0 < own j)"

definition deps_pass :: "nat list list \<Rightarrow> (nat \<Rightarrow> rat) \<Rightarrow> nat \<Rightarrow> bool" where
  "deps_pass deps own i \<longleftrightarrow> (\<forall>j \<in> set (deps ! i). passes deps own j)"

lemma passes_unfold:
  assumes "i < length deps"
  shows "passes deps own i \<longleftrightarrow> 0 < own i \<and> deps_pass deps own i"
proof -
  have "(j, i) \<in> (dep_rel deps)\<^sup>* \<longleftrightarrow> j = i \<or> (\<exists>d \<in> set (deps ! i). (j, d) \<in> (dep_rel deps)\<^sup>*)" for j
  proof
    assume "(j, i) \<in> (dep_rel deps)\<^sup>*"
    then show "j = i \<or> (\<exists>d \<in> set (deps ! i). (j, d) \<in> (dep_rel deps)\<^sup>*)"
      by (cases rule: rtranclE) (auto simp: dep_rel_def)
  next
    assume "j = i \<or> (\<exists>d \<in> set (deps ! i). (j, d) \<in> (dep_rel deps)\<^sup>*)"
    then show "(j, i) \<in> (dep_rel deps)\<^sup>*"
    proof
      assume "\<exists>d \<in> set (deps ! i). (j, d) \<in> (dep_rel deps)\<^sup>*"
      then obtain d where "(j, d) \<in> (dep_rel deps)\<^sup>*" "(d, i) \<in> dep_rel deps"
        using assms by (auto simp: dep_rel_def)
      then show ?thesis by (rule rtrancl_into_rtrancl)
    qed simp
  qed
  then have "passes deps own i \<longleftrightarrow>
      (\<forall>j. j = i \<or> (\<exists>d \<in> set (deps ! i). (j, d) \<in> (dep_rel deps)\<^sup>*) \<longrightarrow> 0 < own j)"
    by (simp only: passes_def)
  then show ?thesis by (auto simp: passes_def deps_pass_def)
qed

lemma passes_cong:
  assumes "wf (dep_rel deps)" "deps_in_range deps" "i < length deps"
    and "\<And>j. j < length deps \<Longrightarrow> 0 < own j \<longleftrightarrow> 0 < own' j"
  shows "passes deps own i \<longleftrightarrow> passes deps own' i"
  using assms(1,3)
proof (induction i rule: wf_induct_rule)
  case (less i)
  then have "deps_pass deps own i \<longleftrightarrow> deps_pass deps own' i"
    using dep_in_range [OF assms(2)] by (auto simp: deps_pass_def dep_rel_def)
  then show ?case using less.prems assms(4) by (simp add: passes_unfold)
qed

text \<open>The dependency named by \<^verbatim>\<open>zeroed_by\<close>.\<close>

definition zero_cause :: "nat list list \<Rightarrow> (nat \<Rightarrow> rat) \<Rightarrow> nat \<Rightarrow> nat option" where
  "zero_cause deps own i =
     (if deps_pass deps own i then None else Some (Min {j \<in> set (deps ! i). \<not> passes deps own j}))"

lemma failed_deps: "map snd (filter (\<lambda>(v, _). P v) (zip (map h xs) xs)) = filter (\<lambda>x. P (h x)) xs"
  by (induction xs) auto

lemma failed_deps_Nil: "filter (\<lambda>(v, _). P v) (zip (map h xs) xs) = [] \<longleftrightarrow> filter (\<lambda>x. P (h x)) xs = []"
  by (induction xs) auto

lemma zeroed_by_correct:
  assumes r: "deps_in_range deps" and ord: "topological_order deps = Inr ord"
    and len: "length fractions = length deps"
  shows "zeroed_by fractions deps = Inr (map (zero_cause deps (\<lambda>i. fractions ! i)) [0..<length deps])"
proof -
  let ?f = "\<lambda>i. fractions ! i"
  let ?n = "length deps"
  have o: "lowest_first deps ord" "length ord = ?n"
    using topological_order_run [OF r] ord by (metis Inr_inject sum.distinct(1))+
  define I where "I = (\<lambda>k (s :: rat list \<times> nat option list). \<exists>effective result. s = (effective, result) \<and>
    length effective = ?n \<and> length result = ?n \<and> (\<forall>i < ?n.
      effective ! i = (if i \<in> set (take k ord) \<and> \<not> deps_pass deps ?f i then 0 else ?f i) \<and>
      result ! i = (if i \<in> set (take k ord) then zero_cause deps ?f i else None)))"
  have "\<exists>s'. res_fold (zero_step deps) (fractions, map (\<lambda>_. None) fractions) ord = Inr s' \<and> I (length ord) s'"
  proof (rule res_fold_index)
    show "I 0 (fractions, map (\<lambda>_. None) fractions)" using len by (simp add: I_def)
  next
    fix k s assume k: "k < length ord" and "I k s"
    then obtain effective result where s: "s = (effective, result)" "length effective = ?n" "length result = ?n"
      and eff: "\<And>i. i < ?n \<Longrightarrow> effective ! i = (if i \<in> set (take k ord) \<and> \<not> deps_pass deps ?f i then 0 else ?f i)"
      and res: "\<And>i. i < ?n \<Longrightarrow> result ! i = (if i \<in> set (take k ord) then zero_cause deps ?f i else None)"
      unfolding I_def by blast
    let ?i = "ord ! k"
    have i: "?i < ?n" "?i \<notin> set (take k ord)" "set (deps ! ?i) \<subseteq> set (take k ord)"
      using lowest_first_nth [OF o(1) k] by (auto simp: ready_set_def)
    have dep: "effective ! j \<le> 0 \<longleftrightarrow> \<not> passes deps ?f j" "j < ?n" if "j \<in> set (deps ! ?i)" for j
      using eff [of j] dep_in_range [OF r i(1) that] i(3) that passes_unfold [of j deps ?f] by auto
    define failed where "failed = filter (\<lambda>j. effective ! j \<le> 0) (deps ! ?i)"
    have failed: "set failed = {j \<in> set (deps ! ?i). \<not> passes deps ?f j}" using dep by (auto simp: failed_def)
    have vals: "res_map (py_nth effective) (deps ! ?i) = Inr (map (\<lambda>j. effective ! j) (deps ! ?i))"
      using dep(2) s by (intro res_map_total) simp
    have step: "zero_step deps s ?i = Inr (if failed \<noteq> []
        then (effective[?i := 0], result[?i := Some (Min (set failed))]) else (effective, result))"
      using s i(1) by (simp add: zero_step_def vals failed_deps failed_deps_Nil failed_def [symmetric] Let_def)
    have "failed = [] \<longleftrightarrow> deps_pass deps ?f ?i"
      using failed by (auto simp: deps_pass_def simp flip: set_empty)
    then have "I (Suc k) (if failed \<noteq> []
        then (effective[?i := 0], result[?i := Some (Min (set failed))]) else (effective, result))"
      using s eff res i k failed
      by (auto simp: I_def take_Suc_conv_app_nth nth_list_update zero_cause_def)
    then show "\<exists>s'. zero_step deps s ?i = Inr s' \<and> I (Suc k) s'" using step by blast
  qed
  then obtain effective result where run:
    "res_fold (zero_step deps) (fractions, map (\<lambda>_. None) fractions) ord = Inr (effective, result)"
    "length result = ?n" "\<forall>i < ?n. result ! i = zero_cause deps ?f i"
    using lowest_first_full [OF o] by (auto simp: I_def)
  then have "result = map (zero_cause deps ?f) [0..<?n]" by (intro nth_equalityI) auto
  then show ?thesis using ord run(1) by (simp add: zeroed_by_def)
qed


section \<open>What the gate computes\<close>

definition subtasks_containing :: "string list list \<Rightarrow> string \<Rightarrow> nat set" where
  "subtasks_containing targets c = {i. i < length targets \<and> c \<in> set (targets ! i)}"

definition subtasks_of_ok :: "string list list \<Rightarrow> (string, nat list) dict \<Rightarrow> bool" where
  "subtasks_of_ok targets d \<longleftrightarrow>
     (\<forall>c. case dict_get d c of
        None \<Rightarrow> subtasks_containing targets c = {}
      | Some l \<Rightarrow> l \<noteq> [] \<and> set l = subtasks_containing targets c)"

definition gate_ok :: "'p subtask_gate \<Rightarrow> bool" where
  "gate_ok gate \<longleftrightarrow>
     deps_in_range (gate_dependencies gate) \<and>
     topological_order (gate_dependencies gate) = Inr (gate_order gate) \<and>
     length (gate_targets gate) = length (gate_dependencies gate) \<and>
     length (gv_parameters (gate_score_type gate)) = length (gate_dependencies gate) \<and>
     (\<forall>p \<in> set (gv_parameters (gate_score_type gate)). \<forall>xs. xs \<noteq> [] \<longrightarrow>
        (\<exists>a. gv_reduce (gate_score_type gate) xs p = Inr a)) \<and>
     subtasks_of_ok (gate_targets gate) (gate_subtasks_of gate)"

definition done_outcomes :: "(string, outcome) dict \<Rightarrow> string list \<Rightarrow> rat list" where
  "done_outcomes outs target =
     map (\<lambda>c. outcome_or_zero (the (dict_get outs c))) (filter (\<lambda>c. dict_get outs c \<noteq> None) target)"

definition own_failed :: "'p subtask_gate \<Rightarrow> (string, outcome) dict \<Rightarrow> nat \<Rightarrow> bool" where
  "own_failed gate outs i \<longleftrightarrow>
     done_outcomes outs (gate_targets gate ! i) \<noteq> [] \<and>
     (\<exists>a. gv_reduce (gate_score_type gate) (done_outcomes outs (gate_targets gate ! i))
        (gv_parameters (gate_score_type gate) ! i) = Inr a \<and> a \<le> 0)"

definition all_done :: "'p subtask_gate \<Rightarrow> (string, outcome) dict \<Rightarrow> nat \<Rightarrow> bool" where
  "all_done gate outs i \<longleftrightarrow> (\<forall>c \<in> set (gate_targets gate ! i). dict_get outs c \<noteq> None)"

text \<open>The defining equations of the statuses, one subtask at a time.\<close>

definition status_rule ::
  "'p subtask_gate \<Rightarrow> (string, outcome) dict \<Rightarrow> subtask_status list \<Rightarrow> nat option list \<Rightarrow> nat \<Rightarrow> bool" where
  "status_rule gate outs status blocked_by i \<longleftrightarrow>
     (let failed = {j \<in> set (gate_dependencies gate ! i). status ! j = FAILED} in
      if failed \<noteq> {} then status ! i = FAILED \<and> blocked_by ! i = Some (Min failed)
      else blocked_by ! i = None \<and>
        status ! i =
          (if own_failed gate outs i then FAILED
           else if all_done gate outs i \<and> (\<forall>j \<in> set (gate_dependencies gate ! i). status ! j = PASSED)
           then PASSED else PENDING))"

lemma status_rule_cong:
  assumes "status_rule gate outs st bl i" "st' ! i = st ! i" "bl' ! i = bl ! i"
    "\<And>j. j \<in> set (gate_dependencies gate ! i) \<Longrightarrow> st' ! j = st ! j"
  shows "status_rule gate outs st' bl' i"
proof -
  have "{j \<in> set (gate_dependencies gate ! i). st' ! j = FAILED} =
      {j \<in> set (gate_dependencies gate ! i). st ! j = FAILED}" using assms(4) by auto
  then show ?thesis using assms by (auto simp: status_rule_def Let_def)
qed

lemma done_all: "length (done_outcomes outs target) = length target \<longleftrightarrow> (\<forall>c \<in> set target. dict_get outs c \<noteq> None)"
proof -
  have "length (filter P xs) = length xs \<longleftrightarrow> (\<forall>x \<in> set xs. P x)" for P and xs :: "string list"
    using length_filter_less [of _ xs P] filter_True [of xs P] by fastforce
  then show ?thesis by (simp add: done_outcomes_def)
qed

lemma status_step_run:
  assumes ok: "gate_ok gate" and i: "i < length (gate_dependencies gate)"
    and len: "length st = length (gate_dependencies gate)" "length bl = length (gate_dependencies gate)"
    and fresh: "st ! i = PENDING" "bl ! i = None" "i \<notin> set (gate_dependencies gate ! i)"
  obtains st' bl' where "status_step gate outs (st, bl) i = Inr (st', bl')"
    "length st' = length st" "length bl' = length bl"
    "\<And>j. j \<noteq> i \<Longrightarrow> st' ! j = st ! j \<and> bl' ! j = bl ! j" "status_rule gate outs st' bl' i"
proof -
  let ?deps = "gate_dependencies gate ! i" and ?target = "gate_targets gate ! i"
  let ?g = "gate_score_type gate" and ?p = "gv_parameters (gate_score_type gate) ! i"
  define failed where "failed = filter (\<lambda>j. st ! j = FAILED) ?deps"
  define dn where "dn = done_outcomes outs ?target"
  have lens: "i < length (gate_targets gate)" "i < length (gv_parameters ?g)"
    using ok i by (auto simp: gate_ok_def)
  have range: "j < length st" if "j \<in> set ?deps" for j
    using ok len dep_in_range [OF _ i that] by (simp add: gate_ok_def)
  have vals: "res_map (py_nth st) ?deps = Inr (map (\<lambda>j. st ! j) ?deps)"
    using range by (intro res_map_total) simp
  have F: "{j \<in> set ?deps. st ! j = FAILED} = set failed" by (auto simp: failed_def)
  obtain a where a: "dn \<noteq> [] \<Longrightarrow> gv_reduce ?g dn ?p = Inr a"
    using ok lens(2) nth_mem [OF lens(2)] unfolding gate_ok_def by blast
  have own: "own_failed gate outs i \<longleftrightarrow> dn \<noteq> [] \<and> a \<le> 0"
    using a by (auto simp: own_failed_def dn_def)
  have all: "all_done gate outs i \<longleftrightarrow> length dn = length ?target"
    by (simp add: all_done_def dn_def done_all)
  define pass where "pass \<longleftrightarrow> length dn = length ?target \<and> list_all (\<lambda>s. s = PASSED) (map (\<lambda>j. st ! j) ?deps)"
  define r where "r = (if failed \<noteq> [] then (st[i := FAILED], bl[i := Some (Min (set failed))])
     else if dn \<noteq> [] \<and> a \<le> 0 then (st[i := FAILED], bl)
     else if pass then (st[i := PASSED], bl) else (st, bl))"
  have run: "status_step gate outs (st, bl) i = Inr r"
    using i lens len a unfolding status_step_def done_outcomes_def [symmetric]
    by (cases "failed = []"; cases "dn = []")
      (simp_all add: vals failed_deps failed_deps_Nil failed_def [symmetric] Let_def
        dn_def [symmetric] pass_def r_def)
  show ?thesis
  proof (cases r)
    case (Pair st' bl')
    have keep: "st' ! j = st ! j \<and> bl' ! j = bl ! j" if "j \<noteq> i" for j
      using Pair that by (auto simp: r_def split: if_splits)
    have deps_keep: "st' ! j = st ! j" if "j \<in> set ?deps" for j
      using keep [of j] fresh(3) that by (cases "j = i") auto
    then have F': "{j \<in> set ?deps. st' ! j = FAILED} = set failed" by (auto simp: failed_def)
    have P: "(\<forall>j \<in> set ?deps. st' ! j = PASSED) \<longleftrightarrow> list_all (\<lambda>s. s = PASSED) (map (\<lambda>j. st ! j) ?deps)"
      using deps_keep by (auto simp: list_all_iff)
    have "status_rule gate outs st' bl' i"
      unfolding status_rule_def Let_def F' P own all
      using Pair i len fresh by (auto simp: r_def pass_def split: if_splits)
    then show ?thesis
      using run Pair keep by (intro that [of st' bl']) (auto simp: r_def split: if_splits)
  qed
qed


lemma statuses_run:
  assumes ok: "gate_ok gate"
  obtains st bl where "statuses gate outs = Inr (st, bl)"
    "length st = length (gate_dependencies gate)" "length bl = length (gate_dependencies gate)"
    "\<And>i. i < length (gate_dependencies gate) \<Longrightarrow> status_rule gate outs st bl i"
proof -
  let ?deps = "gate_dependencies gate" and ?ord = "gate_order gate"
  let ?n = "length ?deps"
  have r: "deps_in_range ?deps" and ord: "topological_order ?deps = Inr ?ord"
    and len: "length (gate_targets gate) = ?n" using ok by (auto simp: gate_ok_def)
  have o: "lowest_first ?deps ?ord" "length ?ord = ?n"
    using topological_order_run [OF r] ord by (metis Inr_inject sum.distinct(1))+
  define I where "I = (\<lambda>k (s :: subtask_status list \<times> nat option list). \<exists>st bl. s = (st, bl) \<and>
    length st = ?n \<and> length bl = ?n \<and>
    (\<forall>i < ?n. if i \<in> set (take k ?ord) then status_rule gate outs st bl i
      else st ! i = PENDING \<and> bl ! i = None))"
  have "\<exists>s. res_fold (status_step gate outs)
      (map (\<lambda>_. PENDING) (gate_targets gate), map (\<lambda>_. None) (gate_targets gate)) ?ord = Inr s \<and> I (length ?ord) s"
  proof (rule res_fold_index)
    show "I 0 (map (\<lambda>_. PENDING) (gate_targets gate), map (\<lambda>_. None) (gate_targets gate))"
      using len by (simp add: I_def)
  next
    fix k s assume k: "k < length ?ord" and "I k s"
    then obtain st bl where s: "s = (st, bl)" "length st = ?n" "length bl = ?n"
      and st: "\<And>i. i < ?n \<Longrightarrow> if i \<in> set (take k ?ord) then status_rule gate outs st bl i
        else st ! i = PENDING \<and> bl ! i = None"
      unfolding I_def by blast
    let ?i = "?ord ! k"
    have i: "?i < ?n" "?i \<notin> set (take k ?ord)" "set (?deps ! ?i) \<subseteq> set (take k ?ord)"
      using lowest_first_nth [OF o(1) k] by (auto simp: ready_set_def)
    have pend: "st ! ?i = PENDING" "bl ! ?i = None" "?i \<notin> set (?deps ! ?i)"
      using st [OF i(1)] i by auto
    obtain st' bl' where s': "status_step gate outs (st, bl) ?i = Inr (st', bl')"
      "length st' = ?n" "length bl' = ?n"
      "\<And>j. j \<noteq> ?i \<Longrightarrow> st' ! j = st ! j \<and> bl' ! j = bl ! j" "status_rule gate outs st' bl' ?i"
      using status_step_run [OF ok i(1) s(2,3) pend] s(2,3) by metis
    have "status_rule gate outs st' bl' j" if j: "j \<in> set (take k ?ord)" "j < ?n" for j
    proof (rule status_rule_cong)
      show "status_rule gate outs st bl j" using st [OF j(2)] j(1) by simp
      obtain l where l: "l < k" "?ord ! l = j" using j(1) k by (auto simp: in_set_conv_nth)
      then have "set (?deps ! j) \<subseteq> set (take k ?ord)"
        using lowest_first_nth [OF o(1), of l] k set_take_subset_set_take [of l k ?ord]
        by (auto simp: ready_set_def)
      then show "st' ! d = st ! d" if "d \<in> set (?deps ! j)" for d
        using s'(4) [of d] i(2) that by (cases "d = ?i") auto
      have "j \<noteq> ?i" using i(2) j(1) by auto
      then show "st' ! j = st ! j" "bl' ! j = bl ! j" using s'(4) [of j] by auto
    qed
    then have "I (Suc k) (st', bl')"
      using s'(2-5) st k i(1) unfolding I_def
      by (auto simp: take_Suc_conv_app_nth split: if_splits)
    then show "\<exists>s'. status_step gate outs s ?i = Inr s' \<and> I (Suc k) s'" using s'(1) s(1) by blast
  qed
  then obtain st bl where "statuses gate outs = Inr (st, bl)" "length st = ?n" "length bl = ?n"
    "\<And>i. i < ?n \<Longrightarrow> status_rule gate outs st bl i"
    using lowest_first_full [OF o] unfolding I_def statuses_def by auto
  then show ?thesis using that by blast
qed

text \<open>The gate that the constructor builds.\<close>

lemma add_subtasks_of:
  "(case dict_get (foldl add_subtask_of d es) c of None \<Rightarrow> [] | Some l \<Rightarrow> l) =
     (case dict_get d c of None \<Rightarrow> [] | Some l \<Rightarrow> l) @ map fst (filter (\<lambda>e. snd e = c) es) \<and>
   (dict_get d c \<noteq> Some [] \<longrightarrow> dict_get (foldl add_subtask_of d es) c \<noteq> Some [])"
proof (induction es arbitrary: d)
  case (Cons e es)
  obtain i x where e: "e = (i, x)" by (cases e)
  show ?case
    using Cons.IH [of "add_subtask_of d e"] by (auto simp: e add_subtask_of_def split: option.splits)
qed simp

lemma subtask_gate_init_ok:
  assumes "subtask_gate_init v = Inr gate" "deps_in_range (gv_dependencies v)"
    and "gv_targets v = Inr targets" "length targets = length (gv_dependencies v)"
    "length (gv_parameters v) = length (gv_dependencies v)"
    and "\<And>p xs a. p \<in> set (gv_parameters v) \<Longrightarrow> xs \<noteq> [] \<Longrightarrow> gv_reduce v [1] p = Inr a \<Longrightarrow>
      \<exists>b. gv_reduce v xs p = Inr b"
  shows "gate_ok gate" "gate_score_type gate = v" "gate_targets gate = targets"
    "gate_dependencies gate = gv_dependencies v"
proof -
  let ?es = "concat (map (\<lambda>(index, target). map (\<lambda>codename. (index, codename)) target) (enumerate 0 targets))"
  obtain probes where probes: "res_map (\<lambda>p. gv_reduce v [1] p) (gv_parameters v) = Inr probes"
    and g: "gate_score_type gate = v" "gate_targets gate = targets"
      "gate_dependencies gate = gv_dependencies v"
      "topological_order (gv_dependencies v) = Inr (gate_order gate)"
      "gate_subtasks_of gate = foldl add_subtask_of [] ?es"
    using assms(1,3) by (auto simp: subtask_gate_init_def)
  then show "gate_score_type gate = v" "gate_targets gate = targets"
    "gate_dependencies gate = gv_dependencies v" by auto
  have members: "set (map fst (filter (\<lambda>e. snd e = c) ?es)) = subtasks_containing targets c" for c
    by (force simp: subtasks_containing_def in_set_enumerate_eq)
  have "subtasks_of_ok targets (gate_subtasks_of gate)"
    unfolding subtasks_of_ok_def g(5)
  proof (intro allI)
    fix c
    define L where "L = map fst (filter (\<lambda>e. snd e = c) ?es)"
    have L: "set L = subtasks_containing targets c"
      "(case dict_get (foldl add_subtask_of [] ?es) c of None \<Rightarrow> [] | Some l \<Rightarrow> l) = L"
      "dict_get (foldl add_subtask_of [] ?es) c \<noteq> Some []"
      using members [of c] add_subtasks_of [of "[]" ?es c] unfolding L_def by (simp_all only: map_of.simps option.simps append_Nil) simp
    show "case dict_get (foldl add_subtask_of [] ?es) c of
        None \<Rightarrow> subtasks_containing targets c = {}
      | Some l \<Rightarrow> l \<noteq> [] \<and> set l = subtasks_containing targets c"
      using L by (auto split: option.splits)
  qed
  moreover have "\<exists>b. gv_reduce v xs p = Inr b" if p: "p \<in> set (gv_parameters v)" "xs \<noteq> []" for p xs
  proof -
    obtain i where "i < length (gv_parameters v)" "gv_parameters v ! i = p"
      using p(1) by (auto simp: in_set_conv_nth)
    then have "gv_reduce v [1] p = Inr (probes ! i)" using res_map_Inr_nth [OF probes] by auto
    then show ?thesis using assms(6) p by blast
  qed
  ultimately show "gate_ok gate" using g assms by (auto simp: gate_ok_def)
qed


section \<open>Releasing and skipping testcases\<close>

lemma skippable_iff:
  assumes ok: "subtasks_of_ok (gate_targets gate) (gate_subtasks_of gate)"
  shows "dict_get (skippable gate left st bl) c \<noteq> None \<longleftrightarrow>
    c \<in> set left \<and> subtasks_containing (gate_targets gate) c \<noteq> {} \<and>
    (\<forall>i \<in> subtasks_containing (gate_targets gate) c. bl ! i \<noteq> None)"
proof -
  let ?step = "\<lambda>skip codename.
       case dict_get (gate_subtasks_of gate) codename of
         None \<Rightarrow> skip
       | Some subtasks \<Rightarrow>
           if subtasks \<noteq> [] \<and> list_all (\<lambda>index. bl ! index \<noteq> None) subtasks
           then dict_set codename (the (bl ! Min (set subtasks))) skip else skip"
  let ?all = "\<lambda>c. subtasks_containing (gate_targets gate) c \<noteq> {} \<and>
    (\<forall>i \<in> subtasks_containing (gate_targets gate) c. bl ! i \<noteq> None)"
  have one: "dict_get (?step skip x) c \<noteq> None \<longleftrightarrow> dict_get skip c \<noteq> None \<or> (x = c \<and> ?all c)" for skip x
  proof -
    have "case dict_get (gate_subtasks_of gate) x of
        None \<Rightarrow> subtasks_containing (gate_targets gate) x = {}
      | Some l \<Rightarrow> l \<noteq> [] \<and> set l = subtasks_containing (gate_targets gate) x"
      using ok by (simp add: subtasks_of_ok_def)
    then show ?thesis
      by (cases "dict_get (gate_subtasks_of gate) x") (auto simp: list_all_iff)
  qed
  have "dict_get (foldl ?step skip left) c \<noteq> None \<longleftrightarrow> dict_get skip c \<noteq> None \<or> (c \<in> set left \<and> ?all c)" for skip
  proof (induction left arbitrary: skip)
    case (Cons x left)
    have "dict_get (foldl ?step skip (x # left)) c \<noteq> None \<longleftrightarrow>
        dict_get (?step skip x) c \<noteq> None \<or> (c \<in> set left \<and> ?all c)"
      using Cons.IH [of "?step skip x"] by (simp only: foldl.simps)
    then show ?case using one [of skip x] by auto
  qed simp
  from this [of "[]"] show ?thesis by (simp add: skippable_def)
qed

lemma releasable_iff:
  assumes ok: "subtasks_of_ok (gate_targets gate) (gate_subtasks_of gate)"
  shows "releasable gate c st \<longleftrightarrow> subtasks_containing (gate_targets gate) c = {} \<or>
    (\<exists>i \<in> subtasks_containing (gate_targets gate) c.
       \<forall>j \<in> set (gate_dependencies gate ! i). st ! j = PASSED)"
proof -
  have "case dict_get (gate_subtasks_of gate) c of
      None \<Rightarrow> subtasks_containing (gate_targets gate) c = {}
    | Some l \<Rightarrow> l \<noteq> [] \<and> set l = subtasks_containing (gate_targets gate) c"
    using ok by (simp add: subtasks_of_ok_def)
  then show ?thesis
    by (cases "dict_get (gate_subtasks_of gate) c")
      (auto simp: releasable_def list_ex_iff list_all_iff)
qed

lemma blocked_iff:
  assumes "status_rule gate outs st bl i"
  shows "bl ! i \<noteq> None \<longleftrightarrow> (\<exists>j \<in> set (gate_dependencies gate ! i). st ! j = FAILED)"
  using assms by (auto simp: status_rule_def Let_def split: if_splits)

text \<open>
  No deadlock: a subtask is pending only while some testcase that may be evaluated is not.
\<close>

lemma no_pending:
  assumes ok: "gate_ok gate" and i: "i < length (gate_dependencies gate)"
    and rule: "\<And>i. i < length (gate_dependencies gate) \<Longrightarrow> status_rule gate outs st bl i"
    and evald: "\<And>c. subtasks_containing (gate_targets gate) c \<noteq> {} \<Longrightarrow> releasable gate c st \<Longrightarrow>
      dict_get outs c \<noteq> None"
  shows "st ! i \<noteq> PENDING"
proof -
  have r: "deps_in_range (gate_dependencies gate)"
    and s: "subtasks_of_ok (gate_targets gate) (gate_subtasks_of gate)"
    and len: "length (gate_targets gate) = length (gate_dependencies gate)"
    using ok by (auto simp: gate_ok_def)
  have "wf (dep_rel (gate_dependencies gate))" using dep_rel_wf [OF _ r] ok by (auto simp: gate_ok_def)
  then show ?thesis using i
  proof (induction i rule: wf_induct_rule)
    case (less i)
    show ?case
    proof (cases "\<exists>j \<in> set (gate_dependencies gate ! i). st ! j \<noteq> PASSED")
      case True
      then obtain j where j: "j \<in> set (gate_dependencies gate ! i)" "st ! j \<noteq> PASSED" by blast
      then have "st ! j \<noteq> PENDING"
        using less dep_in_range [OF r less.prems] by (auto simp: dep_rel_def)
      then have "st ! j = FAILED" using j(2) by (cases "st ! j") auto
      then show ?thesis using rule [OF less.prems] j(1) by (auto simp: status_rule_def Let_def split: if_splits)
    next
      case False
      have "dict_get outs c \<noteq> None" if "c \<in> set (gate_targets gate ! i)" for c
      proof (rule evald)
        have "i \<in> subtasks_containing (gate_targets gate) c"
          using that less.prems len by (simp add: subtasks_containing_def)
        then show "subtasks_containing (gate_targets gate) c \<noteq> {}" "releasable gate c st"
          using False releasable_iff [OF s] by auto
      qed
      then have "all_done gate outs i" by (simp add: all_done_def)
      then show ?thesis using rule [OF less.prems] False by (auto simp: status_rule_def Let_def split: if_splits)
    qed
  qed
qed

lemma stuck_all_skippable:
  assumes ok: "gate_ok gate"
    and rule: "\<And>i. i < length (gate_dependencies gate) \<Longrightarrow> status_rule gate outs st bl i"
    and evald: "\<And>c. subtasks_containing (gate_targets gate) c \<noteq> {} \<Longrightarrow> releasable gate c st \<Longrightarrow>
      dict_get outs c \<noteq> None"
    and c: "subtasks_containing (gate_targets gate) c \<noteq> {}" "dict_get outs c = None" "c \<in> set left"
  shows "dict_get (skippable gate left st bl) c \<noteq> None"
proof -
  have s: "subtasks_of_ok (gate_targets gate) (gate_subtasks_of gate)"
    and r: "deps_in_range (gate_dependencies gate)"
    and len: "length (gate_targets gate) = length (gate_dependencies gate)"
    using ok by (auto simp: gate_ok_def)
  have nr: "\<not> releasable gate c st" using evald c(1,2) by blast
  have "bl ! i \<noteq> None" if i: "i \<in> subtasks_containing (gate_targets gate) c" for i
  proof -
    have i_n: "i < length (gate_dependencies gate)" using i len by (simp add: subtasks_containing_def)
    obtain j where j: "j \<in> set (gate_dependencies gate ! i)" "st ! j \<noteq> PASSED"
      using nr i by (auto simp: releasable_iff [OF s])
    moreover have "st ! j \<noteq> PENDING" using no_pending [OF ok _ rule evald] dep_in_range [OF r i_n j(1)] by blast
    ultimately have "st ! j = FAILED" by (cases "st ! j") auto
    then show ?thesis using j(1) blocked_iff [OF rule [OF i_n]] by blast
  qed
  then show ?thesis using c skippable_iff [OF s] by blast
qed

section \<open>The contract of a group score type\<close>

text \<open>
  What the gate relies on: a reduction that answers on one outcome answers on every list of
  outcomes, and once the outcomes seen make it 0 no further outcome brings it back up.
\<close>

locale gated_reduce =
  fixes reduce :: "rat list \<Rightarrow> 'p \<Rightarrow> rat res" and valid :: "rat \<Rightarrow> bool"
  assumes reduce_total: "reduce [1] p = Inr a \<Longrightarrow> xs \<noteq> [] \<Longrightarrow> \<exists>b. reduce xs p = Inr b"
    and reduce_stays: "subseq xs ys \<Longrightarrow> xs \<noteq> [] \<Longrightarrow> (\<forall>y \<in> set ys. valid y) \<Longrightarrow>
      reduce xs p = Inr a \<Longrightarrow> a \<le> 0 \<Longrightarrow> reduce ys p = Inr b \<Longrightarrow> b \<le> 0"
    and reduce_empty: "reduce [] p = Inr a \<Longrightarrow> 0 < a"

text \<open>
  The outcomes \<open>val\<close> that the submission ends with extend those known so far, and give the
  subtasks the fractions \<open>own\<close>.
\<close>

definition final_agrees ::
  "'p subtask_gate \<Rightarrow> (rat \<Rightarrow> bool) \<Rightarrow> (string, outcome) dict \<Rightarrow> (string \<Rightarrow> rat) \<Rightarrow> (nat \<Rightarrow> rat) \<Rightarrow> bool" where
  "final_agrees gate valid outs val own \<longleftrightarrow>
     (\<forall>i < length (gate_dependencies gate).
        gv_reduce (gate_score_type gate) (map val (gate_targets gate ! i))
          (gv_parameters (gate_score_type gate) ! i) = Inr (own i) \<and>
        (\<forall>c \<in> set (gate_targets gate ! i). valid (val c) \<and>
           (\<forall>x. dict_get outs c = Some x \<longrightarrow> outcome_or_zero x = val c)))"

lemma done_outcomes_val:
  assumes "\<And>c x. c \<in> set target \<Longrightarrow> dict_get outs c = Some x \<Longrightarrow> outcome_or_zero x = val c"
  shows "done_outcomes outs target = map val (filter (\<lambda>c. dict_get outs c \<noteq> None) target)"
  using assms unfolding done_outcomes_def by (intro map_cong) auto

context gated_reduce
begin

lemma status_sound:
  assumes ok: "gate_ok gate" and red: "gv_reduce (gate_score_type gate) = reduce"
    and rule: "\<And>i. i < length (gate_dependencies gate) \<Longrightarrow> status_rule gate outs st bl i"
    and fin: "final_agrees gate valid outs val own" and i: "i < length (gate_dependencies gate)"
  shows "(st ! i = FAILED \<longrightarrow> \<not> passes (gate_dependencies gate) own i) \<and>
    (st ! i = PASSED \<longrightarrow> passes (gate_dependencies gate) own i)"
proof -
  let ?deps = "gate_dependencies gate"
  have r: "deps_in_range ?deps" using ok by (simp add: gate_ok_def)
  have "wf (dep_rel ?deps)" using dep_rel_wf [OF _ r] ok by (auto simp: gate_ok_def)
  then show ?thesis using i
  proof (induction i rule: wf_induct_rule)
    case (less i)
    let ?target = "gate_targets gate ! i" and ?p = "gv_parameters (gate_score_type gate) ! i"
    have own: "reduce (map val ?target) ?p = Inr (own i)" "\<forall>y \<in> set (map val ?target). valid y"
      using fin less.prems red by (auto simp: final_agrees_def)
    have dn: "done_outcomes outs ?target = map val (filter (\<lambda>c. dict_get outs c \<noteq> None) ?target)"
      using fin less.prems by (intro done_outcomes_val) (simp add: final_agrees_def)
    have IH: "(st ! j = FAILED \<longrightarrow> \<not> passes ?deps own j) \<and> (st ! j = PASSED \<longrightarrow> passes ?deps own j)"
      if "j \<in> set (?deps ! i)" for j
      using less dep_in_range [OF r less.prems that] that by (auto simp: dep_rel_def)
    have failed: "own i \<le> 0" if ofl: "own_failed gate outs i"
    proof -
      obtain a where "done_outcomes outs ?target \<noteq> []" "reduce (done_outcomes outs ?target) ?p = Inr a" "a \<le> 0"
        using ofl by (auto simp: own_failed_def red)
      moreover have "subseq (done_outcomes outs ?target) (map val ?target)"
        unfolding dn by (intro subseq_map subseq_filter_left)
      ultimately show ?thesis using reduce_stays own by blast
    qed
    have passed: "0 < own i" if "all_done gate outs i" "\<not> own_failed gate outs i"
    proof -
      have "filter (\<lambda>c. dict_get outs c \<noteq> None) ?target = ?target"
        using that(1) by (auto simp: all_done_def filter_id_conv)
      then have "done_outcomes outs ?target = map val ?target" by (simp add: dn)
      then show ?thesis
        using that(2) own(1) reduce_empty by (cases "map val ?target = []") (auto simp: own_failed_def red)
    qed
    show ?case
      using rule [OF less.prems] IH failed passed passes_unfold [OF less.prems, of own]
      by (auto simp: status_rule_def Let_def deps_pass_def split: if_splits)
  qed
qed

lemma blocked_zeroed:
  assumes ok: "gate_ok gate" and red: "gv_reduce (gate_score_type gate) = reduce"
    and rule: "\<And>i. i < length (gate_dependencies gate) \<Longrightarrow> status_rule gate outs st bl i"
    and fin: "final_agrees gate valid outs val own" and i: "i < length (gate_dependencies gate)"
    and b: "bl ! i \<noteq> None"
  shows "\<not> deps_pass (gate_dependencies gate) own i"
proof -
  obtain j where j: "j \<in> set (gate_dependencies gate ! i)" "st ! j = FAILED"
    using b blocked_iff [OF rule [OF i]] by blast
  then have "\<not> passes (gate_dependencies gate) own j"
    using status_sound [OF ok red rule fin] dep_in_range [OF _ i] ok by (auto simp: gate_ok_def)
  then show ?thesis using j(1) by (auto simp: deps_pass_def)
qed

text \<open>Two endings that differ only on skipped testcases give every subtask the same worth.\<close>

lemma skipping_irrelevant:
  assumes ok: "gate_ok gate" and red: "gv_reduce (gate_score_type gate) = reduce"
    and rule: "\<And>i. i < length (gate_dependencies gate) \<Longrightarrow> status_rule gate outs st bl i"
    and fin: "final_agrees gate valid outs val own" "final_agrees gate valid outs val' own'"
    and same: "\<And>c. dict_get (skippable gate left st bl) c = None \<Longrightarrow> val c = val' c"
    and i: "i < length (gate_dependencies gate)"
  shows "(deps_pass (gate_dependencies gate) own i \<longleftrightarrow> deps_pass (gate_dependencies gate) own' i) \<and>
    (deps_pass (gate_dependencies gate) own i \<longrightarrow> own i = own' i)"
proof -
  let ?deps = "gate_dependencies gate"
  have r: "deps_in_range ?deps" and s: "subtasks_of_ok (gate_targets gate) (gate_subtasks_of gate)"
    and len: "length (gate_targets gate) = length ?deps"
    using ok by (auto simp: gate_ok_def)
  have wf: "wf (dep_rel ?deps)" using dep_rel_wf [OF _ r] ok by (auto simp: gate_ok_def)
  have own: "own i = own' i \<or> \<not> deps_pass ?deps own i \<and> \<not> deps_pass ?deps own' i" if i: "i < length ?deps" for i
  proof (cases "\<exists>c \<in> set (gate_targets gate ! i). dict_get (skippable gate left st bl) c \<noteq> None")
    case True
    then obtain c where "c \<in> set (gate_targets gate ! i)" "dict_get (skippable gate left st bl) c \<noteq> None" by blast
    then have "bl ! i \<noteq> None"
      using i len unfolding skippable_iff [OF s] by (simp add: subtasks_containing_def)
    then show ?thesis using blocked_zeroed [OF ok red rule _ i] fin by blast
  next
    case False
    then have "map val (gate_targets gate ! i) = map val' (gate_targets gate ! i)" using same by auto
    then have "Inr (own i) = (Inr (own' i) :: rat res)"
      using fin i unfolding final_agrees_def by metis
    then show ?thesis by simp
  qed
  have "passes ?deps own i \<longleftrightarrow> passes ?deps own' i" if "i < length ?deps" for i
    using wf that
  proof (induction i rule: wf_induct_rule)
    case (less i)
    then have "deps_pass ?deps own i \<longleftrightarrow> deps_pass ?deps own' i"
      using dep_in_range [OF r less.prems] by (auto simp: deps_pass_def dep_rel_def)
    then show ?case using own [OF less.prems] less.prems by (auto simp: passes_unfold)
  qed
  then have "deps_pass ?deps own i \<longleftrightarrow> deps_pass ?deps own' i"
    using dep_in_range [OF r i] by (auto simp: deps_pass_def)
  then show ?thesis using own [OF i] by blast
qed

end

text \<open>
  The properties of the gate are stated on the score types themselves, in \<open>ScoreTypes\<close>.
\<close>


section \<open>Properties\<close>

lemma acyclic_iff_ordered:
  assumes "deps_in_range deps"
  shows "acyclic (dep_rel deps) \<longleftrightarrow> (\<exists>ord. topological_order deps = Inr ord)"
  using topological_order_acyclic [OF assms] dep_rel_wf [OF _ assms] wf_acyclic by blast

lemma topological_order_Inr:
  assumes "deps_in_range deps" "topological_order deps = Inr ord"
  shows "lowest_first deps ord" "length ord = length deps"
  using topological_order_run [OF assms(1)] assms(2) by (metis Inr_inject sum.distinct(1))+

text \<open>
  C13. Ordering the subtasks. On dependencies that name existing subtasks, \<^verbatim>\<open>topological_order\<close>
  raises ValueError exactly when the dependencies have a cycle; otherwise it returns every subtask
  once, and at each place the lowest-numbered subtask among those not placed yet whose dependencies
  all come earlier.
\<close>

theorem topological_order_correct:
  assumes "deps_in_range deps"
  shows "(topological_order deps = Inl ValueError \<longleftrightarrow> \<not> acyclic (dep_rel deps)) \<and>
    (acyclic (dep_rel deps) \<longrightarrow> (\<exists>ord. topological_order deps = Inr ord \<and> distinct ord \<and>
       set ord = {..<length deps} \<and>
       (\<forall>k < length ord. ord ! k = Min {i. i < length deps \<and> i \<notin> set (take k ord) \<and>
          set (deps ! i) \<subseteq> set (take k ord)})))"
proof -
  have "topological_order deps = Inl ValueError \<longleftrightarrow> \<not> (\<exists>ord. topological_order deps = Inr ord)"
    using topological_order_run [OF assms] by (metis sum.distinct(1))
  moreover have "distinct ord \<and> set ord = {..<length deps} \<and>
      (\<forall>k < length ord. ord ! k = Min (ready_set deps (set (take k ord))))"
    if "topological_order deps = Inr ord" for ord
  proof -
    note o = topological_order_Inr [OF assms that]
    have "ord ! k = Min (ready_set deps (set (take k ord)))" if "k < length ord" for k
    proof (rule Min_eqI [symmetric])
      show "finite (ready_set deps (set (take k ord)))" by (simp add: ready_set_def)
      show "ord ! k \<in> ready_set deps (set (take k ord))" using lowest_first_nth [OF o(1) that] .
      show "ord ! k \<le> i" if "i \<in> ready_set deps (set (take k ord))" for i
        using o(1) \<open>k < length ord\<close> that by (auto simp: lowest_first_def is_arg_min_def not_less)
    qed
    then show ?thesis using lowest_first_full [OF o] o(1) by (auto simp: lowest_first_def)
  qed
  ultimately show ?thesis
    using acyclic_iff_ordered [OF assms] unfolding ready_set_def by blast
qed

theorem topological_order_correct_witness:
  "\<not> acyclic (dep_rel [[1], [0], []]) \<and> topological_order [[2], [], [1], [0, 1]] = Inr [1, 2, 0, 3] \<and>
   set [1, 2, 0, 3] = {..<length [[2], [], [1], [0, 1 :: nat]]}"
proof -
  have "deps_in_range [[1], [0], []]" "deps_in_range [[2], [], [1], [0, 1]]"
    by (simp_all add: deps_in_range_def)
  note th = topological_order_correct [OF this(1)] topological_order_correct [OF this(2)]
  have "topological_order [[1], [0], []] = Inl ValueError"
    "topological_order [[2], [], [1], [0, 1]] = Inr [1, 2, 0, 3]" by code_simp+
  then show ?thesis using th by auto
qed

text \<open>
  C14. Zeroing. On acyclic dependencies, \<^verbatim>\<open>zeroed_by\<close> answers for every subtask: it names no
  dependency exactly when everything the subtask depends on, through any number of steps, has a
  fraction above 0; otherwise it names the lowest-numbered direct dependency that has fraction
  0 itself or depends on a subtask that has.
\<close>

theorem zeroed_by_transitive:
  assumes "deps_in_range deps" "acyclic (dep_rel deps)" "length fractions = length deps"
  shows "\<exists>result. zeroed_by fractions deps = Inr result \<and> length result = length deps \<and>
    (\<forall>i < length deps.
       result ! i = (if \<forall>j. (j, i) \<in> (dep_rel deps)\<^sup>+ \<longrightarrow> 0 < fractions ! j then None
         else Some (Min {j \<in> set (deps ! i). \<exists>k. (k, j) \<in> (dep_rel deps)\<^sup>* \<and> fractions ! k \<le> 0})))"
proof -
  obtain ord where "topological_order deps = Inr ord" using assms(1,2) acyclic_iff_ordered by blast
  note z = zeroed_by_correct [OF assms(1) this assms(3)]
  have cause: "zero_cause deps (\<lambda>i. fractions ! i) i =
      (if \<forall>j. (j, i) \<in> (dep_rel deps)\<^sup>+ \<longrightarrow> 0 < fractions ! j then None
       else Some (Min {j \<in> set (deps ! i). \<exists>k. (k, j) \<in> (dep_rel deps)\<^sup>* \<and> fractions ! k \<le> 0}))"
    if "i < length deps" for i
  proof -
    have "(\<exists>d \<in> set (deps ! i). (j, d) \<in> (dep_rel deps)\<^sup>*) \<longleftrightarrow> (j, i) \<in> (dep_rel deps)\<^sup>+" for j
      using that by (auto simp: trancl_unfold_right dep_rel_def)
    then have "deps_pass deps (\<lambda>i. fractions ! i) i \<longleftrightarrow> (\<forall>j. (j, i) \<in> (dep_rel deps)\<^sup>+ \<longrightarrow> 0 < fractions ! j)"
      unfolding deps_pass_def passes_def by blast
    moreover have "\<not> passes deps (\<lambda>i. fractions ! i) j \<longleftrightarrow>
        (\<exists>k. (k, j) \<in> (dep_rel deps)\<^sup>* \<and> fractions ! k \<le> 0)" for j
      by (auto simp: passes_def not_less)
    ultimately show ?thesis by (simp add: zero_cause_def)
  qed
  show ?thesis
    by (rule exI [of _ "map (zero_cause deps (\<lambda>i. fractions ! i)) [0..<length deps]"])
      (simp add: z cause)
qed

theorem zeroed_by_transitive_witness:
  "zeroed_by [0, 1, 1, 1] [[], [0], [1], []] = Inr [None, Some 0, Some 1, None] \<and>
   \<not> (\<forall>j. (j, 2) \<in> (dep_rel [[], [0], [1], []])\<^sup>+ \<longrightarrow> 0 < [0, 1, 1, 1 :: rat] ! j)"
proof -
  have r: "deps_in_range [[], [0], [1], []]" by (simp add: deps_in_range_def)
  have ord: "topological_order [[], [0], [1], []] = Inr [0, 1, 2, 3]" by code_simp
  have z: "zeroed_by [0, 1, 1, 1] [[], [0], [1], []] = Inr [None, Some 0, Some 1, None]" by code_simp
  have "acyclic (dep_rel [[], [0], [1], []])" using acyclic_iff_ordered [OF r] ord by blast
  from zeroed_by_transitive [OF r this, of "[0, 1, 1, 1]"] show ?thesis
    unfolding z by (auto dest!: spec [of _ 2] split: if_splits)
qed

lemma json_ints_error: "res_map json_int js = Inl e \<Longrightarrow> e = ValueError"
proof (induction js)
  case (Cons j js)
  then show ?case by (cases j) (auto simp: res_bind_Inl_iff)
qed simp

lemma parsed_error:
  "res_map (\<lambda>(i, p). subtask_dependencies n i p) es = Inl e \<Longrightarrow> e = ValueError"
proof (induction es)
  case (Cons x es)
  have "subtask_dependencies n i p = Inl e \<Longrightarrow> e = ValueError" for i p
    by (auto simp: subtask_dependencies_def res_bind_Inl_iff json_ints_error
        split: json.splits option.splits if_splits)
  then show ?case using Cons by (cases x) (auto simp: res_bind_Inl_iff)
qed simp

lemma subtask_dependencies_Inr:
  assumes "subtask_dependencies n i p = Inr ds"
  shows "sorted ds" "distinct ds" "i \<notin> set ds" "\<forall>d \<in> set ds. d < n"
proof -
  consider "ds = []"
    | numbers where "distinct numbers" "ds = sort (map nat numbers)"
      "\<forall>m \<in> set numbers. 0 \<le> m \<and> m < int n \<and> m \<noteq> int i"
    using assms
    by (auto simp: subtask_dependencies_def list_ex_iff split: json.splits option.splits if_splits)
  then have "sorted ds \<and> distinct ds \<and> i \<notin> set ds \<and> (\<forall>d \<in> set ds. d < n)"
  proof cases
    case (2 numbers)
    then have "inj_on nat (set numbers)" by (simp add: inj_on_def eq_nat_nat_iff)
    then show ?thesis using 2 by (auto simp: distinct_map nat_less_iff)
  qed simp
  then show "sorted ds" "distinct ds" "i \<notin> set ds" "\<forall>d \<in> set ds. d < n" by auto
qed

lemma parsed_deps:
  assumes "res_map (\<lambda>(i, p). subtask_dependencies (length ps) i p) (enumerate 0 ps) = Inr deps"
  shows "length deps = length ps" "deps_in_range deps"
    "\<And>i. i < length ps \<Longrightarrow> subtask_dependencies (length ps) i (ps ! i) = Inr (deps ! i)"
proof -
  show len: "length deps = length ps" using res_map_Inr_length [OF assms] by simp
  show each: "subtask_dependencies (length ps) i (ps ! i) = Inr (deps ! i)" if "i < length ps" for i
    using res_map_Inr_nth [OF assms, of i] that by (simp add: nth_enumerate_eq)
  show "deps_in_range deps"
    unfolding deps_in_range_def
    using each len subtask_dependencies_Inr(4) by (metis in_set_conv_nth)
qed

text \<open>
  Validation. \<^verbatim>\<open>parse_dependencies\<close> either raises ValueError or returns, for every subtask,
  the increasing list of the numbers it declares: these numbers are those of other subtasks,
  without repetition and without a cycle, so that \<^verbatim>\<open>zeroed_by\<close> and the gate never fail on them.
\<close>

theorem parse_dependencies_valid:
  "(\<exists>deps. parse_dependencies ps = Inr deps \<and> length deps = length ps \<and> deps_in_range deps \<and>
     acyclic (dep_rel deps) \<and> list_all (\<lambda>ds. sorted ds \<and> distinct ds) deps \<and>
     list_all (\<lambda>(i, p). i \<notin> set (deps ! i) \<and>
       subtask_dependencies (length ps) i p = Inr (deps ! i)) (enumerate 0 ps)) \<or>
   parse_dependencies ps = Inl ValueError"
proof (cases "parse_dependencies ps")
  case (Inl e)
  have "topological_order deps = Inl e \<Longrightarrow> deps_in_range deps \<Longrightarrow> e = ValueError" for deps
    using topological_order_run by (metis sum.distinct(1) Inl_inject)
  then have "e = ValueError"
    using Inl parsed_error parsed_deps(2) by (auto simp: parse_dependencies_def res_bind_Inl_iff)
  then show ?thesis using Inl by simp
next
  case (Inr deps)
  then have d: "res_map (\<lambda>(i, p). subtask_dependencies (length ps) i p) (enumerate 0 ps) = Inr deps"
    and "\<exists>ord. topological_order deps = Inr ord" by (auto simp: parse_dependencies_def)
  note pd = parsed_deps [OF d]
  have "acyclic (dep_rel deps)" using acyclic_iff_ordered [OF pd(2)] \<open>\<exists>ord. topological_order deps = Inr ord\<close> by blast
  moreover have "list_all (\<lambda>ds. sorted ds \<and> distinct ds) deps"
    using pd(1,3) subtask_dependencies_Inr by (fastforce simp: list_all_length)
  moreover have "list_all (\<lambda>(i, p). i \<notin> set (deps ! i) \<and>
      subtask_dependencies (length ps) i p = Inr (deps ! i)) (enumerate 0 ps)"
    using pd(3) subtask_dependencies_Inr by (fastforce simp: list_all_iff in_set_enumerate_eq)
  ultimately show ?thesis using Inr pd(1,2) by blast
qed

end
