(* ===== verification/ScoreTypes.thy ===== *)
theory ScoreTypes
  imports SubtaskDag "HOL-Library.Char_ord" "HOL-Library.List_Lexorder"
begin

text \<open>
  Score types, from \<^verbatim>\<open>cms/grading/scoretypes/abc.py\<close>, \<^verbatim>\<open>Sum.py\<close>, \<^verbatim>\<open>GroupMin.py\<close>, \<^verbatim>\<open>GroupMul.py\<close> and
  \<^verbatim>\<open>GroupThreshold.py\<close>: the target testcases of a subtask, the maximum scores, the score of a
  submission with its full and its public details, and what is hidden from contestants. Scores
  are exact rational numbers; details are JSON values as the program stores them. The headers
  and ranking details, which the program formats with \<^verbatim>\<open>%g\<close>, are kept as numbers.
\<close>

section \<open>The parameters of a group\<close>

definition get_max_score :: "nat \<Rightarrow> json \<Rightarrow> rat res" where
  "get_max_score precision group_parameter =
     res_bind (case group_parameter of
         JList l \<Rightarrow> py_nth l 0
       | JDict d \<Rightarrow> (case dict_get d ''max_score'' of None \<Rightarrow> Inl KeyError | Some v \<Rightarrow> Inr v)
       | _ \<Rightarrow> Inl TypeError) (\<lambda>v.
     res_bind (json_num v) (\<lambda>score.
       if py_round score precision = score then Inr score else Inl AssertionError))"

definition get_testcases :: "json \<Rightarrow> json res" where
  "get_testcases group_parameter =
     (case group_parameter of
        JList l \<Rightarrow> py_nth l 1
      | JDict d \<Rightarrow> (case dict_get d ''testcases'' of None \<Rightarrow> Inl KeyError | Some v \<Rightarrow> Inr v)
      | _ \<Rightarrow> Inl TypeError)"

definition get_always_show_testcases :: "json \<Rightarrow> bool res" where
  "get_always_show_testcases group_parameter =
     (case group_parameter of
        JList l \<Rightarrow> Inr False
      | JDict d \<Rightarrow> Inr (case dict_get d ''always_show_testcases'' of None \<Rightarrow> False | Some v \<Rightarrow> py_truth v)
      | _ \<Rightarrow> Inl AttributeError)"

section \<open>The target testcases of each subtask\<close>

fun is_int :: "json \<Rightarrow> bool" where
  "is_int (JInt _) = True"
| "is_int (JBool _) = True"
| "is_int _ = False"

fun int_val :: "json \<Rightarrow> int" where
  "int_val (JInt i) = i"
| "int_val (JBool b) = (if b then 1 else 0)"
| "int_val _ = 0"

fun is_str :: "json \<Rightarrow> bool" where
  "is_str (JStr _) = True"
| "is_str _ = False"

fun str_val :: "json \<Rightarrow> string" where
  "str_val (JStr s) = s"
| "str_val _ = []"

fun is_str_list :: "json \<Rightarrow> bool" where
  "is_str_list (JList l) = list_all is_str l"
| "is_str_list _ = False"

fun str_list_val :: "json \<Rightarrow> string list" where
  "str_list_val (JList l) = map str_val l"
| "str_list_val _ = []"

text \<open>The loop that hands out consecutive testcases.\<close>

fun slice_targets :: "string list \<Rightarrow> int \<Rightarrow> int list \<Rightarrow> string list list" where
  "slice_targets indices current [] = []"
| "slice_targets indices current (t # ts) =
     py_slice indices current (current + t) # slice_targets indices (current + t) ts"

text \<open>
  \<open>re_match\<close> is Python's \<^verbatim>\<open>re.compile(t).match(tc)\<close>: \<open>None\<close> when \<open>t\<close> is no regular expression.
\<close>

definition retrieve_target_testcases ::
  "(string \<Rightarrow> string \<Rightarrow> bool option) \<Rightarrow> json list \<Rightarrow> (string, bool) dict \<Rightarrow> string list list res" where
  "retrieve_target_testcases re_match parameters public_testcases =
     res_bind (res_map get_testcases parameters) (\<lambda>t_params.
       let indices = sort (dict_keys public_testcases) in
       if list_all is_int t_params then Inr (slice_targets indices 0 (map int_val t_params))
       else if list_all is_str t_params then
         res_map (\<lambda>t.
           res_bind (res_map (\<lambda>tc. case re_match t tc of None \<Rightarrow> Inl ValueError | Some b \<Rightarrow> Inr (tc, b)) indices)
             (\<lambda>matched. let target = map fst (filter snd matched)
                in if target = [] then Inl ValueError else Inr target)) (map str_val t_params)
       else if list_all is_str_list t_params then Inr (map str_list_val t_params)
       else Inl ValueError)"

section \<open>Reductions\<close>

datatype group_kind = GroupMin | GroupMul | GroupThreshold

definition threshold_of :: "json \<Rightarrow> json res" where
  "threshold_of parameter =
     (case parameter of
        JList l \<Rightarrow> py_nth l 2
      | JDict d \<Rightarrow> (case dict_get d ''threshold'' of None \<Rightarrow> Inl KeyError | Some v \<Rightarrow> Inr v)
      | _ \<Rightarrow> Inl TypeError)"

text \<open>\<^verbatim>\<open>0 < outcome <= threshold\<close>: the second comparison is made only when the first holds.\<close>

definition within_threshold :: "json \<Rightarrow> rat \<Rightarrow> bool res" where
  "within_threshold threshold out =
     (if 0 < out then res_bind (json_num threshold) (\<lambda>t. Inr (out \<le> t)) else Inr False)"

fun all_within :: "json \<Rightarrow> rat list \<Rightarrow> bool res" where
  "all_within threshold [] = Inr True"
| "all_within threshold (x # xs) =
     res_bind (within_threshold threshold x) (\<lambda>b. if b then all_within threshold xs else Inr False)"

definition group_min_reduce :: "rat list \<Rightarrow> json \<Rightarrow> rat res" where
  "group_min_reduce outcomes parameter =
     (if outcomes = [] then Inl ValueError else Inr (Min (set outcomes)))"

definition group_mul_reduce :: "rat list \<Rightarrow> json \<Rightarrow> rat res" where
  "group_mul_reduce outcomes parameter =
     (case outcomes of [] \<Rightarrow> Inl TypeError | x # xs \<Rightarrow> Inr (foldl (*) x xs))"

definition group_threshold_reduce :: "rat list \<Rightarrow> json \<Rightarrow> rat res" where
  "group_threshold_reduce outcomes parameter =
     res_bind (threshold_of parameter) (\<lambda>threshold.
     res_bind (all_within threshold outcomes) (\<lambda>b. Inr (if b then 1 else 0)))"

definition group_reduce :: "group_kind \<Rightarrow> rat list \<Rightarrow> json \<Rightarrow> rat res" where
  "group_reduce kind =
     (case kind of GroupMin \<Rightarrow> group_min_reduce | GroupMul \<Rightarrow> group_mul_reduce
      | GroupThreshold \<Rightarrow> group_threshold_reduce)"

definition min_public_outcome :: "rat \<Rightarrow> string" where
  "min_public_outcome out =
     (if out \<le> 0 then ''Not correct'' else if 1 \<le> out then ''Correct'' else ''Partially correct'')"

definition mul_public_outcome :: "rat \<Rightarrow> string" where
  "mul_public_outcome out =
     (if out \<le> 0 then ''Not correct'' else if 1 \<le> out then ''Correct'' else ''Partially correct'')"

definition threshold_public_outcome :: "rat \<Rightarrow> json \<Rightarrow> string res" where
  "threshold_public_outcome out parameter =
     res_bind (threshold_of parameter) (\<lambda>threshold.
     res_bind (within_threshold threshold out) (\<lambda>b.
       Inr (if b then ''Correct'' else ''Not correct'')))"

definition get_public_outcome :: "group_kind \<Rightarrow> rat \<Rightarrow> json \<Rightarrow> string res" where
  "get_public_outcome kind out parameter =
     (case kind of GroupMin \<Rightarrow> Inr (min_public_outcome out) | GroupMul \<Rightarrow> Inr (mul_public_outcome out)
      | GroupThreshold \<Rightarrow> threshold_public_outcome out parameter)"


section \<open>The score type object\<close>

definition lookup :: "('k, 'v) dict \<Rightarrow> 'k \<Rightarrow> 'v res" where
  "lookup d k = (case dict_get d k of None \<Rightarrow> Inl KeyError | Some v \<Rightarrow> Inr v)"

text \<open>\<^verbatim>\<open>all(self.public_testcases[tc] for tc in target)\<close>, which stops at the first private one.\<close>

fun all_public :: "(string, bool) dict \<Rightarrow> string list \<Rightarrow> bool res" where
  "all_public public_testcases [] = Inr True"
| "all_public public_testcases (c # cs) =
     res_bind (lookup public_testcases c) (\<lambda>b. if b then all_public public_testcases cs else Inr False)"

fun any_public :: "(string, bool) dict \<Rightarrow> string list \<Rightarrow> bool res" where
  "any_public public_testcases [] = Inr False"
| "any_public public_testcases (c # cs) =
     res_bind (lookup public_testcases c) (\<lambda>b. if b then Inr True else any_public public_testcases cs)"

record score_type_group =
  sg_kind :: group_kind
  sg_parameters :: "json list"
  sg_public_testcases :: "(string, bool) dict"
  sg_score_precision :: nat
  sg_max_score :: rat
  sg_max_public_score :: rat
  sg_ranking_headers :: "(nat \<times> rat) list"
  sg_dependencies :: "nat list list"
  sg_hide_dependency :: "bool list"

definition max_scores_step ::
  "nat \<Rightarrow> (string, bool) dict \<Rightarrow> string list list \<Rightarrow> rat \<times> rat \<times> (nat \<times> rat) list \<Rightarrow> nat \<times> json \<Rightarrow>
   (rat \<times> rat \<times> (nat \<times> rat) list) res" where
  "max_scores_step precision public_testcases targets acc entry =
     (case (acc, entry) of ((score, public_score, headers), (st_idx, parameter)) \<Rightarrow>
        res_bind (py_nth targets st_idx) (\<lambda>target.
        res_bind (get_max_score precision parameter) (\<lambda>m.
        res_bind (all_public public_testcases target) (\<lambda>public.
          Inr (score + m, if public then public_score + m else public_score, headers @ [(st_idx, m)])))))"

definition group_max_scores ::
  "(string \<Rightarrow> string \<Rightarrow> bool option) \<Rightarrow> nat \<Rightarrow> json list \<Rightarrow> (string, bool) dict \<Rightarrow>
   (rat \<times> rat \<times> (nat \<times> rat) list) res" where
  "group_max_scores re_match precision parameters public_testcases =
     res_bind (retrieve_target_testcases re_match parameters public_testcases) (\<lambda>targets.
       res_fold (max_scores_step precision public_testcases targets) (0, 0, []) (enumerate 0 parameters))"

text \<open>What a \<^verbatim>\<open>for\<close> loop over the parameters sees.\<close>

fun json_iter :: "json \<Rightarrow> json list res" where
  "json_iter (JList l) = Inr l"
| "json_iter (JStr s) = Inr (map (\<lambda>c. JStr [c]) s)"
| "json_iter (JDict d) = Inr (map (\<lambda>(k, v). JStr k) d)"
| "json_iter _ = Inl TypeError"

text \<open>
  The constructor: any exception of \<^verbatim>\<open>max_scores\<close> becomes a ValueError; then the dependencies are
  validated.
\<close>

definition score_type_group_init ::
  "(string \<Rightarrow> string \<Rightarrow> bool option) \<Rightarrow> group_kind \<Rightarrow> json \<Rightarrow> (string, bool) dict \<Rightarrow> nat \<Rightarrow>
   score_type_group res" where
  "score_type_group_init re_match kind parameters public_testcases precision =
     (case res_bind (json_iter parameters) (\<lambda>ps.
             res_bind (group_max_scores re_match precision ps public_testcases) (\<lambda>m. Inr (ps, m))) of
        Inl e \<Rightarrow> Inl ValueError
      | Inr (ps, max_score, max_public_score, headers) \<Rightarrow>
          res_bind (parse_dependencies ps) (\<lambda>dependencies.
          res_bind (parse_hide_dependency ps) (\<lambda>hide.
            Inr \<lparr>sg_kind = kind, sg_parameters = ps, sg_public_testcases = public_testcases,
                 sg_score_precision = precision, sg_max_score = max_score,
                 sg_max_public_score = max_public_score, sg_ranking_headers = headers,
                 sg_dependencies = dependencies, sg_hide_dependency = hide\<rparr>)))"

definition sg_targets :: "(string \<Rightarrow> string \<Rightarrow> bool option) \<Rightarrow> score_type_group \<Rightarrow> string list list res" where
  "sg_targets re_match st =
     retrieve_target_testcases re_match (sg_parameters st) (sg_public_testcases st)"

section \<open>The score of a submission\<close>

record evaluation =
  ev_codename :: string
  ev_outcome :: outcome
  ev_text :: "string list"
  ev_execution_time :: "rat option"
  ev_execution_memory :: "int option"

record submission_result =
  sr_evaluated :: bool
  sr_evaluations :: "evaluation list"
  sr_time_limit :: "rat option"
  sr_score_precision :: nat

definition TIMEOUT_MESSAGE :: string where
  "TIMEOUT_MESSAGE = ''Execution timed out''"

definition SKIPPED_DEPENDENCY_MESSAGE :: string where
  "SKIPPED_DEPENDENCY_MESSAGE =
     ''Not tested: this subtask depends on subtask %s, which scored no points.''"

definition evaluations_of :: "submission_result \<Rightarrow> (string, evaluation) dict" where
  "evaluations_of sr = foldl (\<lambda>d ev. dict_set (ev_codename ev) ev d) [] (sr_evaluations sr)"

definition outcome_of :: "(string, evaluation) dict \<Rightarrow> string \<Rightarrow> rat res" where
  "outcome_of evaluations c = res_bind (lookup evaluations c) (\<lambda>ev. float_of (ev_outcome ev))"

fun json_rat_option :: "rat option \<Rightarrow> json" where
  "json_rat_option None = JNull"
| "json_rat_option (Some r) = JFloat r"

fun json_int_option :: "int option \<Rightarrow> json" where
  "json_int_option None = JNull"
| "json_int_option (Some i) = JInt i"

text \<open>What the loop over the testcases of a subtask collects of one testcase.\<close>

record tc_row =
  row_idx :: string
  row_score :: rat
  row_public :: bool
  row_outcome :: string
  row_text :: "string list"
  row_time :: "rat option"
  row_time_limit :: "rat option"
  row_memory :: "int option"

definition testcase_row ::
  "score_type_group \<Rightarrow> submission_result \<Rightarrow> (string, evaluation) dict \<Rightarrow> json \<Rightarrow> string \<Rightarrow> tc_row res" where
  "testcase_row st sr evaluations parameter tc_idx =
     res_bind (lookup evaluations tc_idx) (\<lambda>ev.
     res_bind (float_of (ev_outcome ev)) (\<lambda>tc_score.
     res_bind (get_public_outcome (sg_kind st) tc_score parameter) (\<lambda>tc_outcome.
     res_bind (lookup (sg_public_testcases st) tc_idx) (\<lambda>public.
       Inr \<lparr>row_idx = tc_idx, row_score = tc_score, row_public = public, row_outcome = tc_outcome,
            row_text = ev_text ev, row_time = ev_execution_time ev,
            row_time_limit = sr_time_limit sr, row_memory = ev_execution_memory ev\<rparr>))))"

text \<open>The first public testcase with the lowest score.\<close>

fun first_lowest :: "(string \<times> rat) option \<Rightarrow> tc_row list \<Rightarrow> (string \<times> rat) option" where
  "first_lowest acc [] = acc"
| "first_lowest acc (row # rows) =
     first_lowest
       (if row_public row \<and> (case acc of None \<Rightarrow> True | Some (_, lowest) \<Rightarrow> row_score row < lowest)
        then Some (row_idx row, row_score row) else acc) rows"

text \<open>
  The dictionary of a testcase. The same dictionary object is put in the full and in the public
  details, and its two \<^verbatim>\<open>show_in\<close> entries are written after that; here both lists get the entry
  with its final values.
\<close>

definition testcase_entry :: "(string \<Rightarrow> bool \<times> bool) option \<Rightarrow> tc_row \<Rightarrow> json" where
  "testcase_entry restrict row =
     (let (restricted, oi_restricted) =
            (case restrict of
               Some f \<Rightarrow> if row_public row then f (row_idx row) else (row_public row, row_public row)
             | None \<Rightarrow> (row_public row, row_public row))
      in JDict ([(''idx'', JStr (row_idx row)), (''outcome'', JStr (row_outcome row)),
           (''text'', JList (map JStr (row_text row))), (''time'', json_rat_option (row_time row)),
           (''time_limit'', json_rat_option (row_time_limit row)),
           (''time_limit_was_exceeded'', JBool (row_text row = [TIMEOUT_MESSAGE])),
           (''memory'', json_int_option (row_memory row)),
           (''show_in_restricted_feedback'', JBool restricted),
           (''show_in_oi_restricted_feedback'', JBool oi_restricted)] @
          (if row_text row \<noteq> [] \<and> hd (row_text row) = SKIPPED_DEPENDENCY_MESSAGE
           then [(''skipped'', JBool True)] else [])))"

definition public_entry :: "(string \<Rightarrow> bool \<times> bool) option \<Rightarrow> tc_row \<Rightarrow> json" where
  "public_entry restrict row =
     (if row_public row then testcase_entry restrict row else JDict [(''idx'', JStr (row_idx row))])"


subsection \<open>Hiding the messages about dependencies\<close>

fun json_lookup :: "json \<Rightarrow> string \<Rightarrow> json res" where
  "json_lookup (JDict d) k = lookup d k"
| "json_lookup _ k = Inl TypeError"

fun json_get :: "json \<Rightarrow> string \<Rightarrow> json option res" where
  "json_get (JDict d) k = Inr (dict_get d k)"
| "json_get _ k = Inl AttributeError"

text \<open>\<^verbatim>\<open>(tc.get("text") or [None])[0] == SKIPPED_DEPENDENCY_MESSAGE\<close>.\<close>

definition first_is_skip_message :: "json option \<Rightarrow> bool res" where
  "first_is_skip_message text =
     (case text of
        None \<Rightarrow> Inr False
      | Some t \<Rightarrow>
          if \<not> py_truth t then Inr False
          else case t of
            JList l \<Rightarrow> Inr (hd l = JStr SKIPPED_DEPENDENCY_MESSAGE)
          | JStr s \<Rightarrow> Inr ([hd s] = SKIPPED_DEPENDENCY_MESSAGE)
          | JDict d \<Rightarrow> Inl KeyError
          | _ \<Rightarrow> Inl TypeError)"

definition bare_if_skipped :: "json \<Rightarrow> json res" where
  "bare_if_skipped tc =
     res_bind (json_get tc ''skipped'') (\<lambda>skipped.
     res_bind (if (case skipped of None \<Rightarrow> False | Some v \<Rightarrow> py_truth v) then Inr True
               else res_bind (json_get tc ''text'') first_is_skip_message) (\<lambda>hide.
       if hide then res_bind (json_lookup tc ''idx'') (\<lambda>idx. Inr (JDict [(''idx'', idx)])) else Inr tc))"

definition without_dependency_messages :: "json \<Rightarrow> json res" where
  "without_dependency_messages subtask =
     (case subtask of
        JDict d \<Rightarrow>
          res_bind (lookup d ''testcases'') (\<lambda>tcs.
          res_bind (json_iter tcs) (\<lambda>testcases.
          res_bind (res_map bare_if_skipped testcases) (\<lambda>hidden_testcases.
            Inr (JDict (dict_set ''testcases'' (JList hidden_testcases)
              (filter (\<lambda>(k, _). k \<noteq> ''zeroed_by_dependency'') d))))))
      | _ \<Rightarrow> Inl AttributeError)"

definition hide_dependency_messages :: "score_type_group \<Rightarrow> json \<Rightarrow> json res" where
  "hide_dependency_messages st score_details =
     (case score_details of
        JList subtasks \<Rightarrow>
          res_bind (res_map (\<lambda>sub.
            case sub of
              JDict d \<Rightarrow>
                (case dict_get d ''zeroed_by_dependency'' of
                   None \<Rightarrow> Inr sub
                 | Some _ \<Rightarrow>
                     (case (case dict_get d ''idx'' of None \<Rightarrow> JInt (-1) | Some v \<Rightarrow> v) of
                        JInt i \<Rightarrow>
                          if 0 \<le> i \<and> i < int (length (sg_hide_dependency st)) \<and> sg_hide_dependency st ! nat i
                          then without_dependency_messages sub else Inr sub
                      | _ \<Rightarrow> Inl TypeError))
            | _ \<Rightarrow> Inl TypeError) subtasks) (\<lambda>subtasks'. Inr (JList subtasks'))
      | _ \<Rightarrow> Inr score_details)"

subsection \<open>Computing the score\<close>

text \<open>
  The body of the loop over the subtasks: the rounded score, what it adds to the public score,
  and the two dictionaries.
\<close>

definition score_subtask ::
  "score_type_group \<Rightarrow> submission_result \<Rightarrow> (string, evaluation) dict \<Rightarrow> nat option \<Rightarrow> nat \<Rightarrow> json \<Rightarrow>
   string list \<Rightarrow> bool \<Rightarrow> (rat \<times> rat \<times> json \<times> json) res" where
  "score_subtask st sr evaluations zeroed st_idx parameter target hide =
     res_bind (res_map (testcase_row st sr evaluations parameter) target) (\<lambda>rows.
     res_bind (group_reduce (sg_kind st) (map row_score rows) parameter) (\<lambda>own_fraction.
     res_bind (get_max_score (sg_score_precision st) parameter) (\<lambda>max_score.
     res_bind (get_always_show_testcases parameter) (\<lambda>always_show.
     res_bind (all_public (sg_public_testcases st) target) (\<lambda>all_pub.
     res_bind (any_public (sg_public_testcases st) target) (\<lambda>any_pub.
       let fraction = (if zeroed \<noteq> None then 0 else own_fraction);
           rounded_score = py_round (fraction * max_score) (sr_score_precision sr);
           restrict = (case first_lowest None rows of
               None \<Rightarrow> None
             | Some (lowest_idx, _) \<Rightarrow>
                 if own_fraction < 1 \<and> \<not> always_show
                 then Some (\<lambda>idx. (idx \<le> lowest_idx, idx = lowest_idx)) else None);
           note = (case zeroed of None \<Rightarrow> [] | Some j \<Rightarrow> [(''zeroed_by_dependency'', JInt (int j))]);
           subtask = JDict ([(''idx'', JInt (int st_idx)), (''score_fraction'', JFloat fraction),
               (''score'', JFloat rounded_score), (''max_score'', JFloat max_score),
               (''testcases'', JList (map (testcase_entry restrict) rows))] @ note);
           public_subtask = (if all_pub then subtask
             else JDict ([(''idx'', JInt (int st_idx)),
                 (''testcases'', JList (map (public_entry restrict) rows))] @
                 (if any_pub then note else [])))
       in res_bind (if hide \<and> zeroed \<noteq> None then without_dependency_messages public_subtask
                    else Inr public_subtask) (\<lambda>public_subtask'.
            Inr (rounded_score, if all_pub then rounded_score else 0, subtask, public_subtask'))))))))"

definition subtask_zeroes ::
  "score_type_group \<Rightarrow> (string, evaluation) dict \<Rightarrow> string list list \<Rightarrow> nat option list res" where
  "subtask_zeroes st evaluations targets =
     (if list_ex (\<lambda>deps. deps \<noteq> []) (sg_dependencies st) then
        res_bind (res_map (\<lambda>(target, parameter).
            res_bind (res_map (outcome_of evaluations) target) (\<lambda>outcomes.
              group_reduce (sg_kind st) outcomes parameter)) (zip targets (sg_parameters st)))
          (\<lambda>fractions. zeroed_by fractions (sg_dependencies st))
      else Inr (map (\<lambda>_. None) (sg_parameters st)))"

definition group_compute_score ::
  "(string \<Rightarrow> string \<Rightarrow> bool option) \<Rightarrow> score_type_group \<Rightarrow> submission_result \<Rightarrow>
   (rat \<times> json \<times> rat \<times> json \<times> rat list) res" where
  "group_compute_score re_match st sr =
     (if \<not> sr_evaluated sr then Inr (0, JList [], 0, JList [], map (\<lambda>_. 0) (sg_parameters st))
      else
        res_bind (sg_targets re_match st) (\<lambda>targets.
        let evaluations = evaluations_of sr in
        res_bind (subtask_zeroes st evaluations targets) (\<lambda>zeroed.
        res_bind (res_map (\<lambda>(st_idx, parameter).
            res_bind (py_nth targets st_idx) (\<lambda>target.
            res_bind (py_nth zeroed st_idx) (\<lambda>z.
            res_bind (py_nth (sg_hide_dependency st) st_idx) (\<lambda>hide.
              score_subtask st sr evaluations z st_idx parameter target hide))))
            (enumerate 0 (sg_parameters st))) (\<lambda>subtasks.
          Inr (py_round (sum_list (map (\<lambda>(s, _). s) subtasks)) (sr_score_precision sr),
               JList (map (\<lambda>(_, _, full, _). full) subtasks),
               sum_list (map (\<lambda>(_, p, _, _). p) subtasks),
               JList (map (\<lambda>(_, _, _, public). public) subtasks),
               map (\<lambda>(s, _). s) subtasks)))))"

subsection \<open>Filtering by feedback level\<close>

datatype feedback_level =
  FEEDBACK_LEVEL_FULL | FEEDBACK_LEVEL_RESTRICTED | FEEDBACK_LEVEL_OI_RESTRICTED | OtherLevel

definition copy_keys :: "string list \<Rightarrow> (string, json) dict \<Rightarrow> (string, json) dict" where
  "copy_keys keys d =
     concat (map (\<lambda>k. case dict_get d k of None \<Rightarrow> [] | Some v \<Rightarrow> [(k, v)]) keys)"

definition get_default :: "(string, json) dict \<Rightarrow> string \<Rightarrow> json \<Rightarrow> json" where
  "get_default d k v = (case dict_get d k of None \<Rightarrow> v | Some w \<Rightarrow> w)"

text \<open>The body of the loop over the testcases: what is appended for one of them.\<close>

definition filter_testcase :: "feedback_level \<Rightarrow> json \<Rightarrow> json list res" where
  "filter_testcase level tc =
     (case tc of
        JDict d \<Rightarrow>
          res_bind (case level of
              FEEDBACK_LEVEL_FULL \<Rightarrow> Inr True
            | FEEDBACK_LEVEL_RESTRICTED \<Rightarrow>
                Inr (py_truth (get_default d ''show_in_restricted_feedback'' (JBool False)))
            | FEEDBACK_LEVEL_OI_RESTRICTED \<Rightarrow>
                Inr (py_truth (get_default d ''show_in_oi_restricted_feedback'' (JBool False)))
            | OtherLevel \<Rightarrow> Inl ValueError) (\<lambda>show_tc.
          case (if show_tc then dict_get d ''outcome'' else None) of
            Some out \<Rightarrow>
              res_bind (lookup d ''idx'') (\<lambda>idx.
                Inr [JDict ([(''idx'', idx), (''outcome'', out), (''text'', get_default d ''text'' JNull)] @
                  (if py_truth (get_default d ''skipped'' JNull) then [(''skipped'', JBool True)] else []) @
                  (if level = FEEDBACK_LEVEL_FULL
                   then copy_keys [''time'', ''time_limit'', ''time_limit_was_exceeded'', ''memory''] d
                   else []))])
          | None \<Rightarrow>
              if level \<noteq> FEEDBACK_LEVEL_OI_RESTRICTED
              then Inr [JDict [(''idx'', get_default d ''idx'' JNull)]] else Inr [])
      | _ \<Rightarrow> Inl AttributeError)"

definition filter_subtask :: "feedback_level \<Rightarrow> json \<Rightarrow> json res" where
  "filter_subtask level sub =
     (case sub of
        JDict d \<Rightarrow>
          res_bind (lookup d ''idx'') (\<lambda>idx.
          res_bind (json_iter (get_default d ''testcases'' (JList []))) (\<lambda>tcs.
          res_bind (res_map (filter_testcase level) tcs) (\<lambda>filtered.
            Inr (JDict ([(''idx'', idx)] @
              copy_keys [''score_fraction'', ''score'', ''max_score'', ''zeroed_by_dependency''] d @
              [(''testcases'', JList (concat filtered))])))))
      | _ \<Rightarrow> Inl TypeError)"

definition group_get_json_details :: "feedback_level \<Rightarrow> json \<Rightarrow> json res" where
  "group_get_json_details level score_details =
     (case score_details of
        JList subtasks \<Rightarrow> res_bind (res_map (filter_subtask level) subtasks) (\<lambda>l. Inr (JList l))
      | _ \<Rightarrow> Inr score_details)"


section \<open>Sum\<close>

record score_type_sum =
  ss_parameters :: rat
  ss_public_testcases :: "(string, bool) dict"
  ss_max_score :: rat
  ss_max_public_score :: rat

definition sum_max_scores :: "rat \<Rightarrow> (string, bool) dict \<Rightarrow> rat \<times> rat" where
  "sum_max_scores parameters public_testcases =
     foldl (\<lambda>(score, public_score) (_, public).
       (score + parameters, if public then public_score + parameters else public_score)) (0, 0)
       public_testcases"

text \<open>The constructor: without testcases the parameter is never used, so it may be anything.\<close>

definition score_type_sum_init :: "json \<Rightarrow> (string, bool) dict \<Rightarrow> score_type_sum res" where
  "score_type_sum_init parameters public_testcases =
     (case json_num parameters of
        Inl e \<Rightarrow> if public_testcases = [] then Inr \<lparr>ss_parameters = 0, ss_public_testcases = [],
                   ss_max_score = 0, ss_max_public_score = 0\<rparr> else Inl ValueError
      | Inr p \<Rightarrow> (case sum_max_scores p public_testcases of (m, pm) \<Rightarrow>
          Inr \<lparr>ss_parameters = p, ss_public_testcases = public_testcases,
               ss_max_score = m, ss_max_public_score = pm\<rparr>))"

definition sum_public_outcome :: "score_type_sum \<Rightarrow> rat \<Rightarrow> string" where
  "sum_public_outcome st out =
     (if out \<le> 0 then ''Not correct'' else if ss_parameters st \<le> out then ''Correct''
      else ''Partially correct'')"

definition sum_step ::
  "score_type_sum \<Rightarrow> (string, evaluation) dict \<Rightarrow> rat \<times> json list \<times> rat \<times> json list \<Rightarrow> string \<Rightarrow>
   (rat \<times> json list \<times> rat \<times> json list) res" where
  "sum_step st evaluations acc idx =
     (case acc of (score, testcases, public_score, public_testcases) \<Rightarrow>
        res_bind (lookup evaluations idx) (\<lambda>ev.
        res_bind (float_of (ev_outcome ev)) (\<lambda>out.
        res_bind (lookup (ss_public_testcases st) idx) (\<lambda>public.
          let this_score = out * ss_parameters st;
              entry = JDict [(''idx'', JStr idx), (''outcome'', JStr (sum_public_outcome st this_score)),
                (''text'', JList (map JStr (ev_text ev))), (''time'', json_rat_option (ev_execution_time ev)),
                (''memory'', json_int_option (ev_execution_memory ev))]
          in Inr (score + this_score, testcases @ [entry],
               if public then public_score + this_score else public_score,
               public_testcases @ [if public then entry else JDict [(''idx'', JStr idx)]])))))"

definition sum_compute_score ::
  "score_type_sum \<Rightarrow> submission_result \<Rightarrow> (rat \<times> json \<times> rat \<times> json) res" where
  "sum_compute_score st sr =
     (if \<not> sr_evaluated sr then Inr (0, JList [], 0, JList [])
      else res_bind (res_fold (sum_step st (evaluations_of sr)) (0, [], 0, [])
             (sort (dict_keys (ss_public_testcases st))))
        (\<lambda>(score, testcases, public_score, public_testcases).
           Inr (score, JList testcases, public_score, JList public_testcases)))"

definition sum_filter_testcase :: "feedback_level \<Rightarrow> json \<Rightarrow> json res" where
  "sum_filter_testcase level tc =
     (case tc of
        JDict d \<Rightarrow>
          (case (dict_get d ''outcome'', dict_get d ''text'') of
             (Some out, Some text) \<Rightarrow>
               res_bind (lookup d ''idx'') (\<lambda>idx.
                 Inr (JDict ([(''idx'', idx), (''outcome'', out), (''text'', text)] @
                   (if level = FEEDBACK_LEVEL_FULL then copy_keys [''time'', ''memory''] d else []))))
           | _ \<Rightarrow> Inr (JDict [(''idx'', get_default d ''idx'' JNull)]))
      | _ \<Rightarrow> Inl TypeError)"

definition sum_get_json_details :: "feedback_level \<Rightarrow> json \<Rightarrow> json res" where
  "sum_get_json_details level score_details =
     (case score_details of
        JList tcs \<Rightarrow> res_bind (res_map (sum_filter_testcase level) tcs) (\<lambda>l. Inr (JList l))
      | _ \<Rightarrow> Inr score_details)"

section \<open>The reductions meet the gate's contract\<close>

lemma foldl_mult: "foldl (*) x xs = x * prod_list (xs :: rat list)"
  by (induction xs arbitrary: x) (auto simp: mult.assoc)

lemma group_mul_reduce_eq: "xs \<noteq> [] \<Longrightarrow> group_mul_reduce xs p = Inr (prod_list xs)"
  by (cases xs) (auto simp: group_mul_reduce_def foldl_mult)

lemma prod_list_nonneg: "(\<forall>x \<in> set xs. 0 \<le> x) \<Longrightarrow> 0 \<le> prod_list (xs :: rat list)"
  by (induction xs) auto

lemma prod_list_zero: "(\<forall>x \<in> set xs. 0 \<le> x) \<Longrightarrow> prod_list xs \<le> 0 \<longleftrightarrow> (0 :: rat) \<in> set xs"
  by (induction xs) (auto simp: mult_le_0_iff prod_list_nonneg)

lemma all_within_True:
  "all_within t xs = Inr True \<Longrightarrow> \<forall>x \<in> set xs. 0 < x"
  by (induction xs) (auto simp: within_threshold_def split: if_splits)

lemma all_within_iff:
  assumes "json_num t = Inr v"
  shows "all_within t xs = Inr (\<forall>x \<in> set xs. 0 < x \<and> x \<le> v)"
  using assms by (induction xs) (auto simp: within_threshold_def)

lemma subseq_set_subset: "subseq xs ys \<Longrightarrow> set xs \<subseteq> set ys"
  by (auto elim: list_emb_set)

interpretation gmin: gated_reduce group_min_reduce "\<lambda>x. 0 \<le> x"
proof
  fix xs ys :: "rat list" and p a b
  assume "subseq xs ys" "xs \<noteq> []" "group_min_reduce xs p = Inr a" "a \<le> 0" "group_min_reduce ys p = Inr b"
  then have "Min (set ys) \<le> Min (set xs)" "a = Min (set xs)" "b = Min (set ys)"
    by (auto simp: group_min_reduce_def dest: subseq_set_subset intro!: Min_antimono split: if_splits)
  then show "b \<le> 0" using \<open>a \<le> 0\<close> by simp
qed (auto simp: group_min_reduce_def split: if_splits)

interpretation gmul: gated_reduce group_mul_reduce "\<lambda>x. 0 \<le> x"
proof
  fix xs ys :: "rat list" and p a b
  assume s: "subseq xs ys" and xs: "xs \<noteq> []" and pos: "\<forall>y \<in> set ys. 0 \<le> y"
    and r: "group_mul_reduce xs p = Inr a" "a \<le> 0" "group_mul_reduce ys p = Inr b"
  have "set xs \<subseteq> set ys" "ys \<noteq> []" using s xs by (auto dest: subseq_set_subset)
  moreover have "(0 :: rat) \<in> set xs"
    using r xs pos calculation by (auto simp: group_mul_reduce_eq prod_list_zero subset_iff)
  ultimately show "b \<le> 0" using r pos by (auto simp: group_mul_reduce_eq prod_list_zero)
qed (auto simp: group_mul_reduce_def split: list.splits)

lemma threshold_number:
  assumes "group_threshold_reduce xs p = Inr a" "x \<in> set xs" "\<forall>x \<in> set xs. 0 < x"
  obtains t v where "threshold_of p = Inr t" "json_num t = Inr v"
proof -
  obtain t b where t: "threshold_of p = Inr t" "all_within t xs = Inr b"
    using assms(1) by (auto simp: group_threshold_reduce_def)
  obtain y ys where "xs = y # ys" using assms(2) by (cases xs) auto
  then show ?thesis using t assms(3) that by (auto simp: within_threshold_def)
qed

interpretation gthr: gated_reduce group_threshold_reduce "\<lambda>x. 0 \<le> x"
proof
  fix p a and xs :: "rat list"
  assume "group_threshold_reduce [1] p = Inr a"
  then obtain t v where "threshold_of p = Inr t" "json_num t = Inr v" by (rule threshold_number) auto
  then show "\<exists>b. group_threshold_reduce xs p = Inr b"
    by (auto simp: group_threshold_reduce_def all_within_iff)
next
  fix xs ys :: "rat list" and p a b
  assume s: "subseq xs ys" and xs: "xs \<noteq> []"
    and r: "group_threshold_reduce xs p = Inr a" "a \<le> 0" "group_threshold_reduce ys p = Inr b"
  show "b \<le> 0"
  proof (rule ccontr)
    assume "\<not> b \<le> 0"
    then obtain t where t: "threshold_of p = Inr t" "all_within t ys = Inr True"
      using r(3) by (auto simp: group_threshold_reduce_def split: if_splits)
    obtain y where "y \<in> set ys" using s xs by (cases ys) auto
    then obtain v where v: "json_num t = Inr v"
      using threshold_number [OF r(3)] all_within_True [OF t(2)] t(1) by (metis Inr_inject)
    have "all_within t xs = Inr True"
      using t(2) subseq_set_subset [OF s] by (auto simp: all_within_iff [OF v])
    then show False using r(1,2) t(1) by (simp add: group_threshold_reduce_def)
  qed
qed (auto simp: group_threshold_reduce_def)


lemma gated_group_reduce: "gated_reduce (group_reduce kind) (\<lambda>x. 0 \<le> x)"
  by (cases kind)
    (simp_all add: group_reduce_def gmin.gated_reduce_axioms gmul.gated_reduce_axioms gthr.gated_reduce_axioms)

interpretation gr: gated_reduce "group_reduce kind" "\<lambda>x. 0 \<le> x" for kind
  by (rule gated_group_reduce)

section \<open>What the constructor guarantees\<close>

lemma retrieve_length:
  "retrieve_target_testcases re_match ps pub = Inr targets \<Longrightarrow> length targets = length ps"
proof -
  have slices: "length (slice_targets xs c ts) = length ts" for xs c ts
    by (induction ts arbitrary: c) auto
  assume "retrieve_target_testcases re_match ps pub = Inr targets"
  then show ?thesis
    by (auto simp: retrieve_target_testcases_def Let_def slices dest!: res_map_Inr_length split: if_splits)
qed

lemma max_scores_step_Inr:
  "max_scores_step prec pub targets (a, b, h) (n, q) = Inr r \<Longrightarrow>
   \<exists>m pb. get_max_score prec q = Inr m \<and> all_public pub (targets ! n) = Inr pb \<and>
     r = (a + m, if pb then b + m else b, h @ [(n, m)])"
  by (cases "n < length targets"; cases "get_max_score prec q"; cases "all_public pub (targets ! n)")
    (simp_all add: max_scores_step_def py_nth_def)

lemma max_scores_fold:
  assumes "res_fold (max_scores_step prec pub targets) (a, b, h) (enumerate n ps) = Inr (s, p, h')"
  shows "\<exists>ms bs. length ms = length ps \<and> length bs = length ps \<and>
    (\<forall>i < length ps. get_max_score prec (ps ! i) = Inr (ms ! i) \<and> all_public pub (targets ! (n + i)) = Inr (bs ! i)) \<and>
    s = a + sum_list ms \<and> p = b + sum_list (map (\<lambda>(m, b). if b then m else 0) (zip ms bs))"
  using assms
proof (induction ps arbitrary: a b h n)
  case Nil
  then show ?case by simp
next
  case (Cons q ps)
  obtain r where r: "max_scores_step prec pub targets (a, b, h) (n, q) = Inr r"
    "res_fold (max_scores_step prec pub targets) r (enumerate (Suc n) ps) = Inr (s, p, h')"
    using Cons.prems by auto
  then obtain m pb where m: "get_max_score prec q = Inr m" "all_public pub (targets ! n) = Inr pb"
    and rest: "res_fold (max_scores_step prec pub targets) (a + m, if pb then b + m else b, h @ [(n, m)])
      (enumerate (Suc n) ps) = Inr (s, p, h')"
    using max_scores_step_Inr [OF r(1)] by blast
  obtain ms bs where ms: "length ms = length ps" "length bs = length ps"
    "\<forall>i < length ps. get_max_score prec (ps ! i) = Inr (ms ! i) \<and> all_public pub (targets ! (Suc n + i)) = Inr (bs ! i)"
    "s = a + m + sum_list ms"
    "p = (if pb then b + m else b) + sum_list (map (\<lambda>(m, b). if b then m else 0) (zip ms bs))"
    using Cons.IH [OF rest] by blast
  have "get_max_score prec ((q # ps) ! i) = Inr ((m # ms) ! i) \<and> all_public pub (targets ! (n + i)) = Inr ((pb # bs) ! i)"
    if "i < length (q # ps)" for i
    using ms(3) m that by (cases i) auto
  then show ?case using ms(1,2,4,5) by (intro exI [of _ "m # ms"] exI [of _ "pb # bs"]) auto
qed

text \<open>A group score type object as the constructor leaves it.\<close>

definition group_built ::
  "(string \<Rightarrow> string \<Rightarrow> bool option) \<Rightarrow> score_type_group \<Rightarrow> string list list \<Rightarrow> rat list \<Rightarrow> bool list \<Rightarrow> bool" where
  "group_built re_match st targets ms bs \<longleftrightarrow>
     sg_targets re_match st = Inr targets \<and> length targets = length (sg_parameters st) \<and>
     length ms = length (sg_parameters st) \<and> length bs = length (sg_parameters st) \<and>
     (\<forall>i < length (sg_parameters st).
        get_max_score (sg_score_precision st) (sg_parameters st ! i) = Inr (ms ! i) \<and>
        all_public (sg_public_testcases st) (targets ! i) = Inr (bs ! i)) \<and>
     sg_max_score st = sum_list ms \<and>
     sg_max_public_score st = sum_list (map (\<lambda>(m, b). if b then m else 0) (zip ms bs)) \<and>
     parse_dependencies (sg_parameters st) = Inr (sg_dependencies st) \<and>
     length (sg_hide_dependency st) = length (sg_parameters st)"

lemma score_type_group_init_built:
  assumes "score_type_group_init re_match kind parameters pub prec = Inr st"
  obtains targets ms bs where "group_built re_match st targets ms bs" "sg_kind st = kind"
    "sg_public_testcases st = pub" "sg_score_precision st = prec" "json_iter parameters = Inr (sg_parameters st)"
proof -
  obtain ps m pm hd dependencies hide where it: "json_iter parameters = Inr ps"
    "group_max_scores re_match prec ps pub = Inr (m, pm, hd)"
    "parse_dependencies ps = Inr dependencies" "parse_hide_dependency ps = Inr hide"
    and st: "st = \<lparr>sg_kind = kind, sg_parameters = ps, sg_public_testcases = pub,
         sg_score_precision = prec, sg_max_score = m, sg_max_public_score = pm, sg_ranking_headers = hd,
         sg_dependencies = dependencies, sg_hide_dependency = hide\<rparr>"
    using assms unfolding score_type_group_init_def by (auto split: sum.splits prod.splits)
  obtain targets where t: "retrieve_target_testcases re_match ps pub = Inr targets"
    "res_fold (max_scores_step prec pub targets) (0, 0, []) (enumerate 0 ps) = Inr (m, pm, hd)"
    using it(2) by (auto simp: group_max_scores_def)
  obtain ms bs where ms: "length ms = length ps" "length bs = length ps"
    "\<forall>i < length ps. get_max_score prec (ps ! i) = Inr (ms ! i) \<and> all_public pub (targets ! i) = Inr (bs ! i)"
    "m = sum_list ms" "pm = sum_list (map (\<lambda>(m, b). if b then m else 0) (zip ms bs))"
    using max_scores_fold [OF t(2)] by auto
  have "length hide = length ps"
    using it(4) res_map_Inr_length unfolding parse_hide_dependency_def by blast
  then have "group_built re_match st targets ms bs"
    using st it t ms retrieve_length [OF t(1)] by (simp add: group_built_def sg_targets_def)
  then show ?thesis using that st it(1) by simp
qed

lemma built_dependencies:
  assumes "group_built re_match st targets ms bs"
  shows "deps_in_range (sg_dependencies st)" "length (sg_dependencies st) = length (sg_parameters st)"
    "acyclic (dep_rel (sg_dependencies st))"
proof -
  have "parse_dependencies (sg_parameters st) = Inr (sg_dependencies st)"
    using assms by (simp add: group_built_def)
  then have p: "res_map (\<lambda>(i, p). subtask_dependencies (length (sg_parameters st)) i p)
      (enumerate 0 (sg_parameters st)) = Inr (sg_dependencies st)"
    "\<exists>ord. topological_order (sg_dependencies st) = Inr ord"
    by (auto simp: parse_dependencies_def)
  note d = parsed_deps [OF p(1)]
  show "deps_in_range (sg_dependencies st)" "length (sg_dependencies st) = length (sg_parameters st)"
    using d(1,2) by auto
  show "acyclic (dep_rel (sg_dependencies st))" using acyclic_iff_ordered [OF d(2)] p(2) by blast
qed


section \<open>What a submission scores\<close>

definition final_value :: "submission_result \<Rightarrow> string \<Rightarrow> rat" where
  "final_value sr c =
     (case dict_get (evaluations_of sr) c of None \<Rightarrow> 0 | Some ev \<Rightarrow> outcome_or_zero (ev_outcome ev))"

text \<open>
  A submission that can be scored: evaluated, every testcase of every subtask has a public flag
  and an evaluation whose outcome is a number from 0 to 1, no subtask is empty, and the parameters
  suit the reduction.
\<close>

definition scorable :: "score_type_group \<Rightarrow> string list list \<Rightarrow> submission_result \<Rightarrow> bool" where
  "scorable st targets sr \<longleftrightarrow> sr_evaluated sr \<and>
     (\<forall>target \<in> set targets. target \<noteq> [] \<and> (\<forall>c \<in> set target. dict_get (sg_public_testcases st) c \<noteq> None \<and>
        (\<exists>ev r. dict_get (evaluations_of sr) c = Some ev \<and> ev_outcome ev = Outcome r \<and> 0 \<le> r \<and> r \<le> 1))) \<and>
     (\<forall>p \<in> set (sg_parameters st). \<exists>a. group_reduce (sg_kind st) [1] p = Inr a)"

definition own_fraction :: "score_type_group \<Rightarrow> string list list \<Rightarrow> submission_result \<Rightarrow> nat \<Rightarrow> rat" where
  "own_fraction st targets sr i =
     (case group_reduce (sg_kind st) (map (final_value sr) (targets ! i)) (sg_parameters st ! i) of
        Inl _ \<Rightarrow> 0 | Inr a \<Rightarrow> a)"

text \<open>The worth of a subtask as a fraction, after the dependencies.\<close>

definition worth :: "score_type_group \<Rightarrow> string list list \<Rightarrow> submission_result \<Rightarrow> nat \<Rightarrow> rat" where
  "worth st targets sr i =
     (if deps_pass (sg_dependencies st) (own_fraction st targets sr) i then own_fraction st targets sr i else 0)"

lemma reduce_in_unit:
  assumes "xs \<noteq> []" "\<forall>x \<in> set xs. 0 \<le> x \<and> x \<le> 1" "group_reduce kind xs p = Inr a"
  shows "0 \<le> a" "a \<le> 1"
proof -
  have prod: "0 \<le> prod_list ys \<and> prod_list ys \<le> 1" if "\<forall>x \<in> set ys. 0 \<le> x \<and> x \<le> 1" for ys :: "rat list"
    using that by (induction ys) (auto intro: mult_le_one)
  have "Min (set xs) \<in> set xs" using assms(1) by (intro Min_in) auto
  then have "0 \<le> a \<and> a \<le> 1"
    using assms prod [of xs]
    by (cases kind) (auto simp: group_reduce_def group_min_reduce_def group_mul_reduce_eq group_threshold_reduce_def)
  then show "0 \<le> a" "a \<le> 1" by auto
qed

lemma scorable_value:
  assumes "scorable st targets sr" "target \<in> set targets" "c \<in> set target"
  shows "outcome_of (evaluations_of sr) c = Inr (final_value sr c)" "0 \<le> final_value sr c" "final_value sr c \<le> 1"
  using assms by (fastforce simp: scorable_def outcome_of_def lookup_def final_value_def)+

lemma own_fraction_reduce:
  assumes built: "group_built re_match st targets ms bs" and sc: "scorable st targets sr"
    and i: "i < length (sg_parameters st)"
  shows "group_reduce (sg_kind st) (map (final_value sr) (targets ! i)) (sg_parameters st ! i) =
      Inr (own_fraction st targets sr i)"
    "0 \<le> own_fraction st targets sr i" "own_fraction st targets sr i \<le> 1"
proof -
  have t: "targets ! i \<in> set targets" using built i by (simp add: group_built_def)
  have ne: "map (final_value sr) (targets ! i) \<noteq> []" using sc t by (auto simp: scorable_def)
  obtain a where "group_reduce (sg_kind st) [1] (sg_parameters st ! i) = Inr a"
    using sc nth_mem [OF i] unfolding scorable_def by blast
  then obtain b where b: "group_reduce (sg_kind st) (map (final_value sr) (targets ! i)) (sg_parameters st ! i) = Inr b"
    using gr.reduce_total ne by blast
  then show "group_reduce (sg_kind st) (map (final_value sr) (targets ! i)) (sg_parameters st ! i) =
      Inr (own_fraction st targets sr i)" by (simp add: own_fraction_def)
  have "\<forall>x \<in> set (map (final_value sr) (targets ! i)). 0 \<le> x \<and> x \<le> 1"
    using scorable_value [OF sc t] by auto
  then show "0 \<le> own_fraction st targets sr i" "own_fraction st targets sr i \<le> 1"
    using reduce_in_unit [OF ne _ b] b by (auto simp: own_fraction_def)
qed

lemma worth_in_unit:
  assumes "group_built re_match st targets ms bs" "scorable st targets sr" "i < length (sg_parameters st)"
  shows "0 \<le> worth st targets sr i" "worth st targets sr i \<le> 1"
  using own_fraction_reduce [OF assms] by (auto simp: worth_def)

lemma no_deps_zero_cause: "\<not> list_ex (\<lambda>ds. ds \<noteq> []) deps \<Longrightarrow> i < length deps \<Longrightarrow> zero_cause deps own i = None"
  by (auto simp: zero_cause_def deps_pass_def list_ex_iff dest!: bspec [OF _ nth_mem])

lemma subtask_zeroes_eq:
  assumes built: "group_built re_match st targets ms bs" and sc: "scorable st targets sr"
  shows "subtask_zeroes st (evaluations_of sr) targets =
    Inr (map (zero_cause (sg_dependencies st) (own_fraction st targets sr)) [0..<length (sg_parameters st)])"
proof -
  let ?n = "length (sg_parameters st)" and ?own = "own_fraction st targets sr"
  note d = built_dependencies [OF built]
  have len: "length targets = ?n" using built by (simp add: group_built_def)
  have z: "zip targets (sg_parameters st) = map (\<lambda>i. (targets ! i, sg_parameters st ! i)) [0..<?n]"
    using len by (intro nth_equalityI) auto
  have outs: "res_map (outcome_of (evaluations_of sr)) (targets ! i) = Inr (map (final_value sr) (targets ! i))"
    if "i < ?n" for i
    using scorable_value(1) [OF sc, of "targets ! i"] that len by (intro res_map_total) auto
  have map_map: "res_map f (map g xs) = res_map (\<lambda>x. f (g x)) xs" for f :: "string list \<times> json \<Rightarrow> rat res" and g and xs :: "nat list"
    by (induction xs) auto
  have fr: "res_map (\<lambda>(target, parameter). res_bind (res_map (outcome_of (evaluations_of sr)) target)
      (\<lambda>outcomes. group_reduce (sg_kind st) outcomes parameter)) (zip targets (sg_parameters st)) = Inr (map ?own [0..<?n])"
    unfolding z map_map using outs own_fraction_reduce(1) [OF built sc] by (intro res_map_total) auto
  obtain ord where ord: "topological_order (sg_dependencies st) = Inr ord"
    using acyclic_iff_ordered [OF d(1)] d(3) by blast
  have "zeroed_by (map ?own [0..<?n]) (sg_dependencies st) =
      Inr (map (zero_cause (sg_dependencies st) (\<lambda>i. map ?own [0..<?n] ! i)) [0..<?n])"
    using zeroed_by_correct [OF d(1) ord] d(2) by simp
  moreover have "zero_cause (sg_dependencies st) (\<lambda>i. map ?own [0..<?n] ! i) i = zero_cause (sg_dependencies st) ?own i"
    if "i < ?n" for i
  proof -
    have "passes (sg_dependencies st) (\<lambda>i. map ?own [0..<?n] ! i) j = passes (sg_dependencies st) ?own j"
      if "j < ?n" for j
      using that d(1,2) dep_rel_wf [OF ord d(1)] by (intro passes_cong) auto
    then have "passes (sg_dependencies st) (\<lambda>i. map ?own [0..<?n] ! i) j = passes (sg_dependencies st) ?own j"
      if "j \<in> set (sg_dependencies st ! i)" for j
      using dep_in_range [OF d(1) _ that] d(2) \<open>i < ?n\<close> by simp
    then show ?thesis unfolding zero_cause_def deps_pass_def by (auto intro!: arg_cong [where f = Min])
  qed
  ultimately have zb: "zeroed_by (map ?own [0..<?n]) (sg_dependencies st) =
      Inr (map (zero_cause (sg_dependencies st) ?own) [0..<?n])" by simp
  show ?thesis
  proof (cases "list_ex (\<lambda>deps. deps \<noteq> []) (sg_dependencies st)")
    case True
    then show ?thesis using fr zb by (simp add: subtask_zeroes_def)
  next
    case False
    then have "map (\<lambda>_. None) (sg_parameters st) = map (zero_cause (sg_dependencies st) ?own) [0..<?n]"
      using no_deps_zero_cause [OF False] d(2) by (intro nth_equalityI) auto
    then show ?thesis using False by (simp add: subtask_zeroes_def)
  qed
qed


text \<open>One subtask: the computation succeeds, and what its score is.\<close>

lemma probe_public_outcome:
  assumes "group_reduce kind [1] p = Inr a"
  shows "\<exists>s. get_public_outcome kind r p = Inr s"
proof (cases kind)
  case GroupThreshold
  then obtain t v where "threshold_of p = Inr t" "json_num t = Inr v"
    using assms threshold_number [of "[1]" p a 1] by (auto simp: group_reduce_def)
  then show ?thesis
    using GroupThreshold
    by (intro res_okI) (simp add: get_public_outcome_def threshold_public_outcome_def within_threshold_def)
qed (auto simp: get_public_outcome_def)

lemma testcase_row_total:
  assumes sc: "scorable st targets sr" and c: "target \<in> set targets" "c \<in> set target"
    and p: "p \<in> set (sg_parameters st)"
  obtains row where "testcase_row st sr (evaluations_of sr) p c = Inr row" "row_score row = final_value sr c"
    "row_idx row = c"
proof -
  obtain ev r b where e: "dict_get (evaluations_of sr) c = Some ev" "ev_outcome ev = Outcome r"
    "dict_get (sg_public_testcases st) c = Some b"
    using sc c unfolding scorable_def by blast
  obtain a where "group_reduce (sg_kind st) [1] p = Inr a" using sc p by (auto simp: scorable_def)
  then obtain s where s: "get_public_outcome (sg_kind st) r p = Inr s" using probe_public_outcome by blast
  show ?thesis
    using e s by (intro that [OF _ _]) (auto simp: testcase_row_def lookup_def final_value_def)
qed

lemma res_map_witness:
  assumes "\<And>x. x \<in> set xs \<Longrightarrow> \<exists>y. f x = Inr y \<and> g y = h x"
  obtains ys where "res_map f xs = Inr ys" "map g ys = map h xs"
proof -
  have "\<exists>ys. res_map f xs = Inr ys \<and> map g ys = map h xs"
    using assms
  proof (induction xs)
    case (Cons x xs)
    obtain y where y: "f x = Inr y" "g y = h x" using Cons.prems [of x] by auto
    obtain ys where "res_map f xs = Inr ys" "map g ys = map h xs" using Cons by auto
    with y show ?case by (intro exI [of _ "y # ys"]) simp
  qed simp
  then show ?thesis using that by blast
qed

lemma any_public_total: "(\<forall>c \<in> set cs. dict_get pub c \<noteq> None) \<Longrightarrow> \<exists>b. any_public pub cs = Inr b"
proof (intro res_okI, induction cs)
  case (Cons c cs)
  then show ?case by (auto simp: lookup_def)
qed simp

lemma bare_entry: "\<exists>j. bare_if_skipped (testcase_entry restrict row) = Inr j"
  by (intro res_okI)
    (simp add: bare_if_skipped_def testcase_entry_def first_is_skip_message_def lookup_def Let_def
      split: prod.split)

lemma bare_public_entry: "\<exists>j. bare_if_skipped (public_entry restrict row) = Inr j"
  using bare_entry [of restrict row]
  by (auto simp: public_entry_def bare_if_skipped_def first_is_skip_message_def)

lemma without_messages_total:
  assumes "\<And>row. \<exists>j. bare_if_skipped (f row) = Inr j"
    and "dict_get d ''testcases'' = Some (JList (map f rows))"
  shows "\<exists>j. without_dependency_messages (JDict d) = Inr j"
proof -
  have "\<exists>js. res_map bare_if_skipped (map f rows) = Inr js"
  proof (induction rows)
    case (Cons row rows)
    then show ?case using assms(1) [of row] by auto
  qed simp
  then show ?thesis using assms(2) by (auto simp: without_dependency_messages_def lookup_def)
qed

lemma always_show_total: "get_max_score prec p = Inr m \<Longrightarrow> \<exists>b. get_always_show_testcases p = Inr b"
  by (cases p) (auto simp: get_max_score_def get_always_show_testcases_def)


lemma score_subtask_eq:
  assumes built: "group_built re_match st targets ms bs" and sc: "scorable st targets sr"
    and i: "i < length (sg_parameters st)"
  shows "\<exists>full public. score_subtask st sr (evaluations_of sr)
      (zero_cause (sg_dependencies st) (own_fraction st targets sr) i) i (sg_parameters st ! i) (targets ! i) hide =
    Inr (py_round (worth st targets sr i * ms ! i) (sr_score_precision sr),
      if bs ! i then py_round (worth st targets sr i * ms ! i) (sr_score_precision sr) else 0, full, public)"
proof -
  let ?p = "sg_parameters st ! i" and ?t = "targets ! i"
  let ?z = "zero_cause (sg_dependencies st) (own_fraction st targets sr) i"
  have t: "?t \<in> set targets" and b: "get_max_score (sg_score_precision st) ?p = Inr (ms ! i)"
    "all_public (sg_public_testcases st) ?t = Inr (bs ! i)"
    using built i by (auto simp: group_built_def)
  have "\<exists>row. testcase_row st sr (evaluations_of sr) ?p c = Inr row \<and> row_score row = final_value sr c"
    if "c \<in> set ?t" for c
    using testcase_row_total [OF sc t that nth_mem [OF i]] by blast
  then obtain rows where rows: "res_map (testcase_row st sr (evaluations_of sr) ?p) ?t = Inr rows"
    "map row_score rows = map (final_value sr) ?t"
    using res_map_witness [of ?t "testcase_row st sr (evaluations_of sr) ?p" row_score "final_value sr"] by blast
  note own = own_fraction_reduce(1) [OF built sc i]
  obtain show_all where show_all: "get_always_show_testcases ?p = Inr show_all"
    using always_show_total [OF b(1)] by blast
  obtain any_pub where any: "any_public (sg_public_testcases st) ?t = Inr any_pub"
    using any_public_total [of ?t "sg_public_testcases st"] sc t by (auto simp: scorable_def)
  have w: "(if ?z \<noteq> None then 0 else own_fraction st targets sr i) = worth st targets sr i"
    by (simp add: worth_def zero_cause_def)
  let ?full = "\<lambda>restrict nt. [(''idx'', JInt (int i)), (''score_fraction'', JFloat (worth st targets sr i)),
      (''score'', JFloat (py_round (worth st targets sr i * ms ! i) (sr_score_precision sr))),
      (''max_score'', JFloat (ms ! i)), (''testcases'', JList (map (testcase_entry restrict) rows))] @ nt"
  let ?part = "\<lambda>restrict nt. [(''idx'', JInt (int i)),
      (''testcases'', JList (map (public_entry restrict) rows))] @ nt"
  have hide_full: "\<not> isl (without_dependency_messages (JDict (?full restrict nt)))" for restrict nt
    using without_messages_total [OF bare_entry, of "?full restrict nt"] by fastforce
  have hide_part: "\<not> isl (without_dependency_messages (JDict (?part restrict nt)))" for restrict nt
    using without_messages_total [OF bare_public_entry, of "?part restrict nt"] by fastforce
  have pick: "\<exists>full public. res_bind (if h then without_dependency_messages x else Inr x)
      (\<lambda>y. Inr (a, b, f, y)) = (Inr (a, b, full, public) :: (rat \<times> rat \<times> json \<times> json) res)"
    if "\<not> isl (without_dependency_messages x)" for h x a b f
    using res_okI [OF that] by auto
  show ?thesis
    unfolding score_subtask_def rows(1) res_bind.simps rows(2) own b show_all any Let_def w
    by (rule pick) (use hide_full hide_part in simp)
qed


definition subtask_score :: "score_type_group \<Rightarrow> string list list \<Rightarrow> rat list \<Rightarrow> submission_result \<Rightarrow> nat \<Rightarrow> rat" where
  "subtask_score st targets ms sr i = py_round (worth st targets sr i * ms ! i) (sr_score_precision sr)"

lemma group_compute_score_eq:
  assumes built: "group_built re_match st targets ms bs" and sc: "scorable st targets sr"
  defines "r \<equiv> subtask_score st targets ms sr"
  shows "\<exists>full public. group_compute_score re_match st sr =
    Inr (sum_list (map r [0..<length (sg_parameters st)]), full,
      sum_list (map (\<lambda>i. if bs ! i then r i else 0) [0..<length (sg_parameters st)]), public,
      map r [0..<length (sg_parameters st)])"
proof -
  let ?n = "length (sg_parameters st)" and ?evs = "evaluations_of sr"
  let ?zs = "map (zero_cause (sg_dependencies st) (own_fraction st targets sr)) [0..<?n]"
  let ?f = "\<lambda>(st_idx, parameter). res_bind (py_nth targets st_idx) (\<lambda>target.
     res_bind (py_nth ?zs st_idx) (\<lambda>z. res_bind (py_nth (sg_hide_dependency st) st_idx) (\<lambda>hide.
       score_subtask st sr ?evs z st_idx parameter target hide)))"
  let ?key = "\<lambda>(s, p, full, public). (s, p)"
  have len: "sg_targets re_match st = Inr targets" "length targets = ?n" "length (sg_hide_dependency st) = ?n"
    using built by (auto simp: group_built_def)
  have "\<exists>y. ?f e = Inr y \<and> ?key y = (r (fst e), if bs ! fst e then r (fst e) else 0)"
    if e: "e \<in> set (enumerate 0 (sg_parameters st))" for e
  proof -
    define i where "i = fst e"
    have "fst e < ?n" "snd e = sg_parameters st ! fst e" using e unfolding in_set_enumerate_eq by simp_all
    then have i: "e = (i, sg_parameters st ! i)" "i < ?n" by (auto simp: i_def prod_eq_iff)
    then show ?thesis
      using score_subtask_eq [OF built sc i(2), of "sg_hide_dependency st ! i"] len
      by (auto simp: r_def subtask_score_def)
  qed
  then obtain ys where ys: "res_map ?f (enumerate 0 (sg_parameters st)) = Inr ys"
    "map ?key ys = map (\<lambda>e. (r (fst e), if bs ! fst e then r (fst e) else 0)) (enumerate 0 (sg_parameters st))"
    using res_map_witness [of "enumerate 0 (sg_parameters st)" ?f ?key
        "\<lambda>e. (r (fst e), if bs ! fst e then r (fst e) else 0)"] by blast
  have "map (\<lambda>e. (r (fst e), if bs ! fst e then r (fst e) else 0)) (enumerate 0 (sg_parameters st)) =
      map (\<lambda>i. (r i, if bs ! i then r i else 0)) (map fst (enumerate 0 (sg_parameters st)))"
    by (simp only: map_map o_def)
  then have key: "map ?key ys = map (\<lambda>i. (r i, if bs ! i then r i else 0)) [0..<?n]"
    using ys(2) by simp
  have "map (\<lambda>(s, _). s) ys = map fst (map ?key ys)" "map (\<lambda>(_, p, _, _). p) ys = map snd (map ?key ys)"
    by (auto simp: split_beta)
  then have parts: "map (\<lambda>(s, _). s) ys = map r [0..<?n]"
    "map (\<lambda>(_, p, _, _). p) ys = map (\<lambda>i. if bs ! i then r i else 0) [0..<?n]"
    unfolding key by (simp_all add: o_def)
  have "py_round (sum_list (map r [0..<?n])) (sr_score_precision sr) = sum_list (map r [0..<?n])"
    by (rule py_round_fixed_sum) (auto simp: r_def subtask_score_def)
  moreover have "sr_evaluated sr" using sc by (simp add: scorable_def)
  ultimately show ?thesis
    unfolding group_compute_score_def len(1) subtask_zeroes_eq [OF built sc] res_bind.simps Let_def ys(1) parts
    by simp
qed

section \<open>Properties\<close>

lemma subtask_score_bounds:
  assumes built: "group_built re_match st targets ms bs" and sc: "scorable st targets sr"
    and i: "i < length (sg_parameters st)" and m: "0 \<le> ms ! i"
    and prec: "sr_score_precision sr = sg_score_precision st"
  shows "0 \<le> subtask_score st targets ms sr i" "subtask_score st targets ms sr i \<le> ms ! i"
proof -
  note w = worth_in_unit [OF built sc i]
  show "0 \<le> subtask_score st targets ms sr i" using w(1) m by (simp add: subtask_score_def py_round_nonneg)
  have "py_round (ms ! i) (sr_score_precision sr) = ms ! i"
    using built i prec by (auto simp: group_built_def get_max_score_def split: if_splits)
  moreover have "worth st targets sr i * ms ! i \<le> ms ! i" using w m by (simp add: mult_left_le_one_le)
  ultimately show "subtask_score st targets ms sr i \<le> ms ! i"
    using py_round_mono [of "worth st targets sr i * ms ! i" "ms ! i" "sr_score_precision sr"]
    by (simp add: subtask_score_def)
qed

lemma sum_list_index: "length xs = n \<Longrightarrow> sum_list (map f xs) = sum_list (map (\<lambda>i. f (xs ! i)) [0..<n])"
  using map_nth [of xs] by (metis (mono_tags, lifting) list.map_comp map_eq_conv o_def)

text \<open>
  C15. Scores are in range. For every group score type the constructor accepts, with non-negative
  subtask maxima, and every submission that can be scored (see \<open>scorable\<close>), \<^verbatim>\<open>compute_score\<close> does
  return; the score is between 0 and the maximum score that the constructor computed, the public
  score is between 0 and the maximum public score, and not above the score.
\<close>

theorem group_score_in_range:
  assumes "score_type_group_init re_match kind parameters pub prec = Inr st"
    and "sg_targets re_match st = Inr targets" "scorable st targets sr"
    and "sr_score_precision sr = prec"
    and "\<forall>p \<in> set (sg_parameters st). \<forall>m. get_max_score prec p = Inr m \<longrightarrow> 0 \<le> m"
  shows "\<exists>score details public_score public_details ranking.
    group_compute_score re_match st sr = Inr (score, details, public_score, public_details, ranking) \<and>
    0 \<le> public_score \<and> public_score \<le> score \<and> score \<le> sg_max_score st \<and>
    public_score \<le> sg_max_public_score st \<and> score = sum_list ranking"
proof -
  obtain ms bs where built: "group_built re_match st targets ms bs" and prec: "sg_score_precision st = prec"
    using score_type_group_init_built [OF assms(1)] assms(2) by (metis Inr_inject group_built_def)
  let ?n = "length (sg_parameters st)" and ?r = "subtask_score st targets ms sr"
  have m: "get_max_score prec (sg_parameters st ! i) = Inr (ms ! i)" if "i < ?n" for i
    using built that prec by (simp add: group_built_def)
  have r: "0 \<le> ?r i \<and> ?r i \<le> ms ! i" if "i < ?n" for i
  proof -
    have "0 \<le> ms ! i" using assms(5) m [OF that] nth_mem [OF that] by blast
    then show ?thesis using subtask_score_bounds [OF built assms(3) that] assms(4) prec by simp
  qed
  have len: "length ms = ?n" "length (zip ms bs) = ?n" "length bs = ?n" using built by (auto simp: group_built_def)
  have "sum_list (map ?r [0..<?n]) \<le> sum_list (map (\<lambda>i. ms ! i) [0..<?n])"
    using r by (intro sum_list_mono) auto
  also have "\<dots> = sg_max_score st"
    using sum_list_index [OF len(1), of "\<lambda>x. x"] built by (simp add: group_built_def)
  finally have "sum_list (map ?r [0..<?n]) \<le> sg_max_score st" .
  moreover have "sum_list (map (\<lambda>i. if bs ! i then ?r i else 0) [0..<?n]) \<le>
      sum_list (map (\<lambda>i. (\<lambda>(m, b). if b then m else 0) (zip ms bs ! i)) [0..<?n])"
    using r len by (intro sum_list_mono) auto
  moreover have "\<dots> = sg_max_public_score st"
    using sum_list_index [OF len(2), of "\<lambda>(m, b). if b then m else 0"] built by (simp add: group_built_def)
  moreover have "sum_list (map (\<lambda>i. if bs ! i then ?r i else 0) [0..<?n]) \<le> sum_list (map ?r [0..<?n])"
    using r by (intro sum_list_mono) auto
  moreover have "0 \<le> sum_list (map (\<lambda>i. if bs ! i then ?r i else 0) [0..<?n])"
    using r by (intro sum_list_nonneg) auto
  ultimately show ?thesis using group_compute_score_eq [OF built assms(3)] by fastforce
qed


definition no_regexp :: "string \<Rightarrow> string \<Rightarrow> bool option" where
  "no_regexp t tc = None"

definition group_parameters_sample :: json where
  "group_parameters_sample = JList
     [JList [JInt 40, JList [JStr ''a'', JStr ''b'']],
      JDict [(''max_score'', JInt 60), (''testcases'', JList [JStr ''c'']), (''depends_on'', JList [JInt 0])]]"

definition public_sample :: "(string, bool) dict" where
  "public_sample = [(''a'', True), (''b'', False), (''c'', True)]"

definition evaluation_sample :: "string \<Rightarrow> rat \<Rightarrow> evaluation" where
  "evaluation_sample c r = \<lparr>ev_codename = c, ev_outcome = Outcome r, ev_text = [''Output is correct''],
     ev_execution_time = Some (1 / 10), ev_execution_memory = Some 1024\<rparr>"

definition result_sample :: "rat \<Rightarrow> rat \<Rightarrow> rat \<Rightarrow> submission_result" where
  "result_sample a b c = \<lparr>sr_evaluated = True,
     sr_evaluations = [evaluation_sample ''a'' a, evaluation_sample ''b'' b, evaluation_sample ''c'' c],
     sr_time_limit = Some 1, sr_score_precision = 2\<rparr>"

definition group_sample :: "group_kind \<Rightarrow> score_type_group" where
  "group_sample kind = \<lparr>sg_kind = kind,
     sg_parameters = [JList [JInt 40, JList [JStr ''a'', JStr ''b'']],
        JDict [(''max_score'', JInt 60), (''testcases'', JList [JStr ''c'']), (''depends_on'', JList [JInt 0])]],
     sg_public_testcases = public_sample, sg_score_precision = 2, sg_max_score = 100,
     sg_max_public_score = 60, sg_ranking_headers = [(0, 40), (1, 60)],
     sg_dependencies = [[], [0]], sg_hide_dependency = [False, False]\<rparr>"

definition targets_sample :: "string list list" where
  "targets_sample = [[''a'', ''b''], [''c'']]"

lemma group_sample_init:
  "score_type_group_init no_regexp GroupMin group_parameters_sample public_sample 2 = Inr (group_sample GroupMin)"
  by code_simp

lemma group_sample_targets: "sg_targets no_regexp (group_sample GroupMin) = Inr targets_sample"
  by code_simp

lemma result_sample_evaluations:
  "evaluations_of (result_sample a b c) =
     [(''a'', evaluation_sample ''a'' a), (''b'', evaluation_sample ''b'' b), (''c'', evaluation_sample ''c'' c)]"
  by (simp add: evaluations_of_def result_sample_def evaluation_sample_def)

lemma group_sample_scorable:
  assumes "0 \<le> a" "a \<le> 1" "0 \<le> b" "b \<le> 1" "0 \<le> c" "c \<le> 1"
  shows "scorable (group_sample GroupMin) targets_sample (result_sample a b c)"
  using assms
  by (simp add: scorable_def targets_sample_def result_sample_evaluations evaluation_sample_def group_sample_def
      public_sample_def group_reduce_def group_min_reduce_def) (auto simp: result_sample_def)

theorem group_score_in_range_witness:
  "\<exists>score details public_score public_details ranking.
    group_compute_score no_regexp (group_sample GroupMin) (result_sample 1 (1 / 2) 1) =
      Inr (score, details, public_score, public_details, ranking) \<and> 0 \<le> public_score \<and> score \<le> 100"
proof -
  have "get_max_score 2 p = Inr m \<Longrightarrow> 0 \<le> m" if "p \<in> set (sg_parameters (group_sample GroupMin))" for p m
    using that by (auto simp: group_sample_def get_max_score_def split: if_splits)
  then show ?thesis
    using group_score_in_range [OF group_sample_init group_sample_targets group_sample_scorable, of 1 "1 / 2" 1]
    by (fastforce simp: result_sample_def group_sample_def)
qed

subsection \<open>The gate on these score types\<close>

definition group_view_of :: "(string \<Rightarrow> string \<Rightarrow> bool option) \<Rightarrow> score_type_group \<Rightarrow> json group_view" where
  "group_view_of re_match st = \<lparr>gv_parameters = sg_parameters st, gv_reduce = group_reduce (sg_kind st),
     gv_targets = sg_targets re_match st, gv_dependencies = sg_dependencies st\<rparr>"

lemma group_gate_ok:
  assumes built: "group_built re_match st targets ms bs"
    and gate: "subtask_gate_init (group_view_of re_match st) = Inr gate"
  shows "gate_ok gate" "gate_targets gate = targets" "gate_dependencies gate = sg_dependencies st"
    "gate_score_type gate = group_view_of re_match st"
proof -
  note d = built_dependencies [OF built]
  have t: "gv_targets (group_view_of re_match st) = Inr targets" "length targets = length (sg_parameters st)"
    using built by (auto simp: group_built_def group_view_of_def)
  have v: "deps_in_range (gv_dependencies (group_view_of re_match st))"
    "length targets = length (gv_dependencies (group_view_of re_match st))"
    "length (gv_parameters (group_view_of re_match st)) = length (gv_dependencies (group_view_of re_match st))"
    using d t(2) by (simp_all add: group_view_of_def)
  have total: "\<exists>b. gv_reduce (group_view_of re_match st) xs p = Inr b"
    if "p \<in> set (gv_parameters (group_view_of re_match st))" "xs \<noteq> []"
      "gv_reduce (group_view_of re_match st) [1] p = Inr a" for p xs a
    using gr.reduce_total that by (simp add: group_view_of_def)
  note ok = subtask_gate_init_ok [OF gate v(1) t(1) v(2,3) total]
  show "gate_ok gate" "gate_targets gate = targets" "gate_score_type gate = group_view_of re_match st"
    by (rule ok; assumption)+
  show "gate_dependencies gate = sg_dependencies st" using ok(4) by (simp add: group_view_of_def)
qed

lemma statuses_rule:
  assumes "gate_ok gate" "statuses gate outs = Inr (st, bl)" "i < length (gate_dependencies gate)"
  shows "status_rule gate outs st bl i"
  using statuses_run [OF assms(1), of outs] assms(2,3) by (metis Inr_inject prod.inject)

text \<open>The outcomes known so far are those the submission ends with.\<close>

definition extends_known :: "string list list \<Rightarrow> (string, outcome) dict \<Rightarrow> submission_result \<Rightarrow> bool" where
  "extends_known targets outs sr \<longleftrightarrow>
     (\<forall>target \<in> set targets. \<forall>c \<in> set target. \<forall>x. dict_get outs c = Some x \<longrightarrow>
        final_value sr c = outcome_or_zero x)"

lemma scorable_final_agrees:
  assumes built: "group_built re_match st targets ms bs"
    and gate: "subtask_gate_init (group_view_of re_match st) = Inr gate"
    and sc: "scorable st targets sr" and ext: "extends_known targets outs sr"
  shows "final_agrees gate (\<lambda>x. 0 \<le> x) outs (final_value sr) (own_fraction st targets sr)"
proof -
  note g = group_gate_ok [OF built gate]
  note d = built_dependencies [OF built]
  have t: "targets ! i \<in> set targets" if "i < length (sg_parameters st)" for i
    using built that by (simp add: group_built_def)
  have known: "outcome_or_zero x = final_value sr c"
    if "i < length (sg_parameters st)" "c \<in> set (targets ! i)" "dict_get outs c = Some x" for i c x
    using ext t [OF that(1)] that(2,3) by (simp add: extends_known_def)
  show ?thesis
    unfolding final_agrees_def g(2-4)
    using own_fraction_reduce(1) [OF built sc] scorable_value(2) [OF sc t] known d(2)
    by (auto simp: group_view_of_def)
qed

lemma skipping_same_worth:
  assumes built: "group_built re_match st targets ms bs"
    and gate: "subtask_gate_init (group_view_of re_match st) = Inr gate"
    and stat: "statuses gate outs = Inr (status, blocked)"
    and sc: "scorable st targets sr" "scorable st targets sr'"
    and ext: "extends_known targets outs sr" "extends_known targets outs sr'"
    and same: "\<And>c. dict_get (skippable gate left status blocked) c = None \<Longrightarrow> final_value sr c = final_value sr' c"
    and i: "i < length (sg_parameters st)"
  shows "worth st targets sr i = worth st targets sr' i"
proof -
  note g = group_gate_ok [OF built gate]
  note d = built_dependencies [OF built]
  have red: "gv_reduce (gate_score_type gate) = group_reduce (sg_kind st)" by (simp add: g(4) group_view_of_def)
  have i': "i < length (gate_dependencies gate)" using i d(2) g(3) by simp
  note fin = scorable_final_agrees [OF built gate sc(1) ext(1)] scorable_final_agrees [OF built gate sc(2) ext(2)]
  show ?thesis
    using gr.skipping_irrelevant [OF g(1) red statuses_rule [OF g(1) stat] fin same i']
    by (auto simp: worth_def g(3))
qed

text \<open>
  C16. Skipping is harmless. Take a score type with dependencies, the testcases evaluated so far,
  and the testcases the gate then skips. However the submission would have done on the skipped
  testcases, its score, its public score and its ranking details are the same: two complete
  results that agree with what was known and with each other outside the skipped testcases get
  the same scores. This holds for GroupMin, GroupMul and GroupThreshold.
\<close>

theorem skipping_keeps_score:
  assumes "score_type_group_init re_match kind parameters pub prec = Inr st"
    and "sg_targets re_match st = Inr targets"
    and "subtask_gate_init (group_view_of re_match st) = Inr gate"
    and "statuses gate outs = Inr (status, blocked)"
    and "scorable st targets sr" "scorable st targets sr'"
    and "extends_known targets outs sr" "extends_known targets outs sr'"
    and "\<And>c. dict_get (skippable gate left status blocked) c = None \<Longrightarrow> final_value sr c = final_value sr' c"
    and "sr_score_precision sr = sr_score_precision sr'"
  shows "\<exists>score public_score ranking d pd d' pd'.
    group_compute_score re_match st sr = Inr (score, d, public_score, pd, ranking) \<and>
    group_compute_score re_match st sr' = Inr (score, d', public_score, pd', ranking)"
proof -
  obtain ms bs where built: "group_built re_match st targets ms bs"
    using score_type_group_init_built [OF assms(1)] assms(2) by (metis Inr_inject group_built_def)
  have "subtask_score st targets ms sr i = subtask_score st targets ms sr' i" if "i < length (sg_parameters st)" for i
    using skipping_same_worth [OF built assms(3-9) that] assms(10) by (simp add: subtask_score_def)
  then have "map (subtask_score st targets ms sr) [0..<length (sg_parameters st)] =
      map (subtask_score st targets ms sr') [0..<length (sg_parameters st)]"
    "map (\<lambda>i. if bs ! i then subtask_score st targets ms sr i else 0) [0..<length (sg_parameters st)] =
      map (\<lambda>i. if bs ! i then subtask_score st targets ms sr' i else 0) [0..<length (sg_parameters st)]"
    by auto
  note same = this
  obtain d pd where "group_compute_score re_match st sr =
    Inr (sum_list (map (subtask_score st targets ms sr) [0..<length (sg_parameters st)]), d,
      sum_list (map (\<lambda>i. if bs ! i then subtask_score st targets ms sr i else 0) [0..<length (sg_parameters st)]), pd,
      map (subtask_score st targets ms sr) [0..<length (sg_parameters st)])"
    using group_compute_score_eq [OF built assms(5)] by blast
  then show ?thesis
    using group_compute_score_eq [OF built assms(6)] unfolding same by blast
qed


definition gate_sample :: "json subtask_gate" where
  "gate_sample = \<lparr>gate_score_type = group_view_of no_regexp (group_sample GroupMin),
     gate_targets = targets_sample, gate_dependencies = [[], [0]], gate_order = [0, 1],
     gate_subtasks_of = [(''a'', [0]), (''b'', [0]), (''c'', [1])]\<rparr>"

lemma gate_sample_init: "subtask_gate_init (group_view_of no_regexp (group_sample GroupMin)) = Inr gate_sample"
proof -
  have v: "group_view_of no_regexp (group_sample GroupMin) = \<lparr>gv_parameters = sg_parameters (group_sample GroupMin),
      gv_reduce = group_reduce GroupMin, gv_targets = Inr targets_sample, gv_dependencies = [[], [0]]\<rparr>"
    using group_sample_targets by (simp add: group_view_of_def) (simp add: group_sample_def)
  have "topological_order [[], [0]] = Inr [0, 1]" by code_simp
  then show ?thesis
    unfolding subtask_gate_init_def gate_sample_def v
    by (simp add: group_sample_def group_reduce_def group_min_reduce_def targets_sample_def add_subtask_of_def)
qed

text \<open>The first testcase failed, nothing else is known: the second subtask is blocked.\<close>

lemma gate_sample_statuses:
  "statuses gate_sample [(''a'', Outcome 0)] = Inr ([FAILED, FAILED], [None, Some 0])"
  by (simp add: statuses_def status_step_def gate_sample_def group_view_of_def group_sample_def targets_sample_def
      group_reduce_def group_min_reduce_def py_nth_def py_upd_def)

lemma gate_sample_skippable:
  "skippable gate_sample [''b'', ''c''] [FAILED, FAILED] [None, Some 0] = [(''c'', 0)]"
  by (simp add: skippable_def gate_sample_def)

theorem skipping_keeps_score_witness:
  "\<exists>score public_score ranking d pd d' pd'.
    group_compute_score no_regexp (group_sample GroupMin) (result_sample 0 1 0) =
      Inr (score, d, public_score, pd, ranking) \<and>
    group_compute_score no_regexp (group_sample GroupMin) (result_sample 0 1 1) =
      Inr (score, d', public_score, pd', ranking)"
proof (rule skipping_keeps_score [OF group_sample_init group_sample_targets gate_sample_init gate_sample_statuses])
  show "scorable (group_sample GroupMin) targets_sample (result_sample 0 1 0)"
    "scorable (group_sample GroupMin) targets_sample (result_sample 0 1 1)"
    by (rule group_sample_scorable; simp)+
  show "extends_known targets_sample [(''a'', Outcome 0)] (result_sample 0 1 0)"
    "extends_known targets_sample [(''a'', Outcome 0)] (result_sample 0 1 1)"
    by (simp_all add: extends_known_def targets_sample_def final_value_def result_sample_evaluations evaluation_sample_def)
  fix c
  assume "dict_get (skippable gate_sample [''b'', ''c''] [FAILED, FAILED] [None, Some 0]) c = None"
  then show "final_value (result_sample 0 1 0) c = final_value (result_sample 0 1 1) c"
    by (auto simp: gate_sample_skippable final_value_def result_sample_evaluations split: if_splits)
qed (simp add: result_sample_def)

text \<open>
  C17. The gate never blocks a submission for ever. For every set of outcomes the statuses are
  computed without an exception; and whenever every testcase that the gate releases has been
  evaluated, each testcase of a subtask that is still missing is one the gate skips.
\<close>

theorem gate_no_deadlock:
  assumes "score_type_group_init re_match kind parameters pub prec = Inr st"
    and "subtask_gate_init (group_view_of re_match st) = Inr gate"
  shows "\<exists>status blocked. statuses gate outs = Inr (status, blocked) \<and>
    ((\<forall>target \<in> set (gate_targets gate). \<forall>c \<in> set target. releasable gate c status \<longrightarrow> dict_get outs c \<noteq> None) \<longrightarrow>
     (\<forall>target \<in> set (gate_targets gate). \<forall>c \<in> set target. dict_get outs c = None \<longrightarrow> c \<in> set left \<longrightarrow>
        dict_get (skippable gate left status blocked) c \<noteq> None))"
proof -
  obtain targets ms bs where built: "group_built re_match st targets ms bs"
    by (rule score_type_group_init_built [OF assms(1)])
  note ok = group_gate_ok(1) [OF built assms(2)]
  obtain status blocked where run: "statuses gate outs = Inr (status, blocked)"
    and rule: "\<And>i. i < length (gate_dependencies gate) \<Longrightarrow> status_rule gate outs status blocked i"
    using statuses_run [OF ok] by blast
  have in_target: "subtasks_containing (gate_targets gate) c \<noteq> {} \<longleftrightarrow> (\<exists>target \<in> set (gate_targets gate). c \<in> set target)" for c
  proof -
    have "subtasks_containing (gate_targets gate) c \<noteq> {} \<longleftrightarrow>
        (\<exists>i < length (gate_targets gate). c \<in> set (gate_targets gate ! i))"
      by (auto simp: subtasks_containing_def)
    also have "\<dots> \<longleftrightarrow> (\<exists>target \<in> set (gate_targets gate). c \<in> set target)"
      by (auto simp only: set_conv_nth [of "gate_targets gate"])
    finally show ?thesis .
  qed
  have "dict_get (skippable gate left status blocked) c \<noteq> None"
    if all: "\<forall>target \<in> set (gate_targets gate). \<forall>c \<in> set target. releasable gate c status \<longrightarrow> dict_get outs c \<noteq> None"
      and c: "target \<in> set (gate_targets gate)" "c \<in> set target" "dict_get outs c = None" "c \<in> set left"
    for target c
  proof (rule stuck_all_skippable [OF ok rule])
    show "subtasks_containing (gate_targets gate) c \<noteq> {}" using in_target c(1,2) by blast
    show "dict_get outs x \<noteq> None" if "subtasks_containing (gate_targets gate) x \<noteq> {}" "releasable gate x status" for x
      using that all in_target by blast
  qed (use c in auto)
  then show ?thesis using run by blast
qed

theorem gate_no_deadlock_witness:
  "dict_get (skippable gate_sample [''c''] [FAILED, FAILED] [None, Some 0]) ''c'' \<noteq> None"
proof -
  have s: "statuses gate_sample [(''a'', Outcome 0), (''b'', Outcome 1)] = Inr ([FAILED, FAILED], [None, Some 0])"
    by (simp add: statuses_def status_step_def gate_sample_def group_view_of_def group_sample_def targets_sample_def
      group_reduce_def group_min_reduce_def py_nth_def py_upd_def)
  have r: "releasable gate_sample ''c'' [FAILED, FAILED] = False"
    by (simp add: releasable_def gate_sample_def)
  have t: "gate_targets gate_sample = [[''a'', ''b''], [''c'']]" by (simp add: gate_sample_def targets_sample_def)
  show ?thesis
    using gate_no_deadlock [OF group_sample_init gate_sample_init, of "[(''a'', Outcome 0), (''b'', Outcome 1)]" "[''c'']"]
    by (simp add: s r t)
qed


subsection \<open>What the public details reveal\<close>

lemma testcase_row_fields:
  assumes "testcase_row st sr evaluations parameter c = Inr row"
  shows "row_idx row = c" "dict_get (sg_public_testcases st) c = Some (row_public row)"
  using assms by (auto simp: testcase_row_def lookup_def split: option.splits)

lemma bare_keeps_bare: "bare_if_skipped (JDict [(''idx'', x)]) = Inr (JDict [(''idx'', x)])"
  by (simp add: bare_if_skipped_def first_is_skip_message_def)

definition reveals_no_score :: "json \<Rightarrow> bool" where
  "reveals_no_score j \<longleftrightarrow> (\<exists>d. j = JDict d \<and> dict_get d ''score'' = None \<and>
     dict_get d ''score_fraction'' = None \<and> dict_get d ''max_score'' = None)"

definition bare_at :: "json \<Rightarrow> (nat \<times> string) set \<Rightarrow> bool" where
  "bare_at j S \<longleftrightarrow> (\<exists>d tcs. j = JDict d \<and> dict_get d ''testcases'' = Some (JList tcs) \<and>
     (\<forall>k c. (k, c) \<in> S \<longrightarrow> k < length tcs \<and> tcs ! k = JDict [(''idx'', JStr c)]))"

lemma map_of_filter_key: "k \<noteq> x \<Longrightarrow> map_of (filter (\<lambda>(y, _). y \<noteq> x) d) k = map_of d k"
  by (induction d) auto

lemma without_messages_reveals:
  assumes "without_dependency_messages j = Inr j'" "reveals_no_score j" "bare_at j S"
  shows "reveals_no_score j'" "bare_at j' S"
proof -
  obtain d tcs where d: "j = JDict d" "dict_get d ''testcases'' = Some (JList tcs)"
    "\<And>k c. (k, c) \<in> S \<Longrightarrow> k < length tcs \<and> tcs ! k = JDict [(''idx'', JStr c)]"
    using assms(3) unfolding bare_at_def by blast
  obtain tcs' where t: "res_map bare_if_skipped tcs = Inr tcs'"
    "j' = JDict (dict_set ''testcases'' (JList tcs') (filter (\<lambda>(k, _). k \<noteq> ''zeroed_by_dependency'') d))"
    using assms(1) d by (auto simp: without_dependency_messages_def lookup_def)
  show "reveals_no_score j'"
    using assms(2) d(1) t(2) by (auto simp: reveals_no_score_def map_of_filter_key)
  have "k < length tcs' \<and> tcs' ! k = JDict [(''idx'', JStr c)]" if "(k, c) \<in> S" for k c
    using d(3) [OF that] res_map_Inr_length [OF t(1)] res_map_Inr_nth [OF t(1), of k]
    by (simp add: bare_keeps_bare)
  then show "bare_at j' S" using t(2) by (auto simp: bare_at_def)
qed

text \<open>
  C18. Confidentiality of private testcases. When a subtask has a testcase that is not public, its
  entry in the public details has none of the keys \<^verbatim>\<open>score\<close>, \<^verbatim>\<open>score_fraction\<close> and \<^verbatim>\<open>max_score\<close>, it
  adds nothing to the public score, and each private testcase appears there only by its name,
  whether or not the messages about dependencies are hidden.
\<close>

theorem public_details_hide_private:
  assumes "score_subtask st sr evaluations zeroed st_idx parameter target hide = Inr (s, p, full, public)"
    and "c \<in> set target" "dict_get (sg_public_testcases st) c = Some False"
  shows "p = 0 \<and> reveals_no_score public \<and>
    bare_at public {(k, target ! k) | k. k < length target \<and> dict_get (sg_public_testcases st) (target ! k) = Some False}"
proof -
  let ?S = "{(k, target ! k) | k. k < length target \<and> dict_get (sg_public_testcases st) (target ! k) = Some False}"
  have priv: "all_public (sg_public_testcases st) target \<noteq> Inr True"
    using assms(2,3) by (induction target) (auto simp: lookup_def split: if_splits option.splits)
  obtain rows own m show_all b any_pub where
    rows: "res_map (testcase_row st sr evaluations parameter) target = Inr rows"
    and b1: "all_public (sg_public_testcases st) target = Inr b"
    and parts: "group_reduce (sg_kind st) (map row_score rows) parameter = Inr own"
      "get_max_score (sg_score_precision st) parameter = Inr m"
      "get_always_show_testcases parameter = Inr show_all"
      "any_public (sg_public_testcases st) target = Inr any_pub"
    using assms(1) unfolding score_subtask_def by (elim res_bindE)
  have b: "all_public (sg_public_testcases st) target = Inr b" "\<not> b" using b1 priv by auto
  obtain restrict nt where
    p: "p = 0" and pub: "(if hide \<and> zeroed \<noteq> None then without_dependency_messages else Inr)
      (JDict ([(''idx'', JInt (int st_idx)), (''testcases'', JList (map (public_entry restrict) rows))] @
         (if any_pub then nt else []))) = Inr public"
    and nt: "nt = (case zeroed of None \<Rightarrow> [] | Some j \<Rightarrow> [(''zeroed_by_dependency'', JInt (int j))])"
    using assms(1) b unfolding score_subtask_def rows res_bind.simps b(1) parts Let_def
    by (auto split: if_splits)
  let ?j = "JDict ([(''idx'', JInt (int st_idx)), (''testcases'', JList (map (public_entry restrict) rows))] @
         (if any_pub then nt else []))"
  have "public_entry restrict (rows ! k) = JDict [(''idx'', JStr (target ! k))]"
    if "k < length target" "dict_get (sg_public_testcases st) (target ! k) = Some False" for k
    using testcase_row_fields [OF res_map_Inr_nth [OF rows that(1)]] that(2)
    by (simp add: public_entry_def)
  then have j: "reveals_no_score ?j" "bare_at ?j ?S"
    using res_map_Inr_length [OF rows]
    by (auto simp: reveals_no_score_def bare_at_def nt split: option.splits)
  then show ?thesis using p pub without_messages_reveals [OF _ j] by (auto split: if_splits)
qed

theorem public_details_hide_private_witness:
  "\<exists>s full public. score_subtask (group_sample GroupMin) (result_sample 1 (1 / 2) 1)
      (evaluations_of (result_sample 1 (1 / 2) 1)) None 0 (JList [JInt 40, JList [JStr ''a'', JStr ''b'']])
      [''a'', ''b''] False = Inr (s, 0, full, public) \<and> reveals_no_score public"
proof -
  have "\<not> isl (score_subtask (group_sample GroupMin) (result_sample 1 (1 / 2) 1)
      (evaluations_of (result_sample 1 (1 / 2) 1)) None 0 (JList [JInt 40, JList [JStr ''a'', JStr ''b'']])
      [''a'', ''b''] False)" by code_simp
  then obtain s p full public where r: "score_subtask (group_sample GroupMin) (result_sample 1 (1 / 2) 1)
      (evaluations_of (result_sample 1 (1 / 2) 1)) None 0 (JList [JInt 40, JList [JStr ''a'', JStr ''b'']])
      [''a'', ''b''] False = Inr (s, p, full, public)"
    by (metis res_okI prod_cases4)
  show ?thesis
    using public_details_hide_private [OF r, of "''b''"] r by (simp add: group_sample_def public_sample_def)
qed

definition leak_sample :: score_type_group where
  "leak_sample = \<lparr>sg_kind = GroupMin, sg_parameters = [JList [JInt 100, JList [JStr ''a'', JStr ''c'', JStr ''b'']]],
     sg_public_testcases = public_sample, sg_score_precision = 2, sg_max_score = 100,
     sg_max_public_score = 0, sg_ranking_headers = [(0, 100)], sg_dependencies = [[]], sg_hide_dependency = [False]\<rparr>"

definition public_details_shown :: "submission_result \<Rightarrow> json res" where
  "public_details_shown sr =
     res_bind (group_compute_score no_regexp leak_sample sr) (\<lambda>(_, _, _, pd, _).
       group_get_json_details FEEDBACK_LEVEL_RESTRICTED pd)"



text \<open>
  A subtask without testcases is accepted but can never be scored. With a count of testcases
  larger than what is left, the constructor builds the score type; every evaluated submission then
  makes \<^verbatim>\<open>compute_score\<close> raise ValueError, because GroupMin takes the minimum of no outcomes.
\<close>

theorem empty_subtask_never_scored:
  "\<exists>st. score_type_group_init no_regexp GroupMin
      (JList [JList [JInt 50, JInt 3], JList [JInt 50, JInt 1]]) public_sample 2 = Inr st \<and>
    group_compute_score no_regexp st (result_sample a b c) = Inl ValueError"
proof -
  define ps where "ps = [JList [JInt 50, JInt 3], JList [JInt 50, JInt 1]]"
  define st where "st = \<lparr>sg_kind = GroupMin, sg_parameters = ps, sg_public_testcases = public_sample,
     sg_score_precision = 2, sg_max_score = 100, sg_max_public_score = 50,
     sg_ranking_headers = [(0, 50), (1, 50)], sg_dependencies = [[], []], sg_hide_dependency = [False, False]\<rparr>"
  have init: "score_type_group_init no_regexp GroupMin
      (JList [JList [JInt 50, JInt 3], JList [JInt 50, JInt 1]]) public_sample 2 = Inr st"
    unfolding st_def ps_def by code_simp
  have targets: "sg_targets no_regexp st = Inr [[''a'', ''b'', ''c''], []]"
    unfolding st_def ps_def by code_simp
  have max: "get_max_score 2 (JList [JInt 50, JInt 3]) = Inr 50" by code_simp
  have "score_subtask st (result_sample a b c) (evaluations_of (result_sample a b c)) None 1
      (JList [JInt 50, JInt 1]) [] False = Inl ValueError"
    by (simp add: score_subtask_def st_def group_reduce_def group_min_reduce_def)
  moreover have "\<not> isl (score_subtask st (result_sample a b c) (evaluations_of (result_sample a b c)) None 0
      (JList [JInt 50, JInt 3]) [''a'', ''b'', ''c''] False)"
    using max
    by (simp add: score_subtask_def st_def group_reduce_def group_min_reduce_def testcase_row_def lookup_def
        result_sample_evaluations evaluation_sample_def get_public_outcome_def public_sample_def
        get_always_show_testcases_def Let_def)
  then obtain r where "score_subtask st (result_sample a b c) (evaluations_of (result_sample a b c)) None 0
      (JList [JInt 50, JInt 3]) [''a'', ''b'', ''c''] False = Inr r" using res_okI by blast
  ultimately have "group_compute_score no_regexp st (result_sample a b c) = Inl ValueError"
    unfolding group_compute_score_def targets res_bind.simps Let_def
    by (simp add: subtask_zeroes_def st_def ps_def py_nth_def result_sample_def [of a b c, THEN arg_cong [where f = sr_evaluated]])
  then show ?thesis using init by blast
qed

subsection \<open>Sum\<close>

lemma sum_max_scores_eq:
  "sum_max_scores p pub = (p * of_nat (length pub), p * of_nat (length (filter snd pub)))"
proof -
  have "foldl (\<lambda>(score, public_score) (_, public).
       (score + p, if public then public_score + p else public_score)) (a, b) pub =
     (a + p * of_nat (length pub), b + p * of_nat (length (filter snd pub)))" for a b
    by (induction pub arbitrary: a b) (auto simp: algebra_simps)
  then show ?thesis by (simp add: sum_max_scores_def)
qed

lemma sum_fold:
  assumes "\<forall>c \<in> set cs. (\<exists>ev. dict_get evs c = Some ev \<and> ev_outcome ev = Outcome (v c)) \<and>
      (\<exists>b. dict_get (ss_public_testcases st) c = Some b \<and> b = P c)"
  shows "\<exists>t pt. res_fold (sum_step st evs) (a, t0, b, pt0) cs =
    Inr (a + sum_list (map v cs) * ss_parameters st, t, b + sum_list (map v (filter P cs)) * ss_parameters st, pt)"
  using assms
proof (induction cs arbitrary: a t0 b pt0)
  case (Cons c cs)
  obtain ev where ev: "dict_get evs c = Some ev" "ev_outcome ev = Outcome (v c)"
    "dict_get (ss_public_testcases st) c = Some (P c)" using Cons.prems by auto
  obtain t1 pt1 where step: "sum_step st evs (a, t0, b, pt0) c = Inr (a + v c * ss_parameters st, t1,
      if P c then b + v c * ss_parameters st else b, pt1)"
    using ev by (simp add: sum_step_def lookup_def Let_def)
  show ?case
    using Cons.IH [of "a + v c * ss_parameters st" t1 "if P c then b + v c * ss_parameters st else b" pt1] Cons.prems step
    by (auto simp: algebra_simps)
qed simp

text \<open>
  Sum. For a score type built on testcases with distinct names and a non-negative value per
  testcase, and a submission with an outcome from 0 to 1 on every testcase, \<^verbatim>\<open>compute_score\<close>
  returns the value times the sum of the outcomes, over all testcases and over the public ones;
  these are at most the two maximum scores of the constructor.
\<close>

theorem sum_score_correct:
  assumes "score_type_sum_init (JInt n) pub = Inr st" "dict_ok pub" "0 \<le> n" "sr_evaluated sr"
    and "\<forall>c \<in> set (dict_keys pub). \<exists>ev. dict_get (evaluations_of sr) c = Some ev \<and>
      ev_outcome ev = Outcome (final_value sr c) \<and> 0 \<le> final_value sr c \<and> final_value sr c \<le> 1"
  shows "\<exists>score d public_score pd. sum_compute_score st sr = Inr (score, d, public_score, pd) \<and>
    score = of_int n * (\<Sum>c \<in> set (dict_keys pub). final_value sr c) \<and>
    public_score = of_int n * (\<Sum>c \<in> {c. dict_get pub c = Some True}. final_value sr c) \<and>
    0 \<le> public_score \<and> public_score \<le> score \<and> score \<le> ss_max_score st \<and> public_score \<le> ss_max_public_score st"
proof -
  let ?cs = "sort (dict_keys pub)" and ?v = "final_value sr" and ?P = "\<lambda>c. dict_get pub c = Some True"
  have st: "ss_parameters st = of_int n" "ss_public_testcases st = pub"
    "ss_max_score st = of_int n * of_nat (length pub)" "ss_max_public_score st = of_int n * of_nat (length (filter snd pub))"
    using assms(1) by (auto simp: score_type_sum_init_def sum_max_scores_eq)
  have "\<forall>c \<in> set ?cs. (\<exists>ev. dict_get (evaluations_of sr) c = Some ev \<and> ev_outcome ev = Outcome (?v c)) \<and>
      (\<exists>b. dict_get (ss_public_testcases st) c = Some b \<and> b = ?P c)"
  proof
    fix c assume "c \<in> set ?cs"
    then have "dict_get pub c \<noteq> None" using dict_keys_get [of c pub] by simp
    then show "(\<exists>ev. dict_get (evaluations_of sr) c = Some ev \<and> ev_outcome ev = Outcome (?v c)) \<and>
      (\<exists>b. dict_get (ss_public_testcases st) c = Some b \<and> b = ?P c)"
      using assms(5) \<open>c \<in> set ?cs\<close> st(2) by auto
  qed
  from sum_fold [OF this, of 0 "[]" 0 "[]"] obtain t pt where run:
    "sum_compute_score st sr = Inr (sum_list (map ?v ?cs) * of_int n, t, sum_list (map ?v (filter ?P ?cs)) * of_int n, pt)"
    using assms(4) st by (auto simp: sum_compute_score_def)
  have keys: "set (filter ?P ?cs) = {c. ?P c}"
    using dict_keys_get [of _ pub] by auto
  have sums: "sum_list (map ?v ?cs) = (\<Sum>c \<in> set (dict_keys pub). ?v c)"
    "sum_list (map ?v (filter ?P ?cs)) = (\<Sum>c \<in> {c. ?P c}. ?v c)"
    using assms(2) keys by (simp_all add: sum_list_distinct_conv_sum_set)
  have card: "card {c. ?P c} = length (filter snd pub)" "card (set (dict_keys pub)) = length pub"
    "{c. ?P c} \<subseteq> set (dict_keys pub)"
  proof -
    have "{c. ?P c} = set (map fst (filter snd pub))"
      using map_of_eq_Some_iff [OF assms(2)] by force
    moreover have "distinct (map fst (filter snd pub))" using assms(2) by (rule distinct_map_filter)
    ultimately show "card {c. ?P c} = length (filter snd pub)" by (metis distinct_card length_map)
    show "card (set (dict_keys pub)) = length pub" using distinct_card [OF assms(2)] by simp
    show "{c. ?P c} \<subseteq> set (dict_keys pub)" using dict_keys_get [of _ pub] by auto
  qed
  have nonneg: "0 \<le> ?v c" "?v c \<le> 1" if "c \<in> set (dict_keys pub)" for c using assms(5) that by auto
  have total: "(\<Sum>c \<in> set (dict_keys pub). ?v c) \<le> of_nat (length pub)"
    using sum_bounded_above [of "set (dict_keys pub)" ?v 1] nonneg card(2) by simp
  have public: "(\<Sum>c \<in> {c. ?P c}. ?v c) \<le> of_nat (length (filter snd pub))"
    using sum_bounded_above [of "{c. ?P c}" ?v 1] nonneg card by (simp add: subset_iff)
  have less: "(\<Sum>c \<in> {c. ?P c}. ?v c) \<le> (\<Sum>c \<in> set (dict_keys pub). ?v c)" "0 \<le> (\<Sum>c \<in> {c. ?P c}. ?v c)"
    using card(3) nonneg by (auto intro!: sum_mono2 sum_nonneg)
  have n: "0 \<le> (of_int n :: rat)" using assms(3) by simp
  show ?thesis
    using run mult_left_mono [OF total n] mult_left_mono [OF public n] mult_left_mono [OF less(1) n]
      mult_nonneg_nonneg [OF n less(2)]
    unfolding sums st by (auto simp: mult.commute)
qed

theorem sum_score_correct_witness:
  "\<exists>score d public_score pd st. score_type_sum_init (JInt 10) public_sample = Inr st \<and>
    sum_compute_score st (result_sample 1 (1 / 2) 0) = Inr (score, d, public_score, pd) \<and> score \<le> 30"
proof -
  define st where "st = \<lparr>ss_parameters = 10, ss_public_testcases = public_sample,
    ss_max_score = 30, ss_max_public_score = 20\<rparr>"
  have st: "score_type_sum_init (JInt 10) public_sample = Inr st" unfolding st_def by code_simp
  have "\<forall>c \<in> set (dict_keys public_sample). \<exists>ev. dict_get (evaluations_of (result_sample 1 (1 / 2) 0)) c = Some ev \<and>
      ev_outcome ev = Outcome (final_value (result_sample 1 (1 / 2) 0) c) \<and>
      0 \<le> final_value (result_sample 1 (1 / 2) 0) c \<and> final_value (result_sample 1 (1 / 2) 0) c \<le> 1"
    by (simp add: public_sample_def result_sample_evaluations final_value_def evaluation_sample_def)
  moreover have "dict_ok public_sample" by (simp add: public_sample_def)
  moreover have "sr_evaluated (result_sample 1 (1 / 2) 0)" by (simp add: result_sample_def)
  ultimately show ?thesis
    using sum_score_correct [OF st, of "result_sample 1 (1 / 2) 0"] st by (auto simp: st_def)
qed

end
