(* ===== verification/TaskScoring.thy ===== *)
theory TaskScoring
  imports ScoreTypes
begin

text \<open>
  Scores of a participation on a task, from \<^verbatim>\<open>cms/grading/scoring.py\<close>: the three score modes, the
  choice of what counts for the public and the tokened score, and the comparison of two datasets.
  The rows of the database that the code loads are records; a score is an exact rational number.
\<close>

section \<open>Model\<close>

record result_row =
  rr_score :: "rat option"
  rr_score_details :: "json option"
  rr_public_score :: "rat option"
  rr_public_score_details :: "json option"
  rr_ranking_score_details :: "string list option"

text \<open>\<^verbatim>\<open>SubmissionResult.scored\<close>.\<close>

definition scored :: "result_row \<Rightarrow> bool" where
  "scored sr \<longleftrightarrow> rr_score sr \<noteq> None \<and> rr_score_details sr \<noteq> None \<and> rr_public_score sr \<noteq> None \<and>
     rr_public_score_details sr \<noteq> None \<and> rr_ranking_score_details sr \<noteq> None"

record submission_of_task =
  st_id :: nat
  st_task :: nat
  st_official :: bool
  st_timestamp :: datetime
  st_tokened :: bool
  st_results :: "(nat, result_row) dict"

datatype score_mode = SCORE_MODE_MAX | SCORE_MODE_MAX_SUBTASK | SCORE_MODE_MAX_TOKENED_LAST | OtherMode

record task_row =
  tr_id :: nat
  tr_active_dataset :: nat
  tr_score_mode :: score_mode
  tr_score_precision :: nat

definition get_result :: "submission_of_task \<Rightarrow> nat \<Rightarrow> result_row option" where
  "get_result s dataset = dict_get (st_results s) dataset"

subsection \<open>Comparing two datasets\<close>

definition compare :: "'a \<Rightarrow> 'a \<Rightarrow> bool \<times> 'a option \<times> 'a option" where
  "compare a b = (if a = b then (False, None, None) else (True, Some a, Some b))"

record submission_score_delta =
  delta_submission :: submission_of_task
  delta_score :: "rat option option \<times> rat option option"
  delta_public_score :: "rat option option \<times> rat option option"
  delta_ranking :: "string list option option \<times> string list option option"

definition field_of :: "(result_row \<Rightarrow> 'a option) \<Rightarrow> result_row option \<Rightarrow> 'a option" where
  "field_of f r = (case r of None \<Rightarrow> None | Some sr \<Rightarrow> f sr)"

text \<open>
  \<^verbatim>\<open>compute_changes_for_dataset\<close>; a dataset is its id and that of its task, and \<open>submissions\<close> is
  what the query returns, the submissions of that task.
\<close>

definition compute_changes_for_dataset ::
  "nat \<times> nat \<Rightarrow> nat \<times> nat \<Rightarrow> submission_of_task list \<Rightarrow> submission_score_delta list res" where
  "compute_changes_for_dataset old_dataset new_dataset submissions =
     (if snd old_dataset \<noteq> snd new_dataset then Inl ValueError
      else Inr (concat (map (\<lambda>s.
        let old = get_result s (fst old_dataset); new = get_result s (fst new_dataset);
            (diff1, pair1) = compare (field_of rr_score old) (field_of rr_score new);
            (diff2, pair2) = compare (field_of rr_public_score old) (field_of rr_public_score new);
            (diff3, pair3) = compare (field_of rr_ranking_score_details old) (field_of rr_ranking_score_details new)
        in if diff1 \<or> diff2 \<or> diff3
           then [\<lparr>delta_submission = s, delta_score = pair1, delta_public_score = pair2, delta_ranking = pair3\<rparr>]
           else []) (filter (\<lambda>s. st_task s = snd old_dataset) submissions))))"

subsection \<open>The score modes\<close>

type_synonym score_entry = "rat option \<times> json option \<times> bool"

definition task_score_max :: "score_entry list \<Rightarrow> rat" where
  "task_score_max entries =
     foldl (\<lambda>max_score (score, _, _). case score of None \<Rightarrow> max_score | Some s \<Rightarrow> max max_score s) 0 entries"

definition task_score_max_tokened_last :: "score_entry list \<Rightarrow> rat res" where
  "task_score_max_tokened_last entries =
     (if entries = [] then Inl IndexError
      else
        let last_score = (case last entries of (None, _, _) \<Rightarrow> 0 | (Some s, _, _) \<Rightarrow> s);
            max_tokened_score = foldl (\<lambda>m (score, _, tokened).
              case score of None \<Rightarrow> m | Some s \<Rightarrow> if tokened then max m s else m) 0 entries
        in Inr (max last_score max_tokened_score))"

text \<open>
  A JSON value as a key of a Python dictionary: numbers that are equal are the same key, and
  lists and dictionaries are no keys.
\<close>

fun json_key :: "json \<Rightarrow> json res" where
  "json_key (JList _) = Inl TypeError"
| "json_key (JDict _) = Inl TypeError"
| "json_key (JInt i) = Inr (JFloat (of_int i))"
| "json_key (JBool b) = Inr (JFloat (if b then 1 else 0))"
| "json_key j = Inr j"

definition subtask_pair :: "json \<Rightarrow> (json \<times> json) res" where
  "subtask_pair subtask =
     res_bind (json_lookup subtask ''idx'') (\<lambda>idx.
     res_bind (json_lookup subtask ''score'') (\<lambda>score.
     res_bind (json_key idx) (\<lambda>k. Inr (k, score))))"

text \<open>The dictionary of subtask scores; any exception, or an empty one, gives the single subtask 1.\<close>

definition subtask_scores :: "rat \<Rightarrow> json option \<Rightarrow> (json, json) dict" where
  "subtask_scores score details =
     (case res_bind (case details of None \<Rightarrow> Inl TypeError | Some d \<Rightarrow> json_iter d) (res_map subtask_pair) of
        Inl _ \<Rightarrow> [(JFloat 1, JFloat score)]
      | Inr pairs \<Rightarrow> if pairs = [] then [(JFloat 1, JFloat score)] else foldl (\<lambda>d (k, v). dict_set k v d) [] pairs)"

definition raise_max :: "(json, rat) dict \<Rightarrow> json \<times> json \<Rightarrow> (json, rat) dict res" where
  "raise_max max_scores entry =
     (case entry of (idx, score) \<Rightarrow>
        res_bind (json_num score) (\<lambda>s.
          Inr (dict_set idx (max (case dict_get max_scores idx of None \<Rightarrow> 0 | Some m \<Rightarrow> m) s) max_scores)))"

definition max_subtask_step :: "(json, rat) dict \<Rightarrow> score_entry \<Rightarrow> (json, rat) dict res" where
  "max_subtask_step max_scores entry =
     (case entry of
        (None, _, _) \<Rightarrow> Inr max_scores
      | (Some score, details, _) \<Rightarrow>
          if details = Some (JList []) \<and> score = 0 then Inr max_scores
          else res_fold raise_max max_scores (subtask_scores score details))"

definition task_score_max_subtask :: "score_entry list \<Rightarrow> rat res" where
  "task_score_max_subtask entries =
     res_bind (res_fold max_subtask_step [] entries) (\<lambda>max_scores. Inr (sum_list (map snd max_scores)))"

subsection \<open>The score on a task\<close>

definition scored_entry ::
  "bool \<Rightarrow> bool \<Rightarrow> nat \<Rightarrow> submission_of_task \<Rightarrow> bool \<times> score_entry" where
  "scored_entry public only_tokened dataset s =
     (case get_result s dataset of
        None \<Rightarrow> (True, None, None, st_tokened s)
      | Some sr \<Rightarrow>
          if \<not> scored sr then (True, None, None, st_tokened s)
          else if public then (False, rr_public_score sr, rr_public_score_details sr, st_tokened s)
          else if only_tokened \<and> \<not> st_tokened s then (False, None, None, st_tokened s)
          else (False, rr_score sr, rr_score_details sr, st_tokened s))"

definition task_score ::
  "submission_of_task list \<Rightarrow> task_row \<Rightarrow> bool \<Rightarrow> bool \<Rightarrow> (rat \<times> bool) res" where
  "task_score participation_submissions task public only_tokened =
     (if public \<and> only_tokened then Inl ValueError
      else
        let submissions = filter (\<lambda>s. st_task s = tr_id task \<and> st_official s) participation_submissions in
        if submissions = [] then Inr (0, False)
        else
          let rows = map (scored_entry public only_tokened (tr_active_dataset task)) (sort_key st_timestamp submissions);
              partial = list_ex fst rows;
              entries = map snd rows
          in res_bind (case tr_score_mode task of
                 SCORE_MODE_MAX \<Rightarrow> Inr (task_score_max entries)
               | SCORE_MODE_MAX_SUBTASK \<Rightarrow> task_score_max_subtask entries
               | SCORE_MODE_MAX_TOKENED_LAST \<Rightarrow> task_score_max_tokened_last entries
               | OtherMode \<Rightarrow> Inl ValueError)
               (\<lambda>score. Inr (py_round score (tr_score_precision task), partial)))"

section \<open>The modes as mathematical functions\<close>

definition entry_scores :: "score_entry list \<Rightarrow> rat list" where
  "entry_scores entries = concat (map (\<lambda>(s, _, _). case s of None \<Rightarrow> [] | Some x \<Rightarrow> [x]) entries)"

lemma entry_scores_simps [simp]:
  "entry_scores [] = []"
  "entry_scores ((None, d, t) # es) = entry_scores es"
  "entry_scores ((Some x, d, t) # es) = x # entry_scores es"
  by (simp_all add: entry_scores_def)

lemma Max_insert_max: "finite A \<Longrightarrow> Max (insert (max a b) A) = Max (insert a (insert b A))"
  by (cases "A = {}") (simp_all add: max.assoc)

lemma foldl_max: "foldl (\<lambda>m (score, _, _). case score of None \<Rightarrow> m | Some s \<Rightarrow> max m s) a entries =
    Max (insert a (set (entry_scores entries)))"
proof (induction entries arbitrary: a)
  case (Cons e entries)
  obtain s d t where e: "e = (s, d, t)" by (cases e)
  show ?case using Cons.IH by (cases s) (simp_all add: e Max_insert_max del: Max_insert)
qed simp

lemma task_score_max_eq: "task_score_max entries = Max (insert 0 (set (entry_scores entries)))"
  by (simp add: task_score_max_def foldl_max)

lemma max_tokened_eq: "foldl (\<lambda>m (score, _, tokened). case score of None \<Rightarrow> m | Some s \<Rightarrow> if tokened then max m s else m)
    a entries = Max (insert a (set (entry_scores (filter (\<lambda>(_, _, t). t) entries))))"
proof -
  have "foldl (\<lambda>m (score, _, tokened). case score of None \<Rightarrow> m | Some s \<Rightarrow> if tokened then max m s else m) a entries =
      foldl (\<lambda>m (score, _, _). case score of None \<Rightarrow> m | Some s \<Rightarrow> max m s) a (filter (\<lambda>(_, _, t). t) entries)"
    by (induction entries arbitrary: a) (auto split: option.split)
  then show ?thesis by (simp add: foldl_max)
qed


text \<open>The subtask scores that one submission brings to the mode \<^verbatim>\<open>max_subtask\<close>, as numbers.\<close>

definition entry_pairs :: "score_entry \<Rightarrow> (json \<times> rat) list res" where
  "entry_pairs e =
     (case e of
        (None, _, _) \<Rightarrow> Inr []
      | (Some score, details, _) \<Rightarrow>
          if details = Some (JList []) \<and> score = 0 then Inr []
          else res_map (\<lambda>(k, j). res_bind (json_num j) (\<lambda>v. Inr (k, v))) (subtask_scores score details))"

definition value_in :: "('k, rat) dict \<Rightarrow> 'k \<Rightarrow> rat" where
  "value_in d k = (case dict_get d k of None \<Rightarrow> 0 | Some m \<Rightarrow> m)"

lemma value_in_set: "value_in (dict_set k v d) x = (if x = k then v else value_in d x)"
  by (simp add: value_in_def)

definition raise_to :: "('k, rat) dict \<Rightarrow> ('k \<times> rat) list \<Rightarrow> ('k, rat) dict" where
  "raise_to d ps = foldl (\<lambda>d (k, v). dict_set k (max (value_in d k) v) d) d ps"

lemma max_subtask_step_eq:
  assumes "entry_pairs e = Inr ps"
  shows "max_subtask_step d e = Inr (raise_to d ps)"
proof -
  have fold: "res_map (\<lambda>(k, j). res_bind (json_num j) (\<lambda>v. Inr (k, v))) xs = Inr ps \<Longrightarrow>
      res_fold raise_max d xs = Inr (raise_to d ps)" for xs ps d
  proof (induction xs arbitrary: ps d)
    case (Cons x xs)
    obtain k j where x: "x = (k, j)" by (cases x)
    obtain v ps' where "json_num j = Inr v" "ps = (k, v) # ps'"
      "res_map (\<lambda>(k, j). res_bind (json_num j) (\<lambda>v. Inr (k, v))) xs = Inr ps'"
      using Cons.prems x by auto
    then show ?case using Cons.IH by (simp add: x raise_max_def raise_to_def value_in_def)
  qed (simp add: raise_to_def)
  show ?thesis
    using assms fold by (auto simp: entry_pairs_def max_subtask_step_def raise_to_def split: prod.splits option.splits if_splits)
qed

lemma raise_to_props:
  "value_in (raise_to d ps) k = Max (insert (value_in d k) {v. (k, v) \<in> set ps})"
  "dict_ok d \<Longrightarrow> dict_ok (raise_to d ps)"
  "fst ` set (raise_to d ps) = fst ` set d \<union> fst ` set ps"
proof -
  have fin: "finite {v. (x, v) \<in> set qs}" for x :: 'b and qs :: "('b \<times> rat) list"
    by (rule finite_subset [of _ "snd ` set qs"]) force+
  show "value_in (raise_to d ps) k = Max (insert (value_in d k) {v. (k, v) \<in> set ps})"
  proof (induction ps arbitrary: d)
    case (Cons p ps)
    obtain x v where p: "p = (x, v)" by (cases p)
    have "{v. (k, v) \<in> set (p # ps)} = (if x = k then insert v {v. (k, v) \<in> set ps} else {v. (k, v) \<in> set ps})"
      by (auto simp: p)
    then show ?case
      using Cons.IH [of "dict_set x (max (value_in d x) v) d"] Max_insert_max [OF fin, of "value_in d k" v k ps]
      by (auto simp: p raise_to_def value_in_set simp del: Max_insert)
  qed (simp add: raise_to_def)
  show "dict_ok d \<Longrightarrow> dict_ok (raise_to d ps)"
    by (induction ps arbitrary: d) (auto simp: raise_to_def)
  show "fst ` set (raise_to d ps) = fst ` set d \<union> fst ` set ps"
  proof (induction ps arbitrary: d)
    case (Cons p ps)
    then show ?case by (cases p) (simp add: raise_to_def fst_set_dict_set insert_commute)
  qed (simp add: raise_to_def)
qed

lemma max_subtask_fold:
  assumes "res_map entry_pairs es = Inr pss"
  shows "res_fold max_subtask_step d es = Inr (raise_to d (concat pss))"
  using assms
proof (induction es arbitrary: d pss)
  case (Cons e es)
  then obtain ps pss' where e: "entry_pairs e = Inr ps" "res_map entry_pairs es = Inr pss'" "pss = ps # pss'"
    by auto
  then show ?case
    using Cons.IH max_subtask_step_eq [OF e(1)] by (simp add: raise_to_def)
qed (simp add: raise_to_def)

lemma sum_values: "dict_ok d \<Longrightarrow> sum_list (map snd d) = (\<Sum>k \<in> set (dict_keys d). value_in d k)"
proof (induction d)
  case (Cons p d)
  obtain k v where p: "p = (k, v)" by (cases p)
  have "(\<Sum>x \<in> set (dict_keys d). value_in (p # d) x) = (\<Sum>x \<in> set (dict_keys d). value_in d x)"
    using Cons.prems by (intro sum.cong) (auto simp: p value_in_def)
  then show ?case using Cons by (simp add: p) (simp add: value_in_def)
qed (simp add: value_in_def)

lemma task_score_max_subtask_eq:
  assumes "res_map entry_pairs es = Inr pss"
  shows "task_score_max_subtask es =
    Inr (\<Sum>k \<in> fst ` set (concat pss). Max (insert 0 {v. (k, v) \<in> set (concat pss)}))"
proof -
  let ?d = "raise_to [] (concat pss) :: (json, rat) dict"
  have "dict_ok ?d" by (rule raise_to_props(2)) simp
  then have "sum_list (map snd ?d) = (\<Sum>k \<in> set (dict_keys ?d). value_in ?d k)" by (rule sum_values)
  moreover have "value_in ([] :: (json, rat) dict) k = 0" for k by (simp add: value_in_def)
  ultimately show ?thesis
    using max_subtask_fold [OF assms, of "[]"]
    by (simp add: task_score_max_subtask_def raise_to_props del: Max_insert set_concat)
qed

text \<open>The worth of a submission by subtasks is at most what the mode \<^verbatim>\<open>max_subtask\<close> gives.\<close>

lemma pairs_below_max_subtask:
  assumes "res_map entry_pairs es = Inr pss" "ps \<in> set pss" "distinct (map fst ps)"
    and "task_score_max_subtask es = Inr t"
  shows "sum_list (map snd ps) \<le> t"
proof -
  let ?all = "set (concat pss)"
  let ?m = "\<lambda>k. Max (insert 0 {v. (k, v) \<in> ?all})"
  have fin: "finite (insert 0 {v. (k, v) \<in> ?all})" for k
    by (rule finite_subset [of _ "insert 0 (snd ` ?all)"]) force+
  have sub: "set ps \<subseteq> ?all" using assms(2) by auto
  have "sum_list (map snd ps) = (\<Sum>k \<in> fst ` set ps. value_in ps k)"
    using sum_values [OF assms(3)] by simp
  also have "\<dots> \<le> (\<Sum>k \<in> fst ` set ps. ?m k)"
  proof (rule sum_mono)
    fix k assume "k \<in> fst ` set ps"
    then obtain v where "(k, v) \<in> set ps" by auto
    then have "value_in ps k = v" using assms(3) by (simp add: value_in_def)
    then show "value_in ps k \<le> ?m k" using \<open>(k, v) \<in> set ps\<close> sub fin by (intro Max_ge) auto
  qed
  also have "\<dots> \<le> (\<Sum>k \<in> fst ` ?all. ?m k)"
    using sub fin by (intro sum_mono2) (auto intro: Max_ge)
  also have "\<dots> = t" using task_score_max_subtask_eq [OF assms(1)] assms(4) by simp
  finally show ?thesis .
qed


section \<open>The details that the score types store\<close>

lemma score_subtask_full:
  assumes "score_subtask st sr evaluations zeroed i parameter target hide = Inr (s, p, full, public)"
  shows "subtask_pair full = Inr (JFloat (of_nat i), JFloat s)" "py_round s (sr_score_precision sr) = s"
proof -
  have "\<exists>fr tcs nt m. s = py_round (fr * m) (sr_score_precision sr) \<and>
     full = JDict ([(''idx'', JInt (int i)), (''score_fraction'', JFloat fr), (''score'', JFloat s),
       (''max_score'', JFloat m), (''testcases'', JList tcs)] @ nt)"
    using assms unfolding score_subtask_def Let_def
    by (elim res_bindE) (simp, blast)
  then show "subtask_pair full = Inr (JFloat (of_nat i), JFloat s)" "py_round s (sr_score_precision sr) = s"
    by (auto simp: subtask_pair_def lookup_def)
qed

lemma res_map_pairs:
  assumes "\<And>k. k < length xs \<Longrightarrow> f (xs ! k) = Inr (g k)"
  shows "res_map f xs = Inr (map g [0..<length xs])"
  using assms
proof (induction xs arbitrary: g)
  case (Cons x xs)
  have "res_map f xs = Inr (map (\<lambda>k. g (Suc k)) [0..<length xs])"
    using Cons.prems by (intro Cons.IH) fastforce
  moreover have "f x = Inr (g 0)" using Cons.prems [of 0] by simp
  moreover have "[0..<length (x # xs)] = 0 # map Suc [0..<length xs]"
    by (simp add: upt_conv_Cons map_Suc_upt del: upt_Suc)
  ultimately show ?case by (simp add: o_def del: upt_Suc)
qed simp

lemma dict_of_distinct: "distinct (map fst (d @ ps)) \<Longrightarrow> foldl (\<lambda>d (k, v). dict_set k v d) d ps = d @ ps"
proof (induction ps arbitrary: d)
  case (Cons p ps)
  obtain k v where p: "p = (k, v)" by (cases p)
  have "dict_set k v d = d @ [(k, v)]" using Cons.prems p by (induction d) auto
  then show ?case using Cons by (simp add: p)
qed simp

text \<open>The entry that a computed score gives to the score modes.\<close>

lemma computed_entry:
  assumes "group_compute_score re_match st sr = Inr (score, details, ps, pd, ranking)"
  shows "score = sum_list ranking" "\<exists>pairs. entry_pairs (Some score, Some details, tok) = Inr pairs \<and>
    distinct (map fst pairs) \<and> sum_list (map snd pairs) = score \<and> (\<forall>x \<in> set (map snd pairs). x \<in> set ranking)"
proof -
  have "score = sum_list ranking \<and> (\<exists>pairs. entry_pairs (Some score, Some details, tok) = Inr pairs \<and>
    distinct (map fst pairs) \<and> sum_list (map snd pairs) = score \<and> (\<forall>x \<in> set (map snd pairs). x \<in> set ranking))"
  proof (cases "sr_evaluated sr")
    case False
    then have "score = 0" "details = JList []" "\<forall>x \<in> set ranking. x = 0"
      using assms by (auto simp: group_compute_score_def)
    moreover have "sum_list xs = 0" if "\<forall>x \<in> set xs. x = 0" for xs :: "rat list"
      using that by (induction xs) auto
    ultimately show ?thesis by (simp add: entry_pairs_def)
  next
    case True
    let ?f = "\<lambda>targets zeroed (st_idx, parameter). res_bind (py_nth targets st_idx) (\<lambda>target.
       res_bind (py_nth zeroed st_idx) (\<lambda>z. res_bind (py_nth (sg_hide_dependency st) st_idx) (\<lambda>hide.
         score_subtask st sr (evaluations_of sr) z st_idx parameter target hide)))"
    have ev: "\<not> \<not> sr_evaluated sr" using True by simp
    obtain targets zeroed subs where run: "res_map (?f targets zeroed) (enumerate 0 (sg_parameters st)) = Inr subs"
      and out: "score = py_round (sum_list (map (\<lambda>(s, _). s) subs)) (sr_score_precision sr)"
        "details = JList (map (\<lambda>(_, _, full, _). full) subs)" "ranking = map (\<lambda>(s, _). s) subs"
      using assms unfolding group_compute_score_def if_not_P [OF ev] Let_def by (elim res_bindE) (simp, blast)
    have each: "subtask_pair (fst (snd (snd (subs ! k)))) = Inr (JFloat (of_nat k), JFloat (fst (subs ! k))) \<and>
        py_round (fst (subs ! k)) (sr_score_precision sr) = fst (subs ! k)" if "k < length subs" for k
    proof -
      have k: "k < length (sg_parameters st)" using that res_map_Inr_length [OF run] by simp
      obtain s p full public where sub: "subs ! k = (s, p, full, public)" by (cases "subs ! k")
      have "?f targets zeroed (k, sg_parameters st ! k) = Inr (s, p, full, public)"
        using res_map_Inr_nth [OF run, of k] k sub by (simp add: nth_enumerate_eq)
      then obtain z target hide where
        "score_subtask st sr (evaluations_of sr) z k (sg_parameters st ! k) target hide = Inr (s, p, full, public)"
        by (auto elim!: res_bindE)
      then show ?thesis using score_subtask_full sub by fastforce
    qed
    let ?r = "map fst subs" and ?keys = "\<lambda>k. JFloat (rat_of_nat k)"
    have rk: "ranking = ?r" using out(3) by (simp add: split_beta)
    have score: "score = sum_list ranking"
    proof -
      have "\<forall>x \<in> set ?r. py_round x (sr_score_precision sr) = x"
      proof
        fix x assume "x \<in> set ?r"
        then obtain k where "k < length subs" "x = fst (subs ! k)" by (auto simp: in_set_conv_nth)
        then show "py_round x (sr_score_precision sr) = x" using each by simp
      qed
      then have "py_round (sum_list ranking) (sr_score_precision sr) = sum_list ranking"
        unfolding rk by (rule py_round_fixed_sum)
      then show ?thesis using out(1) unfolding out(3) by simp
    qed
    have pairs: "res_map subtask_pair (map (\<lambda>(_, _, full, _). full) subs) =
        Inr (map (\<lambda>k. (?keys k, JFloat (fst (subs ! k)))) [0..<length subs])"
      using res_map_pairs [of "map (\<lambda>(_, _, full, _). full) subs" subtask_pair
          "\<lambda>k. (?keys k, JFloat (fst (subs ! k)))"] each by (simp add: split_beta)
    have dist: "distinct (map fst (map (\<lambda>k. (?keys k, g k)) [0..<length subs]))" for g
      by (simp add: distinct_map inj_on_def o_def)
    show ?thesis
    proof (cases "subs = []")
      case True
      then show ?thesis using score out rk by (simp add: entry_pairs_def)
    next
      case False
      let ?ps = "map (\<lambda>k. (?keys k, fst (subs ! k))) [0..<length subs]"
      have "subtask_scores score (Some details) = map (\<lambda>k. (?keys k, JFloat (fst (subs ! k)))) [0..<length subs]"
        using False pairs dict_of_distinct [of "[]" "map (\<lambda>k. (?keys k, JFloat (fst (subs ! k)))) [0..<length subs]"]
          dist [of "\<lambda>k. JFloat (fst (subs ! k))"]
        by (simp add: subtask_scores_def out(2))
      moreover have "res_map (\<lambda>(k, j). res_bind (json_num j) (\<lambda>v. Inr (k, v)))
          (map (\<lambda>k. (?keys k, JFloat (h k))) ks) = Inr (map (\<lambda>k. (?keys k, h k)) ks)" for h ks
        by (induction ks) auto
      ultimately have "entry_pairs (Some score, Some details, tok) = Inr ?ps"
        using False by (simp add: entry_pairs_def out(2))
      moreover have "map snd ?ps = ranking" unfolding rk by (intro nth_equalityI) simp_all
      ultimately have "entry_pairs (Some score, Some details, tok) = Inr ?ps \<and> distinct (map fst ?ps) \<and>
          sum_list (map snd ?ps) = score \<and> (\<forall>x \<in> set (map snd ?ps). x \<in> set ranking)"
        using dist [of "\<lambda>k. fst (subs ! k)"] score by simp
      then show ?thesis using score by blast
    qed
  qed
  then show "score = sum_list ranking" "\<exists>pairs. entry_pairs (Some score, Some details, tok) = Inr pairs \<and>
    distinct (map fst pairs) \<and> sum_list (map snd pairs) = score \<and> (\<forall>x \<in> set (map snd pairs). x \<in> set ranking)"
    by auto
qed


section \<open>Properties\<close>


definition submission_sample :: "nat \<Rightarrow> datetime \<Rightarrow> bool \<Rightarrow> rat \<Rightarrow> submission_of_task" where
  "submission_sample i t tok s = \<lparr>st_id = i, st_task = 1, st_official = True, st_timestamp = t, st_tokened = tok,
     st_results = [(5, \<lparr>rr_score = Some s, rr_score_details = Some (JList []), rr_public_score = Some 0,
       rr_public_score_details = Some (JList []), rr_ranking_score_details = Some []\<rparr>)]\<rparr>"


lemma computed_entries_pairs:
  assumes "\<forall>e \<in> set entries. \<exists>sr score details ps pd ranking tok.
      group_compute_score re_match st sr = Inr (score, details, ps, pd, ranking) \<and> e = (Some score, Some details, tok)"
  shows "\<exists>pss. res_map entry_pairs entries = Inr pss \<and> length pss = length entries \<and>
    (\<forall>i < length entries. distinct (map fst (pss ! i)) \<and> fst (entries ! i) = Some (sum_list (map snd (pss ! i))))"
  using assms
proof (induction entries)
  case (Cons e entries)
  obtain sr score details ps pd ranking tok where
    e: "group_compute_score re_match st sr = Inr (score, details, ps, pd, ranking)" "e = (Some score, Some details, tok)"
    using Cons.prems by auto
  obtain pairs where p: "entry_pairs e = Inr pairs" "distinct (map fst pairs)" "sum_list (map snd pairs) = score"
    using computed_entry(2) [OF e(1)] e(2) by metis
  obtain pss where pss: "res_map entry_pairs entries = Inr pss" "length pss = length entries"
    "\<forall>i < length entries. distinct (map fst (pss ! i)) \<and> fst (entries ! i) = Some (sum_list (map snd (pss ! i)))"
    using Cons by auto
  have "distinct (map fst ((pairs # pss) ! i)) \<and> fst ((e # entries) ! i) = Some (sum_list (map snd ((pairs # pss) ! i)))"
    if "i < length (e # entries)" for i
    using that p pss(3) e(2) by (cases i) auto
  then show ?case using p(1) pss(1,2) by (intro exI [of _ "pairs # pss"]) simp
qed simp

text \<open>
  The mode \<^verbatim>\<open>max_subtask\<close> never gives less than \<^verbatim>\<open>max\<close>. For submissions scored by one group score
  type (whatever their outcomes), the mode reads the stored details without an exception and its
  score is at least the best single score.
\<close>

theorem max_subtask_dominates:
  assumes "\<forall>e \<in> set entries. \<exists>sr score details ps pd ranking tok.
      group_compute_score re_match st sr = Inr (score, details, ps, pd, ranking) \<and> e = (Some score, Some details, tok)"
  shows "\<exists>t. task_score_max_subtask entries = Inr t \<and> task_score_max entries \<le> t"
proof -
  obtain pss where pss: "res_map entry_pairs entries = Inr pss" "length pss = length entries"
    "\<forall>i < length entries. distinct (map fst (pss ! i)) \<and> fst (entries ! i) = Some (sum_list (map snd (pss ! i)))"
    using computed_entries_pairs [OF assms] by blast
  obtain t where t: "task_score_max_subtask entries = Inr t" "0 \<le> t"
  proof -
    have fin: "finite (insert 0 {v. (k, v) \<in> set (concat pss)})" for k
      by (rule finite_subset [of _ "insert 0 (snd ` set (concat pss))"]) force+
    have "0 \<le> (\<Sum>k \<in> fst ` set (concat pss). Max (insert 0 {v. (k, v) \<in> set (concat pss)}))"
      by (rule sum_nonneg) (rule Max_ge [OF fin], simp)
    then show ?thesis using that task_score_max_subtask_eq [OF pss(1)] by blast
  qed
  have "x \<le> t" if "x \<in> set (entry_scores entries)" for x
  proof -
    have "x \<in> set (entry_scores xs) \<Longrightarrow> \<exists>e \<in> set xs. fst e = Some x" for xs
    proof (induction xs)
      case (Cons e xs)
      then show ?case by (cases e; cases "fst e") auto
    qed simp
    from this [OF that] obtain e where "e \<in> set entries" "fst e = Some x" by blast
    then obtain i where i: "i < length entries" "fst (entries ! i) = Some x"
      by (auto simp: in_set_conv_nth)
    then have "x = sum_list (map snd (pss ! i))" "distinct (map fst (pss ! i))" using pss(3) by auto
    then show ?thesis
      using pairs_below_max_subtask [OF pss(1) _ _ t(1), of "pss ! i"] i(1) pss(2) by simp
  qed
  then have "task_score_max entries \<le> t" using t(2) by (simp add: task_score_max_eq del: Max_insert)
  then show ?thesis using t(1) by blast
qed


theorem max_subtask_dominates_witness:
  "\<exists>score details ps pd ranking t.
     group_compute_score no_regexp (group_sample GroupMin) (result_sample 1 (1 / 2) 1) =
       Inr (score, details, ps, pd, ranking) \<and>
     task_score_max_subtask [(Some score, Some details, False)] = Inr t \<and>
     task_score_max [(Some score, Some details, False)] \<le> t"
proof -
  have "\<not> isl (group_compute_score no_regexp (group_sample GroupMin) (result_sample 1 (1 / 2) 1))" by code_simp
  then obtain score details ps pd ranking where
    "group_compute_score no_regexp (group_sample GroupMin) (result_sample 1 (1 / 2) 1) =
       Inr (score, details, ps, pd, ranking)" using res_okI by (metis prod_cases5)
  then show ?thesis
    using max_subtask_dominates [of "[(Some score, Some details, False)]" no_regexp "group_sample GroupMin"] by auto
qed

end
