(* ===== verification/RankingScoring.thy ===== *)
theory RankingScoring
  imports TaskScoring
begin

text \<open>
  Scores in the ranking web server, from \<^verbatim>\<open>cmsranking/Scoring.py\<close>: the score of a user on a task as it
  follows the stream of changes of the submissions, its history, and the store of all of them.
  The scores are exact rational numbers; the elements of \<^verbatim>\<open>extra\<close>, strings that the code passes to
  \<^verbatim>\<open>float()\<close>, are given by what \<^verbatim>\<open>float()\<close> makes of them.
\<close>

section \<open>Model\<close>

record rank_submission =
  rs_user :: string
  rs_task :: string
  rs_time :: int
  rs_score :: rat
  rs_token :: bool
  rs_extra :: "outcome list"

record subchange =
  ch_key :: string
  ch_submission :: string
  ch_time :: int
  ch_score :: "rat option"
  ch_token :: "bool option"
  ch_extra :: "outcome list option"

text \<open>
  \<^verbatim>\<open>Score\<close>. \<^verbatim>\<open>_last\<close> refers to one of the submissions of the dictionary, so it is its key; \<^verbatim>\<open>_released\<close>
  is the list of the \<^verbatim>\<open>NumberSet\<close>.
\<close>

record score_obj =
  so_submissions :: "(string, rank_submission) dict"
  so_changes :: "subchange list"
  so_released :: "rat list"
  so_last :: "string option"
  so_history :: "(int \<times> rat) list"
  so_mode :: score_mode

definition score_obj_init :: "score_mode \<Rightarrow> score_obj" where
  "score_obj_init mode = \<lparr>so_submissions = [], so_changes = [], so_released = [], so_last = None,
     so_history = [], so_mode = mode\<rparr>"

definition number_set_insert :: "rat \<Rightarrow> rat list \<Rightarrow> rat list" where
  "number_set_insert val impl = impl @ [val]"

definition number_set_remove :: "rat \<Rightarrow> rat list \<Rightarrow> rat list res" where
  "number_set_remove val impl = (if val \<in> set impl then Inr (remove1 val impl) else Inl ValueError)"

definition number_set_query :: "rat list \<Rightarrow> rat" where
  "number_set_query impl = Max (set (impl @ [0]))"

definition last_submission :: "score_obj \<Rightarrow> rank_submission option" where
  "last_submission sc = (case so_last sc of None \<Rightarrow> None | Some k \<Rightarrow> dict_get (so_submissions sc) k)"

definition so_get_score :: "score_obj \<Rightarrow> rat" where
  "so_get_score sc = (if so_history sc = [] then 0 else snd (last (so_history sc)))"

definition apply_change :: "subchange \<Rightarrow> rank_submission \<Rightarrow> rank_submission" where
  "apply_change change sub =
     sub\<lparr>rs_score := (case ch_score change of None \<Rightarrow> rs_score sub | Some x \<Rightarrow> x),
         rs_token := (case ch_token change of None \<Rightarrow> rs_token sub | Some x \<Rightarrow> x),
         rs_extra := (case ch_extra change of None \<Rightarrow> rs_extra sub | Some x \<Rightarrow> x)\<rparr>"

text \<open>\<^verbatim>\<open>zip_longest\<close> over the rows, and the sum of the maxima of the columns.\<close>

definition column :: "rat list list \<Rightarrow> nat \<Rightarrow> rat list" where
  "column rows j = map (\<lambda>row. if j < length row then row ! j else 0) rows"

definition sum_of_columns :: "rat list list \<Rightarrow> rat" where
  "sum_of_columns rows =
     sum_list (map (\<lambda>j. Max (set (column rows j))) [0..<foldr (\<lambda>row n. max (length row) n) rows 0])"

definition score_row :: "rank_submission \<Rightarrow> rat list res" where
  "score_row s = (if rs_extra s \<noteq> [] then res_map float_of (rs_extra s) else Inr [rs_score s])"

definition mode_score :: "score_obj \<Rightarrow> rat res" where
  "mode_score sc =
     (let subs = map snd (so_submissions sc) in
      case so_mode sc of
        SCORE_MODE_MAX \<Rightarrow> Inr (if subs = [] then 0 else Max (set (map rs_score subs)))
      | SCORE_MODE_MAX_SUBTASK \<Rightarrow> res_bind (res_map score_row subs) (\<lambda>rows. Inr (sum_of_columns rows))
      | SCORE_MODE_MAX_TOKENED_LAST \<Rightarrow>
          Inr (max (number_set_query (so_released sc))
                 (case last_submission sc of None \<Rightarrow> 0 | Some s \<Rightarrow> rs_score s))
      | OtherMode \<Rightarrow> Inl ValueError)"

definition append_change :: "score_obj \<Rightarrow> subchange \<Rightarrow> score_obj res" where
  "append_change sc change =
     (let s_id = ch_submission change in
      case dict_get (so_submissions sc) s_id of
        None \<Rightarrow> Inl KeyError
      | Some sub \<Rightarrow>
          res_bind (if rs_token sub then number_set_remove (rs_score sub) (so_released sc) else Inr (so_released sc))
          (\<lambda>released.
            let sub' = apply_change change sub;
                released' = (if rs_token sub' then number_set_insert (rs_score sub') released else released);
                last' = (if ch_score change \<noteq> None \<and>
                            (case last_submission sc of None \<Rightarrow> True | Some l \<Rightarrow> rs_time l < rs_time sub')
                         then Some s_id else so_last sc);
                sc' = sc\<lparr>so_submissions := dict_set s_id sub' (so_submissions sc),
                        so_released := released', so_last := last'\<rparr>
            in res_bind (mode_score sc') (\<lambda>score.
                 Inr (if score \<noteq> so_get_score sc'
                      then sc'\<lparr>so_history := so_history sc' @ [(ch_time change, score)]\<rparr> else sc'))))"

fun score_at_from :: "rat \<Rightarrow> (int \<times> rat) list \<Rightarrow> int \<Rightarrow> rat" where
  "score_at_from score [] t = score"
| "score_at_from score ((change_time, v) # history) t =
     (if t < change_time then score else score_at_from v history t)"

definition score_at :: "score_obj \<Rightarrow> int \<Rightarrow> rat" where
  "score_at sc t = score_at_from 0 (so_history sc) t"

definition reset_submission :: "rank_submission \<Rightarrow> rank_submission" where
  "reset_submission sub = sub\<lparr>rs_score := 0, rs_token := False, rs_extra := []\<rparr>"

text \<open>The loop over the changes in \<^verbatim>\<open>submissions_at\<close>, which stops at the first later one.\<close>

fun changes_until :: "(string, rank_submission) dict \<Rightarrow> subchange list \<Rightarrow> int \<Rightarrow> (string, rank_submission) dict" where
  "changes_until result [] t = result"
| "changes_until result (change # changes) t =
     (if t < ch_time change then result
      else case dict_get result (ch_submission change) of
        None \<Rightarrow> changes_until result changes t
      | Some past \<Rightarrow> changes_until (dict_set (ch_submission change) (apply_change change past) result) changes t)"

definition submissions_at :: "score_obj \<Rightarrow> int \<Rightarrow> (string, rank_submission) dict" where
  "submissions_at sc t =
     changes_until (map (\<lambda>(k, sub). (k, reset_submission sub)) (filter (\<lambda>(k, sub). rs_time sub \<le> t) (so_submissions sc)))
       (so_changes sc) t"

definition clear_history :: "score_obj \<Rightarrow> score_obj" where
  "clear_history sc = sc\<lparr>so_last := None, so_released := [], so_history := [],
     so_submissions := map (\<lambda>(k, sub). (k, reset_submission sub)) (so_submissions sc)\<rparr>"

definition reset_history :: "score_obj \<Rightarrow> score_obj res" where
  "reset_history sc = res_fold append_change (clear_history sc) (so_changes sc)"

definition change_before :: "subchange \<Rightarrow> subchange \<Rightarrow> bool" where
  "change_before a b \<longleftrightarrow> ch_time a < ch_time b \<or> (ch_time a = ch_time b \<and> ch_key a < ch_key b)"

fun insert_change :: "subchange \<Rightarrow> subchange list \<Rightarrow> subchange list" where
  "insert_change subchange [] = []"
| "insert_change subchange (val # vals) =
     (if change_before subchange val then subchange # val # vals else val # insert_change subchange vals)"

text \<open>The log messages read the submission of the subchange, which fails if there is none.\<close>

definition log_reset :: "subchange \<Rightarrow> score_obj \<Rightarrow> score_obj res" where
  "log_reset subchange sc =
     (if dict_get (so_submissions sc) (ch_submission subchange) = None then Inl KeyError else Inr sc)"

definition so_create_subchange :: "score_obj \<Rightarrow> subchange \<Rightarrow> score_obj res" where
  "so_create_subchange sc subchange =
     (if so_changes sc = [] \<or> change_before (last (so_changes sc)) subchange
      then append_change (sc\<lparr>so_changes := so_changes sc @ [subchange]\<rparr>) subchange
      else res_bind (reset_history (sc\<lparr>so_changes := insert_change subchange (so_changes sc)\<rparr>))
             (log_reset subchange))"

definition so_update_subchange :: "score_obj \<Rightarrow> string \<Rightarrow> subchange \<Rightarrow> score_obj res" where
  "so_update_subchange sc key subchange =
     res_bind (reset_history
       (sc\<lparr>so_changes := map (\<lambda>c. if ch_key c = key then subchange else c) (so_changes sc)\<rparr>))
       (log_reset subchange)"

definition so_delete_subchange :: "score_obj \<Rightarrow> string \<Rightarrow> score_obj res" where
  "so_delete_subchange sc key =
     reset_history (sc\<lparr>so_changes := filter (\<lambda>c. ch_key c \<noteq> key) (so_changes sc)\<rparr>)"

definition so_create_submission :: "score_obj \<Rightarrow> string \<Rightarrow> rank_submission \<Rightarrow> score_obj" where
  "so_create_submission sc key submission =
     sc\<lparr>so_submissions := dict_set key (reset_submission submission) (so_submissions sc)\<rparr>"

definition so_update_submission :: "score_obj \<Rightarrow> string \<Rightarrow> rank_submission \<Rightarrow> score_obj res" where
  "so_update_submission sc key submission =
     reset_history (sc\<lparr>so_submissions := dict_set key submission (so_submissions sc)\<rparr>)"

definition so_delete_submission :: "score_obj \<Rightarrow> string \<Rightarrow> score_obj res" where
  "so_delete_submission sc key =
     (if dict_get (so_submissions sc) key = None then Inr sc
      else reset_history (sc\<lparr>so_submissions := dict_del key (so_submissions sc),
             so_changes := filter (\<lambda>c. ch_submission c \<noteq> key) (so_changes sc)\<rparr>))"

definition so_update_score_mode :: "score_obj \<Rightarrow> score_mode \<Rightarrow> score_obj" where
  "so_update_score_mode sc score_mode = sc\<lparr>so_mode := score_mode\<rparr>"


subsection \<open>The store of all scores\<close>

text \<open>
  \<^verbatim>\<open>ScoringStore\<close>: user and task give a score object. \<open>sst_notified\<close> records the calls of the
  callbacks. The entity stores are arguments: \<open>submissions\<close> for \<^verbatim>\<open>submission_store._store\<close> and \<open>task_mode\<close>
  for the score mode that \<^verbatim>\<open>task_store.retrieve\<close> finds.
\<close>

record scoring_store =
  sst_scores :: "(string, (string, score_obj) dict) dict"
  sst_notified :: "(string \<times> string \<times> rat) list"

definition scoring_store_init :: scoring_store where
  "scoring_store_init = \<lparr>sst_scores = [], sst_notified = []\<rparr>"

definition tasks_of :: "scoring_store \<Rightarrow> string \<Rightarrow> (string, score_obj) dict" where
  "tasks_of ss user = (case dict_get (sst_scores ss) user of None \<Rightarrow> [] | Some d \<Rightarrow> d)"

definition find_score :: "scoring_store \<Rightarrow> string \<Rightarrow> string \<Rightarrow> score_obj res" where
  "find_score ss user task =
     res_bind (lookup (sst_scores ss) user) (\<lambda>tasks. lookup tasks task)"

definition put_score :: "string \<Rightarrow> string \<Rightarrow> score_obj \<Rightarrow> scoring_store \<Rightarrow> scoring_store" where
  "put_score user task sc ss =
     ss\<lparr>sst_scores := dict_set user (dict_set task sc (tasks_of ss user)) (sst_scores ss)\<rparr>"

text \<open>The body that the handlers share: run \<open>f\<close> on the object and notify if the score changed.\<close>

definition change_score ::
  "string \<Rightarrow> string \<Rightarrow> (score_obj \<Rightarrow> score_obj res) \<Rightarrow> scoring_store \<Rightarrow> scoring_store res" where
  "change_score user task f ss =
     res_bind (find_score ss user task) (\<lambda>sc.
     res_bind (f sc) (\<lambda>sc'.
       let ss' = put_score user task sc' ss
       in Inr (if so_get_score sc \<noteq> so_get_score sc'
               then ss'\<lparr>sst_notified := sst_notified ss' @ [(user, task, so_get_score sc')]\<rparr> else ss')))"

definition sst_create_submission ::
  "(string \<Rightarrow> score_mode res) \<Rightarrow> string \<Rightarrow> rank_submission \<Rightarrow> scoring_store \<Rightarrow> scoring_store res" where
  "sst_create_submission task_mode key submission ss =
     (let user = rs_user submission; task = rs_task submission in
      res_bind (if dict_get (tasks_of ss user) task = None
                then res_bind (task_mode task) (\<lambda>mode. Inr (put_score user task (score_obj_init mode) ss))
                else Inr ss) (\<lambda>ss'.
        change_score user task (\<lambda>sc. Inr (so_create_submission sc key submission)) ss'))"

definition sst_delete_submission :: "string \<Rightarrow> rank_submission \<Rightarrow> scoring_store \<Rightarrow> scoring_store res" where
  "sst_delete_submission key submission ss =
     (let user = rs_user submission; task = rs_task submission in
      res_bind (change_score user task (\<lambda>sc. so_delete_submission sc key) ss) (\<lambda>ss1.
      res_bind (find_score ss1 user task) (\<lambda>sc.
        let tasks = (if so_submissions sc = [] then dict_del task (tasks_of ss1 user) else tasks_of ss1 user)
        in Inr (ss1\<lparr>sst_scores :=
             (if tasks = [] then dict_del user (sst_scores ss1) else dict_set user tasks (sst_scores ss1))\<rparr>))))"

definition sst_update_submission ::
  "(string \<Rightarrow> score_mode res) \<Rightarrow> string \<Rightarrow> rank_submission \<Rightarrow> rank_submission \<Rightarrow> scoring_store \<Rightarrow> scoring_store res" where
  "sst_update_submission task_mode key old_submission submission ss =
     (if rs_user old_submission \<noteq> rs_user submission \<or> rs_task old_submission \<noteq> rs_task submission
      then res_bind (sst_delete_submission key old_submission ss) (sst_create_submission task_mode key submission)
      else
        res_bind (task_mode (rs_task submission)) (\<lambda>mode.
          change_score (rs_user submission) (rs_task submission)
            (\<lambda>sc. res_bind (so_update_submission sc key submission) (\<lambda>sc'. Inr (so_update_score_mode sc' mode))) ss))"

definition sst_create_subchange ::
  "(string, rank_submission) dict \<Rightarrow> subchange \<Rightarrow> scoring_store \<Rightarrow> scoring_store res" where
  "sst_create_subchange submissions subchange ss =
     res_bind (lookup submissions (ch_submission subchange)) (\<lambda>submission.
       change_score (rs_user submission) (rs_task submission) (\<lambda>sc. so_create_subchange sc subchange) ss)"

definition sst_delete_subchange ::
  "(string, rank_submission) dict \<Rightarrow> string \<Rightarrow> subchange \<Rightarrow> scoring_store \<Rightarrow> scoring_store res" where
  "sst_delete_subchange submissions key subchange ss =
     (case dict_get submissions (ch_submission subchange) of
        None \<Rightarrow> Inr ss
      | Some submission \<Rightarrow>
          change_score (rs_user submission) (rs_task submission) (\<lambda>sc. so_delete_subchange sc key) ss)"

definition sst_update_subchange ::
  "(string, rank_submission) dict \<Rightarrow> string \<Rightarrow> subchange \<Rightarrow> subchange \<Rightarrow> scoring_store \<Rightarrow> scoring_store res" where
  "sst_update_subchange submissions key old_subchange subchange ss =
     (if ch_submission old_subchange \<noteq> ch_submission subchange
      then res_bind (sst_delete_subchange submissions key old_subchange ss) (sst_create_subchange submissions subchange)
      else
        res_bind (lookup submissions (ch_submission subchange)) (\<lambda>submission.
          change_score (rs_user submission) (rs_task submission) (\<lambda>sc. so_update_subchange sc key subchange) ss))"

text \<open>\<^verbatim>\<open>init_store\<close>: the subchanges are taken in the order of their keys.\<close>

definition init_store ::
  "(string \<Rightarrow> score_mode res) \<Rightarrow> (string, rank_submission) dict \<Rightarrow> (string, subchange) dict \<Rightarrow> scoring_store \<Rightarrow>
   scoring_store res" where
  "init_store task_mode submissions subchanges ss =
     res_bind (res_fold (\<lambda>ss (key, submission). sst_create_submission task_mode key submission ss) ss submissions) (\<lambda>ss1.
       res_fold (\<lambda>ss (key, subchange). sst_create_subchange submissions subchange ss) ss1 (sort_key fst subchanges))"

definition sst_get_score :: "scoring_store \<Rightarrow> string \<Rightarrow> string \<Rightarrow> rat" where
  "sst_get_score ss user task =
     (case find_score ss user task of Inl _ \<Rightarrow> 0 | Inr sc \<Rightarrow> so_get_score sc)"

definition sst_get_submissions :: "scoring_store \<Rightarrow> string \<Rightarrow> string \<Rightarrow> (string, rank_submission) dict" where
  "sst_get_submissions ss user task =
     (case find_score ss user task of Inl _ \<Rightarrow> [] | Inr sc \<Rightarrow> so_submissions sc)"

definition get_scores_at :: "scoring_store \<Rightarrow> int \<Rightarrow> (string, (string, rat) dict) dict" where
  "get_scores_at ss t =
     foldl (\<lambda>result (user, tasks).
       foldl (\<lambda>result (task, sc).
         let score = score_at sc t in
         if 0 < score
         then dict_set user (dict_set task score (case dict_get result user of None \<Rightarrow> [] | Some d \<Rightarrow> d)) result
         else result) result tasks) [] (sst_scores ss)"

definition get_submissions_at :: "scoring_store \<Rightarrow> string \<Rightarrow> string \<Rightarrow> int \<Rightarrow> (string, rank_submission) dict" where
  "get_submissions_at ss user task t =
     (case find_score ss user task of Inl _ \<Rightarrow> [] | Inr sc \<Rightarrow> submissions_at sc t)"

text \<open>
  \<^verbatim>\<open>get_global_history\<close>. An element of the heap is the next entry of a history with its user and task,
  and the entries after it; the heap is kept as the list of its elements in increasing order.
\<close>

type_synonym heap_entry = "((int \<times> rat) \<times> string \<times> string) \<times> (int \<times> rat) list"

definition push_history :: "string \<Rightarrow> string \<Rightarrow> (int \<times> rat) list \<Rightarrow> heap_entry list \<Rightarrow> heap_entry list" where
  "push_history user task history queue =
     (case history of [] \<Rightarrow> queue | h # hs \<Rightarrow> insort_key fst ((h, user, task), hs) queue)"

definition queue_size :: "heap_entry list \<Rightarrow> nat" where
  "queue_size queue = sum_list (map (\<lambda>e. Suc (length (snd e))) queue)"

lemma queue_size_insort [simp]: "queue_size (insort_key fst e queue) = Suc (length (snd e)) + queue_size queue"
  by (induction queue) (simp_all add: queue_size_def)

lemma queue_size_push: "queue_size (push_history user task history queue) = length history + queue_size queue"
  by (simp add: push_history_def split: list.split)

function merge_histories :: "int option \<Rightarrow> heap_entry list \<Rightarrow> (string \<times> string \<times> int \<times> rat) list" where
  "merge_histories until [] = []"
| "merge_histories until ((((time, score), user, task), rest) # queue) =
     (if (case until of None \<Rightarrow> False | Some u \<Rightarrow> u < time) then []
      else (user, task, time, score) # merge_histories until (push_history user task rest queue))"
  by pat_completeness auto
termination
proof (relation "measure (\<lambda>(_, queue). queue_size queue)")
  fix until :: "int option" and time :: int and score :: rat and user task :: string
    and rest :: "(int \<times> rat) list" and queue :: "heap_entry list"
  show "((until, push_history user task rest queue), until, (((time, score), user, task), rest) # queue)
      \<in> measure (\<lambda>(_, queue). queue_size queue)"
    by (simp add: queue_size_push) (simp add: queue_size_def)
qed simp

definition get_global_history :: "scoring_store \<Rightarrow> int option \<Rightarrow> (string \<times> string \<times> int \<times> rat) list" where
  "get_global_history ss until =
     merge_histories until (foldl (\<lambda>queue (user, dic).
       foldl (\<lambda>queue (task, scoring). push_history user task (so_history scoring) queue) queue dic) [] (sst_scores ss))"


section \<open>Replaying the changes\<close>

text \<open>
  What an object should be is what a replay of its changes gives. \<open>consistent\<close> says that the object is
  that already.
\<close>

definition consistent :: "score_obj \<Rightarrow> bool" where
  "consistent sc \<longleftrightarrow> reset_history sc = Inr sc"

lemma last_submission_changes [simp]:
  "last_submission (sc\<lparr>so_changes := cs\<rparr>) = last_submission sc"
  "last_submission (sc\<lparr>so_history := h\<rparr>) = last_submission sc"
  by (simp_all add: last_submission_def split: option.split)

lemma mode_score_frame [simp]:
  "mode_score (sc\<lparr>so_changes := cs\<rparr>) = mode_score sc"
  "mode_score (sc\<lparr>so_history := h\<rparr>) = mode_score sc"
  by (simp_all add: mode_score_def Let_def split: score_mode.split)

lemma so_get_score_frame [simp]:
  "so_get_score (sc\<lparr>so_changes := cs\<rparr>) = so_get_score sc"
  "so_get_score (sc\<lparr>so_submissions := subs\<rparr>) = so_get_score sc"
  "so_get_score (sc\<lparr>so_released := rel\<rparr>) = so_get_score sc"
  "so_get_score (sc\<lparr>so_last := l\<rparr>) = so_get_score sc"
  by (simp_all add: so_get_score_def)

text \<open>The two halves of \<open>append_change\<close>: the object once the change is applied, and the record of its score.\<close>

definition applied :: "score_obj \<Rightarrow> subchange \<Rightarrow> rank_submission \<Rightarrow> rat list \<Rightarrow> score_obj" where
  "applied sc change sub released =
     (let sub' = apply_change change sub in
      sc\<lparr>so_submissions := dict_set (ch_submission change) sub' (so_submissions sc),
        so_released := (if rs_token sub' then number_set_insert (rs_score sub') released else released),
        so_last := (if ch_score change \<noteq> None \<and>
            (case last_submission sc of None \<Rightarrow> True | Some l \<Rightarrow> rs_time l < rs_time sub')
          then Some (ch_submission change) else so_last sc)\<rparr>)"

definition record_score :: "int \<Rightarrow> rat \<Rightarrow> score_obj \<Rightarrow> score_obj" where
  "record_score time score sc =
     (if score \<noteq> so_get_score sc then sc\<lparr>so_history := so_history sc @ [(time, score)]\<rparr> else sc)"

definition withdraw :: "rank_submission \<Rightarrow> rat list \<Rightarrow> rat list res" where
  "withdraw sub released = (if rs_token sub then number_set_remove (rs_score sub) released else Inr released)"

lemma append_change_eq:
  "append_change sc c =
     (case dict_get (so_submissions sc) (ch_submission c) of
        None \<Rightarrow> Inl KeyError
      | Some sub \<Rightarrow> res_bind (withdraw sub (so_released sc)) (\<lambda>rel.
          res_bind (mode_score (applied sc c sub rel)) (\<lambda>score. Inr (record_score (ch_time c) score (applied sc c sub rel)))))"
  unfolding append_change_def applied_def record_score_def withdraw_def Let_def by (rule refl)

lemma append_changeE:
  assumes "append_change sc c = Inr sc'"
  obtains sub rel score where "dict_get (so_submissions sc) (ch_submission c) = Some sub"
    "withdraw sub (so_released sc) = Inr rel" "mode_score (applied sc c sub rel) = Inr score"
    "sc' = record_score (ch_time c) score (applied sc c sub rel)"
  using assms unfolding append_change_eq by (cases "dict_get (so_submissions sc) (ch_submission c)") auto

lemma applied_frame [simp]:
  "so_changes (applied sc c sub rel) = so_changes sc"
  "so_mode (applied sc c sub rel) = so_mode sc"
  "so_history (applied sc c sub rel) = so_history sc"
  "so_submissions (applied sc c sub rel) = dict_set (ch_submission c) (apply_change c sub) (so_submissions sc)"
  by (simp_all add: applied_def Let_def)

lemma applied_with_changes:
  "applied (sc\<lparr>so_changes := cs\<rparr>) c sub rel = (applied sc c sub rel)\<lparr>so_changes := cs\<rparr>"
  by (simp add: applied_def Let_def)

lemma record_score_frame [simp]:
  "so_changes (record_score t x sc) = so_changes sc"
  "so_mode (record_score t x sc) = so_mode sc"
  "so_submissions (record_score t x sc) = so_submissions sc"
  "so_released (record_score t x sc) = so_released sc"
  "so_last (record_score t x sc) = so_last sc"
  by (simp_all add: record_score_def)

lemma record_score_with_changes:
  "record_score t x (sc\<lparr>so_changes := cs\<rparr>) = (record_score t x sc)\<lparr>so_changes := cs\<rparr>"
  by (simp add: record_score_def)

lemma so_get_score_record [simp]: "so_get_score (record_score t x sc) = x"
  by (simp add: record_score_def so_get_score_def)

lemma append_change_with_changes:
  "append_change (sc\<lparr>so_changes := cs\<rparr>) c =
     res_bind (append_change sc c) (\<lambda>s. Inr (s\<lparr>so_changes := cs\<rparr>))"
proof (cases "dict_get (so_submissions sc) (ch_submission c)")
  case (Some sub)
  then show ?thesis
  proof (cases "withdraw sub (so_released sc)")
    case (Inr rel)
    then show ?thesis using Some
      by (cases "mode_score (applied sc c sub rel)")
        (simp_all add: append_change_eq applied_with_changes record_score_with_changes)
  qed (simp add: append_change_eq)
qed (simp add: append_change_eq)

lemma dict_keys_set_same [simp]: "dict_get d k = Some v \<Longrightarrow> dict_keys (dict_set k w d) = dict_keys d"
  by (simp add: update_keys) (metis map_of_SomeD fst_conv image_eqI)

lemma append_change_keeps:
  assumes "append_change sc c = Inr sc'"
  shows "so_changes sc' = so_changes sc" "so_mode sc' = so_mode sc"
    "dict_keys (so_submissions sc') = dict_keys (so_submissions sc)"
  using assms by (auto elim!: append_changeE)

lemma replay_with_changes:
  "res_fold append_change (sc\<lparr>so_changes := cs\<rparr>) ds =
     res_bind (res_fold append_change sc ds) (\<lambda>s. Inr (s\<lparr>so_changes := cs\<rparr>))"
proof (induction ds arbitrary: sc)
  case (Cons d ds)
  then show ?case by (cases "append_change sc d") (simp_all add: append_change_with_changes)
qed simp

lemma replay_keeps:
  assumes "res_fold append_change sc ds = Inr sc'"
  shows "so_changes sc' = so_changes sc" "so_mode sc' = so_mode sc"
    "dict_keys (so_submissions sc') = dict_keys (so_submissions sc)"
  using assms by (induction ds arbitrary: sc) (auto dest: append_change_keeps)

text \<open>A replay changes of the submissions only what the clearing sets back.\<close>

lemma reset_apply [simp]: "reset_submission (apply_change c sub) = reset_submission sub"
  by (simp add: reset_submission_def apply_change_def)

lemma reset_idem [simp]: "reset_submission (reset_submission sub) = reset_submission sub"
  by (simp add: reset_submission_def)

lemma map_reset_set:
  "dict_get d k = Some v \<Longrightarrow> reset_submission v' = reset_submission v \<Longrightarrow>
   map (\<lambda>(k, sub). (k, reset_submission sub)) (dict_set k v' d) = map (\<lambda>(k, sub). (k, reset_submission sub)) d"
  by (induction d) auto

lemma clear_append:
  assumes "append_change sc c = Inr sc'"
  shows "clear_history sc' = clear_history sc"
proof -
  obtain sub where "dict_get (so_submissions sc) (ch_submission c) = Some sub"
    "so_submissions sc' = dict_set (ch_submission c) (apply_change c sub) (so_submissions sc)"
    using assms by (auto elim!: append_changeE)
  then show ?thesis using append_change_keeps [OF assms]
    by (simp add: clear_history_def map_reset_set)
qed

lemma clear_replay: "res_fold append_change sc ds = Inr sc' \<Longrightarrow> clear_history sc' = clear_history sc"
  by (induction ds arbitrary: sc) (auto dest: clear_append)

lemma clear_idem [simp]: "clear_history (clear_history sc) = clear_history sc"
  by (simp add: clear_history_def comp_def split_beta)

lemma clear_history_frame [simp]:
  "so_changes (clear_history sc) = so_changes sc"
  "so_mode (clear_history sc) = so_mode sc"
  "so_history (clear_history sc) = []"
  "so_last (clear_history sc) = None"
  "so_released (clear_history sc) = []"
  "so_submissions (clear_history sc) = map (\<lambda>(k, sub). (k, reset_submission sub)) (so_submissions sc)"
  "clear_history (sc\<lparr>so_changes := cs\<rparr>) = (clear_history sc)\<lparr>so_changes := cs\<rparr>"
  by (simp_all add: clear_history_def)

text \<open>So replaying twice is replaying once: what a replay returns is consistent.\<close>

lemma reset_history_consistent:
  assumes "reset_history sc = Inr sc'"
  shows "consistent sc'"
proof -
  have "clear_history sc' = clear_history sc" "so_changes sc' = so_changes sc"
    using clear_replay [of "clear_history sc"] replay_keeps [of "clear_history sc"] assms
    by (simp_all add: reset_history_def)
  then show ?thesis using assms by (simp add: consistent_def reset_history_def)
qed


section \<open>The order of the changes\<close>

definition change_key :: "subchange \<Rightarrow> int \<times> string" where
  "change_key c = (ch_time c, ch_key c)"

definition in_order :: "subchange list \<Rightarrow> bool" where
  "in_order cs \<longleftrightarrow> sorted (map change_key cs)"

lemma change_before_iff: "change_before a b \<longleftrightarrow> change_key a < change_key b"
  by (auto simp: change_before_def change_key_def)

lemma insert_change_insort:
  "change_key c \<notin> change_key ` set cs \<Longrightarrow> \<exists>d \<in> set cs. change_before c d \<Longrightarrow>
   insert_change c cs = insort_key change_key c cs"
  by (induction cs) (auto simp: change_before_iff)

lemma insort_snoc:
  "\<forall>d \<in> set cs. change_key d < change_key c \<Longrightarrow> insort_key change_key c cs = cs @ [c]"
  by (induction cs) auto

lemma sorted_le_last: "sorted xs \<Longrightarrow> x \<in> set xs \<Longrightarrow> x \<le> last xs" for xs :: "'a :: linorder list"
  by (metis append_butlast_last_id empty_iff empty_set insert_iff list.set(2) order_refl sorted_append
      set_append Un_iff)

lemma in_order_last:
  assumes "in_order cs" "d \<in> set cs"
  shows "change_key d \<le> change_key (last cs)"
proof -
  have "last (map change_key cs) = change_key (last cs)" using assms(2) by (cases cs rule: rev_cases) auto
  then show ?thesis
    using sorted_le_last [of "map change_key cs" "change_key d"] assms by (simp add: in_order_def)
qed

lemma in_order_insort [simp]: "in_order cs \<Longrightarrow> in_order (insort_key change_key c cs)"
  by (simp add: in_order_def sorted_insort_key)

text \<open>
  A new change of a consistent object has the effect of a replay of all changes in their order,
  whether it is appended or inserted.
\<close>

lemma create_subchange_replay:
  assumes sc: "consistent sc" "in_order (so_changes sc)"
    and new: "change_key c \<notin> change_key ` set (so_changes sc)"
    and sub: "ch_submission c \<in> set (dict_keys (so_submissions sc))"
  shows "so_create_subchange sc c = reset_history (sc\<lparr>so_changes := insort_key change_key c (so_changes sc)\<rparr>)"
proof (cases "so_changes sc = [] \<or> change_before (last (so_changes sc)) c")
  case True
  then have "\<forall>d \<in> set (so_changes sc). change_key d < change_key c"
    using in_order_last [OF sc(2)] by (auto simp: change_before_iff intro: le_less_trans)
  then have snoc: "insort_key change_key c (so_changes sc) = so_changes sc @ [c]"
    by (rule insort_snoc)
  have "reset_history (sc\<lparr>so_changes := so_changes sc @ [c]\<rparr>) = append_change (sc\<lparr>so_changes := so_changes sc @ [c]\<rparr>) c"
    using sc(1) unfolding consistent_def reset_history_def
    by (simp add: replay_with_changes res_fold_append) (cases "append_change sc c"; simp add: append_change_with_changes)
  then show ?thesis using True snoc by (simp add: so_create_subchange_def)
next
  case False
  then have ne: "so_changes sc \<noteq> []" "last (so_changes sc) \<in> set (so_changes sc)" by auto
  then have "change_key c \<noteq> change_key (last (so_changes sc))" using new by force
  then have "change_before c (last (so_changes sc))" "so_changes sc \<noteq> []"
    using False ne by (auto simp: change_before_iff)
  then have ins: "insert_change c (so_changes sc) = insort_key change_key c (so_changes sc)"
    using new by (intro insert_change_insort) (auto intro: last_in_set)
  have "res_bind (reset_history s) (log_reset c) = reset_history s"
    if "so_submissions s = so_submissions sc" for s
  proof (cases "reset_history s")
    case (Inr s')
    then have "dict_keys (so_submissions s') = dict_keys (so_submissions sc)"
      using replay_keeps(3) [of "clear_history s" "so_changes s" s'] that
      by (simp add: reset_history_def comp_def split_beta)
    then have "dict_get (so_submissions s') (ch_submission c) \<noteq> None"
      using sub by (metis dict_keys_get)
    then show ?thesis using Inr by (simp add: log_reset_def)
  qed simp
  then show ?thesis using False ins by (simp add: so_create_subchange_def)
qed


section \<open>A replay always returns\<close>

text \<open>
  \<open>ready\<close>: the mode is known, the extras are numbers, and the released scores are those of the
  submissions with a token, so that removing one from the \<^verbatim>\<open>NumberSet\<close> succeeds.
\<close>

definition numeric :: "outcome list \<Rightarrow> bool" where
  "numeric xs \<longleftrightarrow> (\<forall>x \<in> set xs. \<exists>r. x = Outcome r)"

definition tokened :: "(string, rank_submission) dict \<Rightarrow> rat multiset" where
  "tokened subs = mset (map rs_score (filter rs_token (map snd subs)))"

definition ready :: "score_obj \<Rightarrow> bool" where
  "ready sc \<longleftrightarrow> so_mode sc \<noteq> OtherMode \<and> dict_ok (so_submissions sc) \<and>
     (\<forall>s \<in> snd ` set (so_submissions sc). numeric (rs_extra s)) \<and>
     mset (so_released sc) = tokened (so_submissions sc)"

definition change_ok :: "(string, rank_submission) dict \<Rightarrow> subchange \<Rightarrow> bool" where
  "change_ok subs c \<longleftrightarrow> ch_submission c \<in> set (dict_keys subs) \<and>
     (case ch_extra c of None \<Rightarrow> True | Some xs \<Rightarrow> numeric xs)"

lemma float_of_numeric: "numeric xs \<Longrightarrow> x \<in> set xs \<Longrightarrow> \<exists>r. float_of x = Inr r"
  by (auto simp: numeric_def)

lemma res_map_ok: "\<forall>x \<in> set xs. \<not> isl (f x) \<Longrightarrow> \<not> isl (res_map f xs)"
  by (induction xs) auto

lemma mode_score_ok:
  assumes "so_mode sc \<noteq> OtherMode" "\<forall>s \<in> snd ` set (so_submissions sc). numeric (rs_extra s)"
  shows "\<not> isl (mode_score sc)"
proof -
  have "\<not> isl (score_row s)" if "s \<in> snd ` set (so_submissions sc)" for s
  proof -
    have "numeric (rs_extra s)" using assms(2) that by blast
    then have "\<forall>x \<in> set (rs_extra s). \<not> isl (float_of x)"
      using float_of_numeric by fastforce
    then show ?thesis using res_map_ok [of "rs_extra s" float_of] by (simp add: score_row_def)
  qed
  then have "\<not> isl (res_map score_row (map snd (so_submissions sc)))"
    by (intro res_map_ok) auto
  then show ?thesis using assms(1)
    by (cases "so_mode sc") (auto simp: mode_score_def Let_def)
qed

lemma dict_split:
  assumes "dict_get d k = Some v" "dict_ok d"
  obtains d1 d2 where "d = d1 @ (k, v) # d2" "\<And>w. dict_set k w d = d1 @ (k, w) # d2"
proof -
  obtain d1 d2 where d: "d = d1 @ (k, v) # d2"
    using assms(1) by (meson map_of_SomeD split_list)
  then have "k \<notin> fst ` set d1" using assms(2) by auto
  then have "dict_set k w d = d1 @ (k, w) # d2" for w
    unfolding d by (induction d1) auto
  then show thesis using that d by blast
qed

lemma append_change_ready:
  assumes sc: "ready sc" and c: "change_ok (so_submissions sc) c"
  shows "\<exists>sc'. append_change sc c = Inr sc' \<and> ready sc'"
proof -
  have "dict_get (so_submissions sc) (ch_submission c) \<noteq> None"
    using c by (simp add: change_ok_def map_of_eq_None_iff)
  then obtain sub where sub: "dict_get (so_submissions sc) (ch_submission c) = Some sub" by blast
  obtain d1 d2 where d: "so_submissions sc = d1 @ (ch_submission c, sub) # d2"
    "\<And>w. dict_set (ch_submission c) w (so_submissions sc) = d1 @ (ch_submission c, w) # d2"
    using dict_split [OF sub] sc by (auto simp: ready_def)
  obtain rel where rel: "withdraw sub (so_released sc) = Inr rel"
    "mset rel = tokened d1 + tokened d2"
  proof (cases "rs_token sub")
    case True
    then have "mset (so_released sc) = add_mset (rs_score sub) (tokened d1 + tokened d2)"
      using sc d(1) by (simp add: ready_def tokened_def)
    moreover from this have "rs_score sub \<in> set (so_released sc)"
      by (metis set_mset_mset union_single_eq_member)
    ultimately show thesis using True that by (simp add: withdraw_def number_set_remove_def)
  next
    case False
    then show thesis using sc d(1) that by (simp add: withdraw_def ready_def tokened_def)
  qed
  let ?sc = "applied sc c sub rel"
  have extra: "\<forall>s \<in> snd ` set (so_submissions ?sc). numeric (rs_extra s)"
    using sc c d by (auto simp: ready_def change_ok_def apply_change_def split: option.splits)
  obtain score where score: "mode_score ?sc = Inr score"
    using res_okI [OF mode_score_ok [OF _ extra]] sc by (auto simp: ready_def)
  have "ready (record_score (ch_time c) score ?sc)"
    using sc extra rel(2) d by (auto simp: ready_def applied_def Let_def tokened_def number_set_insert_def)
  then show ?thesis using sub rel(1) score by (simp add: append_change_eq)
qed

lemma change_ok_keys: "dict_keys a = dict_keys b \<Longrightarrow> change_ok a c = change_ok b c"
  by (metis change_ok_def)

lemma replay_ready:
  assumes "ready sc" "\<forall>c \<in> set cs. change_ok (so_submissions sc) c"
  shows "\<exists>sc'. res_fold append_change sc cs = Inr sc' \<and> ready sc'"
  using assms
proof (induction cs arbitrary: sc)
  case (Cons c cs)
  then obtain sc1 where sc1: "append_change sc c = Inr sc1" "ready sc1"
    using append_change_ready [of sc c] by auto
  then have "\<forall>d \<in> set cs. change_ok (so_submissions sc1) d"
    using Cons.prems(2) change_ok_keys [OF append_change_keeps(3) [OF sc1(1)]] by simp
  then show ?case using Cons.IH [OF sc1(2)] sc1(1) by simp
qed simp

lemma ready_clear: "so_mode sc \<noteq> OtherMode \<Longrightarrow> dict_ok (so_submissions sc) \<Longrightarrow> ready (clear_history sc)"
  by (auto simp: ready_def numeric_def tokened_def reset_submission_def comp_def split_beta filter_empty_conv)

lemma reset_history_ok:
  assumes "so_mode sc \<noteq> OtherMode" "dict_ok (so_submissions sc)"
    "\<forall>c \<in> set (so_changes sc). change_ok (so_submissions sc) c"
  shows "\<exists>sc'. reset_history sc = Inr sc' \<and> ready sc' \<and> consistent sc'"
proof -
  have "\<forall>c \<in> set (so_changes sc). change_ok (so_submissions (clear_history sc)) c"
    using assms(3) change_ok_keys [of "so_submissions (clear_history sc)" "so_submissions sc"]
    by (simp add: comp_def split_beta)
  then obtain sc' where "reset_history sc = Inr sc'" "ready sc'"
    using replay_ready [OF ready_clear [OF assms(1,2)]] by (auto simp: reset_history_def)
  then show ?thesis using reset_history_consistent by blast
qed


lemma sort_key_mset_eq: "mset xs = mset ys \<Longrightarrow> inj_on f (set xs) \<Longrightarrow> sort_key f xs = sort_key f ys"
  by (rule sort_key_inj_key_eq) auto

text \<open>
  An object with its submissions and no change yet, and a set of changes for it. Whatever the order
  in which the changes arrive, every call returns, and the object is the replay of the changes in
  the order of their times and keys.
\<close>

lemma create_subchanges_replay:
  assumes sc: "so_mode sc \<noteq> OtherMode" "dict_ok (so_submissions sc)"
      "\<forall>c \<in> set (so_changes sc @ cs). change_ok (so_submissions sc) c"
    and ok: "consistent sc" "in_order (so_changes sc)" "distinct (map change_key (so_changes sc @ cs))"
  shows "\<exists>sc'. res_fold so_create_subchange sc cs = Inr sc' \<and> consistent sc' \<and> in_order (so_changes sc') \<and>
    reset_history (sc\<lparr>so_changes := sort_key change_key (so_changes sc @ cs)\<rparr>) = Inr sc'"
  using assms
proof (induction cs arbitrary: sc)
  case Nil
  then have "sort_key change_key (so_changes sc) = so_changes sc"
    by (simp add: in_order_def sort_key_id_if_sorted)
  then show ?case using Nil by (simp add: consistent_def in_order_def)
next
  case (Cons c cs)
  let ?sc = "sc\<lparr>so_changes := insort_key change_key c (so_changes sc)\<rparr>"
  have "ch_submission c \<in> set (dict_keys (so_submissions sc))" "change_key c \<notin> change_key ` set (so_changes sc)"
    using Cons.prems by (auto simp: change_ok_def)
  then have create: "so_create_subchange sc c = reset_history ?sc"
    using create_subchange_replay Cons.prems(4,5) by blast
  obtain sc1 where sc1: "reset_history ?sc = Inr sc1" "consistent sc1"
    using reset_history_ok [of ?sc] Cons.prems(1-3) by (auto simp: set_insort_key)
  have keeps: "so_changes sc1 = so_changes ?sc" "so_mode sc1 = so_mode sc"
      "dict_keys (so_submissions sc1) = dict_keys (so_submissions sc)" "clear_history sc1 = clear_history ?sc"
    using replay_keeps [of "clear_history ?sc" "so_changes ?sc" sc1] clear_replay [of "clear_history ?sc" "so_changes ?sc" sc1] sc1(1)
    by (simp_all add: reset_history_def comp_def split_beta)
  have same: "reset_history (sc1\<lparr>so_changes := ds\<rparr>) = reset_history (sc\<lparr>so_changes := ds\<rparr>)" for ds
    using keeps(4) by (simp add: reset_history_def)
  have "inj_on change_key (set (so_changes sc @ c # cs))"
    using Cons.prems(6) distinct_map by blast
  then have "sort_key change_key (so_changes sc @ c # cs) = sort_key change_key (so_changes sc1 @ cs)"
    by (intro sort_key_mset_eq) (simp add: keeps(1))
  moreover have "\<exists>sc'. res_fold so_create_subchange sc1 cs = Inr sc' \<and> consistent sc' \<and> in_order (so_changes sc') \<and>
    reset_history (sc1\<lparr>so_changes := sort_key change_key (so_changes sc1 @ cs)\<rparr>) = Inr sc'"
  proof (rule Cons.IH)
    show "\<forall>d \<in> set (so_changes sc1 @ cs). change_ok (so_submissions sc1) d"
      using Cons.prems(3) keeps(1) change_ok_keys [OF keeps(3)] by (auto simp: set_insort_key)
  qed (use Cons.prems keeps sc1(2) in \<open>auto simp: distinct_insort_key set_insort_key\<close>)
  ultimately show ?case using create sc1(1) same by auto
qed



subsection \<open>The score and the submissions in the past\<close>

text \<open>\<open>upto t\<close>: the object with only the changes that had happened by \<open>t\<close>.\<close>

definition upto :: "int \<Rightarrow> score_obj \<Rightarrow> score_obj" where
  "upto t sc = sc\<lparr>so_changes := filter (\<lambda>c. ch_time c \<le> t) (so_changes sc)\<rparr>"

lemma in_order_times: "in_order cs \<Longrightarrow> sorted (map ch_time cs)"
  by (induction cs) (auto simp: in_order_def change_key_def)

lemma sorted_filter_split:
  "sorted (map f xs) \<Longrightarrow> xs = filter (\<lambda>x. f x \<le> t) xs @ filter (\<lambda>x. t < f x) xs" for f :: "'a \<Rightarrow> int"
proof (induction xs)
  case (Cons x xs)
  show ?case
  proof (cases "f x \<le> t")
    case False
    then have "\<forall>y \<in> set (x # xs). t < f y" using Cons.prems by auto
    then have "filter (\<lambda>x. f x \<le> t) (x # xs) = []" "filter (\<lambda>x. t < f x) (x # xs) = x # xs"
      by (auto simp: filter_empty_conv intro!: filter_True)
    then show ?thesis by simp
  qed (use Cons in simp)
qed simp

text \<open>A history whose times come from the changes replayed.\<close>

lemma append_change_history:
  assumes "append_change sc c = Inr sc'"
  obtains h where "so_history sc' = so_history sc @ h" "\<forall>e \<in> set h. fst e = ch_time c"
proof -
  obtain sub rel score where "sc' = record_score (ch_time c) score (applied sc c sub rel)"
    using assms by (auto elim!: append_changeE)
  then show thesis using that [of "[]"] that [of "[(ch_time c, score)]"]
    by (cases "score = so_get_score (applied sc c sub rel)") (simp_all add: record_score_def)
qed

lemma replay_history:
  assumes "res_fold append_change sc cs = Inr sc'"
  shows "\<exists>h. so_history sc' = so_history sc @ h \<and> fst ` set h \<subseteq> ch_time ` set cs"
  using assms
proof (induction cs arbitrary: sc)
  case (Cons c cs)
  then obtain sc1 where sc1: "append_change sc c = Inr sc1" "res_fold append_change sc1 cs = Inr sc'" by auto
  obtain h1 where h1: "so_history sc1 = so_history sc @ h1" "\<forall>e \<in> set h1. fst e = ch_time c"
    by (rule append_change_history [OF sc1(1)])
  obtain h2 where "so_history sc' = so_history sc1 @ h2" "fst ` set h2 \<subseteq> ch_time ` set cs"
    using Cons.IH [OF sc1(2)] by blast
  then have "so_history sc' = so_history sc @ (h1 @ h2) \<and> fst ` set (h1 @ h2) \<subseteq> ch_time ` set (c # cs)"
    using h1 by (auto simp: image_subset_iff)
  then show ?case by blast
qed simp

lemma score_at_from_split:
  "\<forall>e \<in> set h1. fst e \<le> t \<Longrightarrow> \<forall>e \<in> set h2. t < fst e \<Longrightarrow>
   score_at_from x (h1 @ h2) t = (if h1 = [] then x else snd (last h1))"
proof (induction h1 arbitrary: x)
  case Nil
  then show ?case by (cases h2) auto
qed auto

lemma reset_upto_split:
  assumes "consistent sc" "in_order (so_changes sc)"
  obtains past where "reset_history (upto t sc) = Inr (past\<lparr>so_changes := so_changes (upto t sc)\<rparr>)"
    "res_fold append_change (clear_history sc) (so_changes (upto t sc)) = Inr past"
    "res_fold append_change past (filter (\<lambda>c. t < ch_time c) (so_changes sc)) = Inr sc"
proof -
  define early where "early = so_changes (upto t sc)"
  define late where "late = filter (\<lambda>c. t < ch_time c) (so_changes sc)"
  have "so_changes sc = early @ late"
    using sorted_filter_split [OF in_order_times [OF assms(2)]] by (simp add: upto_def early_def late_def)
  then have "res_bind (res_fold append_change (clear_history sc) early) (\<lambda>s. res_fold append_change s late) = Inr sc"
    using assms(1) by (simp add: consistent_def reset_history_def res_fold_append)
  then obtain past where "res_fold append_change (clear_history sc) early = Inr past"
    "res_fold append_change past late = Inr sc" by (elim res_bindE)
  moreover from this(1) have "reset_history (upto t sc) = Inr (past\<lparr>so_changes := early\<rparr>)"
    by (simp add: reset_history_def upto_def replay_with_changes early_def)
  ultimately show thesis using that unfolding early_def late_def by blast
qed

lemma score_at_upto:
  assumes "consistent sc" "in_order (so_changes sc)"
  shows "\<exists>past. reset_history (upto t sc) = Inr past \<and> score_at sc t = so_get_score past"
proof -
  obtain past where past: "reset_history (upto t sc) = Inr (past\<lparr>so_changes := so_changes (upto t sc)\<rparr>)"
    "res_fold append_change (clear_history sc) (so_changes (upto t sc)) = Inr past"
    "res_fold append_change past (filter (\<lambda>c. t < ch_time c) (so_changes sc)) = Inr sc"
    by (rule reset_upto_split [OF assms])
  obtain h where "so_history sc = so_history past @ h" "\<forall>e \<in> set h. t < fst e"
    using replay_history [OF past(3)] by fastforce
  moreover have "\<forall>e \<in> set (so_history past). fst e \<le> t"
    using replay_history [OF past(2)] by (fastforce simp: upto_def)
  ultimately have "score_at sc t = so_get_score past"
    by (simp add: score_at_def score_at_from_split so_get_score_def)
  then show ?thesis using past(1) by simp
qed


definition made_by :: "int \<Rightarrow> (string, rank_submission) dict \<Rightarrow> (string, rank_submission) dict" where
  "made_by t subs = filter (\<lambda>(k, sub). rs_time sub \<le> t) subs"

lemma rs_time_apply [simp]: "rs_time (apply_change c sub) = rs_time sub"
  by (simp add: apply_change_def)

lemma made_by_reset:
  "made_by t (map (\<lambda>(k, sub). (k, reset_submission sub)) d) = map (\<lambda>(k, sub). (k, reset_submission sub)) (made_by t d)"
  by (induction d) (auto simp: made_by_def reset_submission_def)

lemma map_of_split: "k \<notin> fst ` set d1 \<Longrightarrow> map_of (d1 @ (k, v) # d2) k = Some v"
  by (induction d1) auto

lemma update_split: "k \<notin> fst ` set d1 \<Longrightarrow> AList.update k w (d1 @ (k, v) # d2) = d1 @ (k, w) # d2"
  by (induction d1) auto

lemma changes_until_step:
  assumes "append_change sc c = Inr sc'" "dict_ok (so_submissions sc)" "ch_time c \<le> t"
  shows "changes_until (made_by t (so_submissions sc)) (c # cs) t = changes_until (made_by t (so_submissions sc')) cs t"
proof -
  obtain sub where sub: "dict_get (so_submissions sc) (ch_submission c) = Some sub"
    and sc': "so_submissions sc' = dict_set (ch_submission c) (apply_change c sub) (so_submissions sc)"
    using assms(1) by (auto elim!: append_changeE)
  obtain d1 d2 where d: "so_submissions sc = d1 @ (ch_submission c, sub) # d2"
    "\<And>w. dict_set (ch_submission c) w (so_submissions sc) = d1 @ (ch_submission c, w) # d2"
    using dict_split [OF sub assms(2)] by auto
  have k: "ch_submission c \<notin> fst ` set (made_by t d1)" "ch_submission c \<notin> fst ` set (made_by t d2)"
    using assms(2) d(1) by (auto simp: made_by_def)
  show ?thesis
  proof (cases "rs_time sub \<le> t")
    case True
    then have "made_by t (so_submissions sc) = made_by t d1 @ (ch_submission c, sub) # made_by t d2"
      "made_by t (so_submissions sc') = made_by t d1 @ (ch_submission c, apply_change c sub) # made_by t d2"
      using d sc' by (simp_all add: made_by_def)
    then show ?thesis using assms(3) k(1) by (simp add: map_of_split update_split del: map_of_append)
  next
    case False
    then have "made_by t (so_submissions sc) = made_by t d1 @ made_by t d2"
      "made_by t (so_submissions sc') = made_by t d1 @ made_by t d2"
      using d sc' by (simp_all add: made_by_def)
    moreover have "map_of (made_by t d1 @ made_by t d2) (ch_submission c) = None"
      using k by (simp add: map_of_eq_None_iff image_Un del: map_of_append)
    ultimately show ?thesis using assms(3) by (simp del: map_of_append)
  qed
qed

lemma changes_until_replay:
  assumes "res_fold append_change sc cs = Inr past" "dict_ok (so_submissions sc)" "\<forall>c \<in> set cs. ch_time c \<le> t"
  shows "changes_until (made_by t (so_submissions sc)) (cs @ ds) t = changes_until (made_by t (so_submissions past)) ds t"
  using assms
proof (induction cs arbitrary: sc)
  case (Cons c cs)
  then obtain sc1 where sc1: "append_change sc c = Inr sc1" "res_fold append_change sc1 cs = Inr past" by auto
  then have "dict_ok (so_submissions sc1)" using append_change_keeps(3) [OF sc1(1)] Cons.prems(2) by simp
  then show ?case using Cons.IH [OF sc1(2)] changes_until_step [OF sc1(1) Cons.prems(2)] Cons.prems(3) by simp
qed simp

lemma changes_until_late: "\<forall>c \<in> set cs. t < ch_time c \<Longrightarrow> changes_until d cs t = d"
  by (cases cs) auto

lemma submissions_at_upto:
  assumes "consistent sc" "in_order (so_changes sc)" "dict_ok (so_submissions sc)"
  shows "\<exists>past. reset_history (upto t sc) = Inr past \<and> submissions_at sc t = made_by t (so_submissions past)"
proof -
  obtain past where past: "reset_history (upto t sc) = Inr (past\<lparr>so_changes := so_changes (upto t sc)\<rparr>)"
    "res_fold append_change (clear_history sc) (so_changes (upto t sc)) = Inr past"
    "res_fold append_change past (filter (\<lambda>c. t < ch_time c) (so_changes sc)) = Inr sc"
    by (rule reset_upto_split [OF assms(1,2)])
  let ?late = "filter (\<lambda>c. t < ch_time c) (so_changes sc)"
  have split: "so_changes sc = so_changes (upto t sc) @ ?late"
    using sorted_filter_split [OF in_order_times [OF assms(2)]] by (simp add: upto_def)
  have "submissions_at sc t = changes_until (made_by t (so_submissions (clear_history sc))) (so_changes sc) t"
    by (simp add: submissions_at_def made_by_reset) (simp add: made_by_def)
  also have "\<dots> = changes_until (made_by t (so_submissions (clear_history sc))) (so_changes (upto t sc) @ ?late) t"
    using split by simp
  also have "\<dots> = changes_until (made_by t (so_submissions past)) ?late t"
    using assms(3) by (intro changes_until_replay [OF past(2)]) (auto simp: upto_def comp_def split_beta)
  also have "\<dots> = made_by t (so_submissions past)" by (rule changes_until_late) simp
  finally show ?thesis using past(1) by simp
qed

text \<open>The score is up to date: after at least one change it is what the mode makes of the submissions.\<close>

lemma mode_score_record [simp]: "mode_score (record_score t x sc) = mode_score sc"
  by (simp add: record_score_def)

lemma append_change_score: "append_change sc c = Inr sc' \<Longrightarrow> mode_score sc' = Inr (so_get_score sc')"
  by (auto elim!: append_changeE)

lemma consistent_score:
  assumes "consistent sc" "so_changes sc \<noteq> []"
  shows "mode_score sc = Inr (so_get_score sc)"
proof -
  obtain cs c where "so_changes sc = cs @ [c]" using assms(2) by (cases "so_changes sc" rule: rev_cases) auto
  then obtain s where "append_change s c = Inr sc"
    using assms(1) by (auto simp: consistent_def reset_history_def res_fold_append)
  then show ?thesis by (rule append_change_score)
qed



subsection \<open>The histories\<close>

lemma replay_history_sorted:
  assumes "res_fold append_change (clear_history sc) cs = Inr sc'" "sorted (map ch_time cs)"
  shows "sorted (map fst (so_history sc'))"
  using assms
proof (induction cs arbitrary: sc' rule: rev_induct)
  case (snoc c cs)
  then obtain s where s: "res_fold append_change (clear_history sc) cs = Inr s" "append_change s c = Inr sc'"
    by (auto simp: res_fold_append)
  have sorted: "sorted (map fst (so_history s))" using snoc.IH [OF s(1)] snoc.prems(2) by (simp add: sorted_append)
  obtain h where h: "so_history sc' = so_history s @ h" "\<forall>e \<in> set h. fst e = ch_time c"
    by (rule append_change_history [OF s(2)])
  have "fst ` set (so_history s) \<subseteq> ch_time ` set cs" using replay_history [OF s(1)] by auto
  then have "\<forall>e \<in> set (so_history s). fst e \<le> ch_time c" using snoc.prems(2) by (fastforce simp: sorted_append)
  moreover have "sorted (map fst h)" using h(2) by (auto simp: sorted_iff_nth_mono)
  ultimately show ?case using sorted h by (simp add: sorted_append)
qed auto

lemma consistent_history_sorted:
  "consistent sc \<Longrightarrow> in_order (so_changes sc) \<Longrightarrow> sorted (map fst (so_history sc))"
  using replay_history_sorted in_order_times unfolding consistent_def reset_history_def by blast

text \<open>The entries that a heap still holds, and a heap in the order of its next entries.\<close>

definition entry_content :: "heap_entry \<Rightarrow> (string \<times> string \<times> int \<times> rat) multiset" where
  "entry_content e = (case e of (((h, user, task), hs)) \<Rightarrow>
     mset (map (\<lambda>(time, score). (user, task, time, score)) (h # hs)))"

definition queue_content :: "heap_entry list \<Rightarrow> (string \<times> string \<times> int \<times> rat) multiset" where
  "queue_content queue = sum_list (map entry_content queue)"

definition queue_sorted :: "heap_entry list \<Rightarrow> bool" where
  "queue_sorted queue \<longleftrightarrow> sorted (map fst queue) \<and>
     (\<forall>((h, user, task), hs) \<in> set queue. sorted (map fst (h # hs)))"

definition time_of :: "string \<times> string \<times> int \<times> rat \<Rightarrow> int" where
  "time_of = (\<lambda>(user, task, time, score). time)"

lemma queue_content_insort [simp]:
  "queue_content (insort_key fst e queue) = entry_content e + queue_content queue"
  by (induction queue) (auto simp: queue_content_def)

lemma queue_content_push:
  "queue_content (push_history user task history queue) =
     mset (map (\<lambda>(time, score). (user, task, time, score)) history) + queue_content queue"
  by (simp add: push_history_def entry_content_def split: list.split)

lemma queue_sorted_push:
  "queue_sorted queue \<Longrightarrow> sorted (map fst history) \<Longrightarrow> queue_sorted (push_history user task history queue)"
  by (cases history) (auto simp: push_history_def queue_sorted_def sorted_insort_key set_insort_key)

lemma set_push_history:
  "set (push_history user task history queue) =
     (case history of [] \<Rightarrow> {} | h # hs \<Rightarrow> {((h, user, task), hs)}) \<union> set queue"
  by (auto simp: push_history_def set_insort_key split: list.split)

lemma merge_content: "mset (merge_histories None queue) = queue_content queue"
proof (induction "None :: int option" queue rule: merge_histories.induct)
  case (2 time score user task rest queue)
  then show ?case by (simp add: queue_content_push) (simp add: queue_content_def entry_content_def)
qed (simp add: queue_content_def)

lemma merge_until: "merge_histories (Some u) queue = takeWhile (\<lambda>e. time_of e \<le> u) (merge_histories None queue)"
  by (induction "Some u" queue rule: merge_histories.induct) (auto simp: time_of_def)

lemma merge_lower:
  assumes "\<forall>((h, user, task), hs) \<in> set queue. \<forall>e \<in> set (h # hs). t \<le> fst e"
  shows "\<forall>e \<in> set (merge_histories None queue). t \<le> time_of e"
proof -
  have "\<forall>e \<in># entry_content q. t \<le> time_of e" if "q \<in> set queue" for q
    using assms that by (cases q) (fastforce simp: entry_content_def time_of_def)
  then have "\<forall>e \<in># queue_content queue. t \<le> time_of e"
    unfolding queue_content_def by (induction queue) (simp, metis list.set_intros list.simps(9) sum_list.Cons union_iff)
  then show ?thesis using merge_content by (metis set_mset_mset)
qed

lemma queue_sorted_lower:
  assumes "queue_sorted ((((time, score), user, task), rest) # queue)"
  shows "\<forall>((h, u, k), hs) \<in> set (push_history user task rest queue). \<forall>e \<in> set (h # hs). time \<le> fst e"
proof -
  have "time \<le> fst h" if "((h, u, k), hs) \<in> set queue" for h u k hs
    using assms that by (cases h) (force simp: queue_sorted_def)
  moreover have "\<forall>e \<in> set hs. fst h \<le> fst e" if "((h, u, k), hs) \<in> set queue" for h u k hs
    using assms that by (force simp: queue_sorted_def)
  moreover have "\<forall>e \<in> set rest. time \<le> fst e" using assms by (auto simp: queue_sorted_def)
  ultimately show ?thesis by (fastforce simp: set_push_history split: list.splits)
qed

lemma merge_sorted: "queue_sorted queue \<Longrightarrow> sorted (map time_of (merge_histories None queue))"
proof (induction "None :: int option" queue rule: merge_histories.induct)
  case (2 time score user task rest queue)
  have "queue_sorted queue" "sorted (map fst rest)" using "2.prems" by (auto simp: queue_sorted_def)
  then have "sorted (map time_of (merge_histories None (push_history user task rest queue)))"
    using "2.hyps" by (simp add: queue_sorted_push)
  moreover have "\<forall>e \<in> set (merge_histories None (push_history user task rest queue)). time \<le> time_of e"
    by (rule merge_lower [OF queue_sorted_lower [OF "2.prems"]])
  ultimately show ?case by (simp add: time_of_def split_beta)
qed simp

text \<open>The heap that \<^verbatim>\<open>get_global_history\<close> starts from.\<close>

definition all_entries :: "scoring_store \<Rightarrow> (string \<times> string \<times> int \<times> rat) list" where
  "all_entries ss = concat (map (\<lambda>(user, tasks). concat (map (\<lambda>(task, sc).
     map (\<lambda>(time, score). (user, task, time, score)) (so_history sc)) tasks)) (sst_scores ss))"

definition task_queue :: "string \<Rightarrow> (string, score_obj) dict \<Rightarrow> heap_entry list \<Rightarrow> heap_entry list" where
  "task_queue user tasks queue =
     foldl (\<lambda>queue (task, scoring). push_history user task (so_history scoring) queue) queue tasks"

lemma task_queue_content:
  "queue_content (task_queue user tasks queue) =
     mset (concat (map (\<lambda>(task, sc). map (\<lambda>(time, score). (user, task, time, score)) (so_history sc)) tasks)) +
     queue_content queue"
  by (induction tasks arbitrary: queue) (auto simp: task_queue_def queue_content_push ac_simps)

lemma task_queue_sorted:
  "queue_sorted queue \<Longrightarrow> \<forall>(task, sc) \<in> set tasks. sorted (map fst (so_history sc)) \<Longrightarrow>
   queue_sorted (task_queue user tasks queue)"
  by (induction tasks arbitrary: queue) (auto simp: task_queue_def queue_sorted_push)

lemma all_queue_content:
  "queue_content (foldl (\<lambda>queue (user, dic). task_queue user dic queue) queue scores) =
     mset (concat (map (\<lambda>(user, tasks). concat (map (\<lambda>(task, sc).
     map (\<lambda>(time, score). (user, task, time, score)) (so_history sc)) tasks)) scores)) + queue_content queue"
  by (induction scores arbitrary: queue) (auto simp: task_queue_content ac_simps)

lemma all_queue_sorted:
  "queue_sorted queue \<Longrightarrow> \<forall>(user, tasks) \<in> set scores. \<forall>(task, sc) \<in> set tasks. sorted (map fst (so_history sc)) \<Longrightarrow>
   queue_sorted (foldl (\<lambda>queue (user, dic). task_queue user dic queue) queue scores)"
  by (induction scores arbitrary: queue) (auto simp: task_queue_sorted)

lemma get_global_history_eq:
  "get_global_history ss until =
     merge_histories until (foldl (\<lambda>queue (user, dic). task_queue user dic queue) [] (sst_scores ss))"
  by (simp add: get_global_history_def task_queue_def)

lemma takeWhile_sorted_filter:
  "sorted (map f xs) \<Longrightarrow> takeWhile (\<lambda>x. f x \<le> u) xs = filter (\<lambda>x. f x \<le> u) xs" for f :: "'a \<Rightarrow> int"
proof (induction xs)
  case (Cons x xs)
  show ?case
  proof (cases "f x \<le> u")
    case False
    then have "\<forall>y \<in> set xs. \<not> f y \<le> u" using Cons.prems by auto
    then show ?thesis using False by (simp add: filter_empty_conv)
  qed (use Cons in simp)
qed simp


text \<open>What a replay returns, and the operations by it.\<close>

lemma reset_keeps:
  assumes "reset_history s = Inr s'"
  shows "consistent s'" "so_changes s' = so_changes s" "dict_keys (so_submissions s') = dict_keys (so_submissions s)"
  using assms replay_keeps [of "clear_history s" "so_changes s" s'] reset_history_consistent
  by (simp_all add: reset_history_def comp_def split_beta)

lemma in_order_filter: "in_order cs \<Longrightarrow> in_order (filter P cs)"
  by (simp add: in_order_def sorted_filter)

lemma create_subchange_submission:
  assumes "so_create_subchange sc c = Inr sc'"
  shows "ch_submission c \<in> set (dict_keys (so_submissions sc))"
proof (cases "so_changes sc = [] \<or> change_before (last (so_changes sc)) c")
  case True
  then have "dict_get (so_submissions sc) (ch_submission c) \<noteq> None"
    using assms by (auto simp: so_create_subchange_def elim!: append_changeE)
  then show ?thesis by (metis dict_keys_get)
next
  case False
  then obtain s where "reset_history (sc\<lparr>so_changes := insert_change c (so_changes sc)\<rparr>) = Inr s" "log_reset c s = Inr sc'"
    using assms by (auto simp: so_create_subchange_def)
  then show ?thesis using reset_keeps(3) [of "sc\<lparr>so_changes := insert_change c (so_changes sc)\<rparr>" s]
    by (simp add: log_reset_def split: if_splits) (metis dict_keys_get list.set_map option.discI)
qed

lemma create_subchange_consistent:
  assumes "consistent sc" "in_order (so_changes sc)" "change_key c \<notin> change_key ` set (so_changes sc)"
    and ok: "so_create_subchange sc c = Inr sc'"
  shows "consistent sc'" "in_order (so_changes sc')" "mset (so_changes sc') = add_mset c (mset (so_changes sc))"
proof -
  have "reset_history (sc\<lparr>so_changes := insort_key change_key c (so_changes sc)\<rparr>) = Inr sc'"
    using create_subchange_replay [OF assms(1-3) create_subchange_submission [OF ok]] ok by simp
  then show "consistent sc'" "in_order (so_changes sc')" "mset (so_changes sc') = add_mset c (mset (so_changes sc))"
    using reset_keeps assms(2) by fastforce+
qed


section \<open>Properties\<close>

text \<open>
  C21. The score of a user on a task does not depend on the order in which the changes of the submissions
  arrive. Take an object with its submissions and no change, with a known score mode, and changes
  with different times or keys, each for one of the submissions. Then creating them one by one in any
  order always returns, and every order gives the same object: the same submissions, scores,
  released scores and history.
\<close>

theorem subchanges_any_order:
  assumes "so_mode sc \<noteq> OtherMode" "dict_ok (so_submissions sc)" "so_changes sc = []" "consistent sc"
    and "\<forall>c \<in> set cs. change_ok (so_submissions sc) c" "distinct (map change_key cs)" "mset ds = mset cs"
  shows "\<exists>sc'. res_fold so_create_subchange sc cs = Inr sc' \<and> res_fold so_create_subchange sc ds = Inr sc' \<and>
    so_changes sc' = sort_key change_key cs"
proof -
  have sets: "set ds = set cs" using assms(7) by (metis set_mset_mset)
  have "distinct (map change_key ds)" using assms(6,7) by (metis mset_map distinct_count_atmost_1 mset_eq_imp_distinct_iff)
  moreover have inj: "inj_on change_key (set cs)" using assms(6) distinct_map by blast
  moreover have same: "sort_key change_key cs = sort_key change_key ds"
    using sort_key_mset_eq [of cs ds change_key] assms(7) inj by simp
  moreover have "so_changes sc' = sort_key change_key cs"
    if "reset_history (sc\<lparr>so_changes := sort_key change_key cs\<rparr>) = Inr sc'" for sc'
    using that replay_keeps(1) unfolding reset_history_def by fastforce
  ultimately show ?thesis
    using create_subchanges_replay [of sc cs] create_subchanges_replay [of sc ds] assms sets
    by (auto simp: in_order_def)
qed

definition rank_sub :: "string \<Rightarrow> int \<Rightarrow> rank_submission" where
  "rank_sub user time = \<lparr>rs_user = user, rs_task = ''t'', rs_time = time, rs_score = 0, rs_token = False, rs_extra = []\<rparr>"

definition rank_change :: "string \<Rightarrow> string \<Rightarrow> int \<Rightarrow> rat \<Rightarrow> subchange" where
  "rank_change key sub time score = \<lparr>ch_key = key, ch_submission = sub, ch_time = time, ch_score = Some score,
     ch_token = None, ch_extra = None\<rparr>"

definition rank_obj :: score_obj where
  "rank_obj = (score_obj_init SCORE_MODE_MAX)\<lparr>so_submissions := [(''1'', rank_sub ''u'' 10), (''2'', rank_sub ''u'' 20)]\<rparr>"

theorem subchanges_any_order_witness:
  "\<exists>sc'. res_fold so_create_subchange rank_obj [rank_change ''a'' ''1'' 11 50, rank_change ''b'' ''2'' 21 30] = Inr sc' \<and>
     res_fold so_create_subchange rank_obj [rank_change ''b'' ''2'' 21 30, rank_change ''a'' ''1'' 11 50] = Inr sc' \<and>
     so_changes sc' = sort_key change_key [rank_change ''a'' ''1'' 11 50, rank_change ''b'' ''2'' 21 30]"
  by (rule subchanges_any_order)
    (simp_all add: rank_obj_def score_obj_init_def rank_sub_def rank_change_def consistent_def reset_history_def
      clear_history_def reset_submission_def change_ok_def change_key_def)

text \<open>
  C22. Every operation leaves an object that equals a replay of its own changes: a change that is created, also
  one that arrives late and lands in the middle, a change that is deleted, and a submission
  that is updated or deleted. The history and the scores are never those of an older list of changes.
\<close>

theorem operations_consistent:
  assumes "consistent sc" "in_order (so_changes sc)" "change_key c \<notin> change_key ` set (so_changes sc)"
    and "so_create_subchange sc c = Inr sc1 \<or> so_delete_subchange sc key = Inr sc1 \<or>
      so_update_submission sc key sub = Inr sc1 \<or> so_delete_submission sc key = Inr sc1"
  shows "consistent sc1 \<and> in_order (so_changes sc1) \<and> set (so_changes sc1) \<subseteq> insert c (set (so_changes sc))"
  using assms(4)
proof (elim disjE)
  assume c: "so_create_subchange sc c = Inr sc1"
  have "set (so_changes sc1) = insert c (set (so_changes sc))"
    using create_subchange_consistent(3) [OF assms(1-3) c] by (metis set_mset_add_mset_insert set_mset_mset)
  then show ?thesis using create_subchange_consistent [OF assms(1-3) c] by simp
next
  assume "so_delete_subchange sc key = Inr sc1"
  from reset_keeps [OF this [unfolded so_delete_subchange_def]] show ?thesis
    using in_order_filter [OF assms(2)] by auto
next
  assume "so_update_submission sc key sub = Inr sc1"
  from reset_keeps [OF this [unfolded so_update_submission_def]] show ?thesis using assms(2) by auto
next
  assume d: "so_delete_submission sc key = Inr sc1"
  show ?thesis
  proof (cases "dict_get (so_submissions sc) key = None")
    case True
    then show ?thesis using d assms by (auto simp: so_delete_submission_def)
  next
    case False
    from reset_keeps [OF d [unfolded so_delete_submission_def if_not_P [OF False]]]
    show ?thesis using in_order_filter [OF assms(2)] by auto
  qed
qed

theorem operations_consistent_witness:
  "consistent (projr (so_create_subchange rank_obj (rank_change ''a'' ''1'' 11 50)))"
proof -
  let ?c = "rank_change ''a'' ''1'' 11 50"
  have "\<not> isl (so_create_subchange rank_obj ?c)" "consistent rank_obj" by code_simp+
  moreover have "so_changes rank_obj = []" by code_simp
  ultimately show ?thesis
    using operations_consistent [of rank_obj ?c "projr (so_create_subchange rank_obj ?c)"]
    by (auto simp: in_order_def dest: res_okI)
qed

text \<open>
  C23. The ranking of the past is the ranking that would have been shown. For a consistent object, \<^verbatim>\<open>score_at(t)\<close> is the current
  score of the object that has seen only the changes up to \<open>t\<close>, and \<^verbatim>\<open>submissions_at(t)\<close>
  are its submissions that were made by \<open>t\<close>. Replaying that part of the changes always returns.
\<close>

theorem past_is_replay:
  assumes "consistent sc" "in_order (so_changes sc)" "dict_ok (so_submissions sc)"
  shows "\<exists>past. reset_history (upto t sc) = Inr past \<and> score_at sc t = so_get_score past \<and>
    submissions_at sc t = made_by t (so_submissions past)"
  using score_at_upto [OF assms(1,2)] submissions_at_upto [OF assms] by (metis sum.inject(2))

definition rank_obj2 :: score_obj where
  "rank_obj2 = \<lparr>so_submissions = [(''1'', rank_sub ''u'' 10\<lparr>rs_score := 50\<rparr>), (''2'', rank_sub ''u'' 20\<lparr>rs_score := 70\<rparr>)],
     so_changes = [rank_change ''a'' ''1'' 11 50, rank_change ''b'' ''2'' 21 70], so_released = [],
     so_last = Some ''2'', so_history = [(11, 50), (21, 70)], so_mode = SCORE_MODE_MAX\<rparr>"

lemma rank_obj2_consistent: "consistent rank_obj2"
  by code_simp

theorem past_is_replay_witness:
  "\<exists>past. reset_history (upto 15 rank_obj2) = Inr past \<and> score_at rank_obj2 15 = so_get_score past \<and>
    submissions_at rank_obj2 15 = made_by 15 (so_submissions past)"
proof (rule past_is_replay [OF rank_obj2_consistent])
  show "in_order (so_changes rank_obj2)" by code_simp
  show "dict_ok (so_submissions rank_obj2)" by code_simp
qed

text \<open>
  The global history is the merge of all histories: every entry of every user and task comes exactly
  once, in the order of time, and the bound \<^verbatim>\<open>until\<close> keeps exactly the entries up to it, although the generator stops
  at the first later one.
\<close>

theorem global_history_merge:
  assumes "\<forall>(user, tasks) \<in> set (sst_scores ss). \<forall>(task, sc) \<in> set tasks. consistent sc \<and> in_order (so_changes sc)"
  shows "mset (get_global_history ss None) = mset (all_entries ss) \<and>
    sorted (map time_of (get_global_history ss None)) \<and>
    get_global_history ss (Some u) = filter (\<lambda>e. time_of e \<le> u) (get_global_history ss None)"
proof -
  let ?queue = "foldl (\<lambda>queue (user, dic). task_queue user dic queue) [] (sst_scores ss)"
  have "queue_sorted ?queue"
    using assms consistent_history_sorted by (intro all_queue_sorted) (fastforce simp: queue_sorted_def)+
  then have sorted: "sorted (map time_of (get_global_history ss None))"
    by (simp add: get_global_history_eq merge_sorted)
  moreover have "mset (get_global_history ss None) = mset (all_entries ss)"
    by (simp add: get_global_history_eq merge_content all_queue_content all_entries_def) (simp add: queue_content_def)
  moreover have "get_global_history ss (Some u) = takeWhile (\<lambda>e. time_of e \<le> u) (get_global_history ss None)"
    by (simp add: get_global_history_eq merge_until)
  ultimately show ?thesis using takeWhile_sorted_filter [OF sorted] by metis
qed

theorem global_history_merge_witness:
  "get_global_history \<lparr>sst_scores = [(''u'', [(''t'', rank_obj2)])], sst_notified = []\<rparr> (Some 15) =
     filter (\<lambda>e. time_of e \<le> 15) (get_global_history \<lparr>sst_scores = [(''u'', [(''t'', rank_obj2)])], sst_notified = []\<rparr> None)"
proof -
  have "in_order (so_changes rank_obj2)" by code_simp
  then show ?thesis
    using global_history_merge [of "\<lparr>sst_scores = [(''u'', [(''t'', rank_obj2)])], sst_notified = []\<rparr>"]
      rank_obj2_consistent by simp
qed

text \<open>
  The score shown is never stale: for a consistent object with at least one change it is exactly
  what the score mode makes of the current submissions, with the released scores and the last submission for the mode of
  tokens.
\<close>

theorem score_up_to_date:
  assumes "consistent sc" "so_changes sc \<noteq> []"
  shows "mode_score sc = Inr (so_get_score sc)"
  by (rule consistent_score [OF assms])

theorem score_up_to_date_witness: "mode_score rank_obj2 = Inr (so_get_score rank_obj2)"
proof (rule score_up_to_date [OF rank_obj2_consistent])
  show "so_changes rank_obj2 \<noteq> []" by code_simp
qed



subsection \<open>Two gaps\<close>

text \<open>
  \<^verbatim>\<open>update_submission\<close> of the store replays the history before it changes the score mode: the object
  that it leaves is not a replay of its changes under its own mode.
\<close>

lemma update_submission_old_mode:
  "\<not> consistent (projr (find_score (projr (sst_update_submission (\<lambda>task. Inr SCORE_MODE_MAX_TOKENED_LAST) ''1''
       (rank_sub ''u'' 10) (rank_sub ''u'' 30)
       \<lparr>sst_scores = [(''u'', [(''t'', rank_obj2)])], sst_notified = []\<rparr>)) ''u'' ''t''))"
  by code_simp

text \<open>
  \<^verbatim>\<open>update_subchange\<close> keeps the place of the change: with a new time the list is no longer in order.
\<close>

lemma update_subchange_order:
  "\<not> in_order (so_changes (projr (so_update_subchange rank_obj2 ''a'' (rank_change ''a'' ''1'' 31 50))))"
  by code_simp

end
