(* ===== verification/TwoPhase.thy ===== *)
theory TwoPhase
  imports Prelude
begin

text \<open>
  The fail-fast screening of \<^verbatim>\<open>cms/grading/twophase.py\<close>: the group and the tag that a testcase has by
  its codename, and the status of the screening of each group. The file also gives the one string function of Python that
  the code uses, \<^verbatim>\<open>str.split\<close> with a bound. Whether the feature is on is a value of the configuration and an
  argument where it matters.
\<close>

section \<open>Model\<close>

text \<open>The group of a match of \<^verbatim>\<open>^([^-]*)-\<close>, the empty string without a match.\<close>

definition group_of :: "string \<Rightarrow> string" where
  "group_of codename = (if CHR ''-'' \<in> set codename then takeWhile (\<lambda>c. c \<noteq> CHR ''-'') codename else '''')"

text \<open>\<^verbatim>\<open>s.split(sep, n)\<close>: at most \<open>n\<close> cuts.\<close>

fun split_max :: "char \<Rightarrow> nat \<Rightarrow> string \<Rightarrow> string list" where
  "split_max sep n [] = [[]]"
| "split_max sep 0 s = [s]"
| "split_max sep (Suc n) (c # s) =
     (if c = sep then [] # split_max sep n s
      else case split_max sep (Suc n) s of [] \<Rightarrow> [[c]] | w # ws \<Rightarrow> (c # w) # ws)"

definition tag_of :: "string \<Rightarrow> string" where
  "tag_of codename =
     (let parts = split_max (CHR ''-'') 2 codename in if length parts = 3 then parts ! 2 else '''')"

text \<open>\<^verbatim>\<open>sub in s\<close>.\<close>

fun substring :: "string \<Rightarrow> string \<Rightarrow> bool" where
  "substring sub [] = (sub = [])"
| "substring sub (c # s) = (take (length sub) (c # s) = sub \<or> substring sub s)"

definition is_screening :: "string \<Rightarrow> bool" where
  "is_screening codename = (let tag = tag_of codename in tag = ''sample'' \<or> substring ''scr'' tag)"

text \<open>\<^verbatim>\<open>_passed\<close>: a null outcome and one that is no number have not passed.\<close>

definition passed_outcome :: "outcome \<Rightarrow> bool" where
  "passed_outcome out = (case float_of out of Inl _ \<Rightarrow> False | Inr x \<Rightarrow> 0 < x)"

datatype screening_status = Pending | Passed | Failed

definition screening_groups :: "string list \<Rightarrow> (string, string list) dict" where
  "screening_groups codenames =
     foldl (\<lambda>screening codename.
       if is_screening codename
       then dict_set (group_of codename)
              ((case dict_get screening (group_of codename) of None \<Rightarrow> [] | Some cs \<Rightarrow> cs) @ [codename]) screening
       else screening) [] codenames"

definition status_of_group :: "(string, outcome) dict \<Rightarrow> string list \<Rightarrow> screening_status" where
  "status_of_group outcome_by_codename codenames =
     (let evaluated = filter (\<lambda>c. dict_get outcome_by_codename c \<noteq> None) codenames in
      if length evaluated < length codenames then Pending
      else if list_all (\<lambda>c. passed_outcome (the (dict_get outcome_by_codename c))) evaluated then Passed
      else Failed)"

definition group_screening_status ::
  "string list \<Rightarrow> (string, outcome) dict \<Rightarrow> (string, screening_status) dict" where
  "group_screening_status testcases outcome_by_codename =
     map (\<lambda>(group, codenames). (group, status_of_group outcome_by_codename codenames)) (screening_groups testcases)"


section \<open>The status of a group\<close>

text \<open>The screening testcases of a group are collected in the order of the dataset.\<close>

definition screening_of :: "string list \<Rightarrow> string \<Rightarrow> string list" where
  "screening_of codenames g = filter (\<lambda>c. is_screening c \<and> group_of c = g) codenames"

lemma screening_groups_get:
  "dict_get (screening_groups codenames) g =
     (if screening_of codenames g = [] then None else Some (screening_of codenames g))"
  unfolding screening_groups_def
  by (induction codenames rule: rev_induct) (auto simp: screening_of_def)

lemma map_of_map_values: "map_of (map (\<lambda>(k, v). (k, f v)) d) k = map_option f (map_of d k)"
  by (induction d) auto

lemma status_of_group_iff:
  "status_of_group outs cs = Pending \<longleftrightarrow> (\<exists>c \<in> set cs. dict_get outs c = None)"
  "status_of_group outs cs = Passed \<longleftrightarrow> (\<forall>c \<in> set cs. \<exists>r > 0. dict_get outs c = Some (Outcome r))"
proof -
  have len: "length (filter P cs) < length cs \<longleftrightarrow> (\<exists>c \<in> set cs. \<not> P c)" for P
    using length_filter_less [of _ cs P] by (metis filter_True less_irrefl)
  show "status_of_group outs cs = Pending \<longleftrightarrow> (\<exists>c \<in> set cs. dict_get outs c = None)"
    by (auto simp: status_of_group_def Let_def len)
  have p: "passed_outcome x \<longleftrightarrow> (\<exists>r > 0. x = Outcome r)" for x
    by (cases x) (auto simp: passed_outcome_def)
  show "status_of_group outs cs = Passed \<longleftrightarrow> (\<forall>c \<in> set cs. \<exists>r > 0. dict_get outs c = Some (Outcome r))"
  proof (cases "\<exists>c \<in> set cs. dict_get outs c = None")
    case True
    then have "status_of_group outs cs = Pending" by (auto simp: status_of_group_def Let_def len)
    then show ?thesis using True by fastforce
  next
    case False
    then have all: "\<forall>c \<in> set cs. \<exists>x. dict_get outs c = Some x" by auto
    then have "status_of_group outs cs = Passed \<longleftrightarrow> (\<forall>c \<in> set cs. passed_outcome (the (dict_get outs c)))"
      by (auto simp: status_of_group_def Let_def len list_all_iff)
    then show ?thesis using all p by (metis option.sel)
  qed
qed

lemma group_screening_status_get:
  "dict_get (group_screening_status codenames outs) g =
     (if screening_of codenames g = [] then None else Some (status_of_group outs (screening_of codenames g)))"
  by (simp add: group_screening_status_def map_of_map_values screening_groups_get)

text \<open>
  The status of a group says exactly how its screening stands: there is one if and only if the group has screening testcases;
  it is pending while one of them has no outcome, passed if and only if each has a positive outcome, and
  failed if all have an outcome and one is not positive.
\<close>

theorem group_screening_status_correct:
  "(case dict_get (group_screening_status codenames outs) g of
      None \<Rightarrow> screening_of codenames g = []
    | Some Pending \<Rightarrow> (\<exists>c \<in> set (screening_of codenames g). dict_get outs c = None)
    | Some Passed \<Rightarrow> screening_of codenames g \<noteq> [] \<and>
        (\<forall>c \<in> set (screening_of codenames g). \<exists>r > 0. dict_get outs c = Some (Outcome r))
    | Some Failed \<Rightarrow> (\<forall>c \<in> set (screening_of codenames g). dict_get outs c \<noteq> None) \<and>
        (\<exists>c \<in> set (screening_of codenames g). \<forall>r > 0. dict_get outs c \<noteq> Some (Outcome r)))"
  using status_of_group_iff [of outs "screening_of codenames g"]
  unfolding group_screening_status_get by (cases "status_of_group outs (screening_of codenames g)") auto

theorem group_screening_status_correct_witness:
  "\<exists>r > 0. dict_get [(''s1-00-sample'', Outcome 1)] ''s1-00-sample'' = Some (Outcome r)"
proof -
  have "dict_get (group_screening_status [''s1-00-sample'', ''s1-03-x''] [(''s1-00-sample'', Outcome 1)]) ''s1'' = Some Passed"
    by code_simp
  moreover have "''s1-00-sample'' \<in> set (screening_of [''s1-00-sample'', ''s1-03-x''] ''s1'')" by code_simp
  ultimately show ?thesis
    using group_screening_status_correct [where codenames = "[''s1-00-sample'', ''s1-03-x'']"
      and outs = "[(''s1-00-sample'', Outcome 1)]" and g = "''s1''"]
    by (simp del: map_of.simps)
qed

end
