(* ===== verification/ESOperations.thy ===== *)
theory ESOperations
  imports PriorityQueue TwoPhase TaskScoring
begin

text \<open>
  The operations of the evaluation service, from \<^verbatim>\<open>cms/service/esoperations.py\<close>: what there is to do
  for a submission or a user test, and the queries that collect it for a whole contest. The state of a
  result comes from \<^verbatim>\<open>cms/db/submission.py\<close> and \<^verbatim>\<open>cms/db/usertest.py\<close>.

  The tables are lists of rows, and a query is the list of the rows it selects. A comparison with a
  null column is unknown (\<open>None\<close>), a filter keeps a row whose condition is true, and \<^verbatim>\<open>case\<close> takes its
  first branch whose condition is true. Whether two-phase evaluation is on is an argument.
\<close>

section \<open>Results\<close>

record es_evaluation =
  eev_testcase_id :: nat
  eev_codename :: string
  eev_outcome :: outcome
  eev_text :: "string list"

text \<open>A submission result; its scores are in the row of \<open>TaskScoring\<close>.\<close>

record es_result =
  er_submission_id :: nat
  er_dataset_id :: nat
  er_compilation_outcome :: "string option"
  er_compilation_tries :: nat
  er_evaluation_outcome :: "string option"
  er_evaluation_tries :: nat
  er_evaluations :: "es_evaluation list"
  er_row :: result_row

definition compiled :: "es_result \<Rightarrow> bool" where
  "compiled r = (er_compilation_outcome r \<noteq> None)"

definition compilation_failed :: "es_result \<Rightarrow> bool" where
  "compilation_failed r = (er_compilation_outcome r = Some ''fail'')"

definition compilation_succeeded :: "es_result \<Rightarrow> bool" where
  "compilation_succeeded r = (er_compilation_outcome r = Some ''ok'')"

definition evaluated :: "es_result \<Rightarrow> bool" where
  "evaluated r = (er_evaluation_outcome r \<noteq> None)"

definition needs_scoring :: "es_result \<Rightarrow> bool" where
  "needs_scoring r = ((compilation_failed r \<or> evaluated r) \<and> \<not> scored (er_row r))"

definition invalidate_score :: "es_result \<Rightarrow> es_result" where
  "invalidate_score r = r\<lparr>er_row := (er_row r)\<lparr>rr_score := None, rr_score_details := None, rr_public_score := None,
     rr_public_score_details := None, rr_ranking_score_details := None\<rparr>\<rparr>"

text \<open>A testcase id of 0 counts as none, as the test \<^verbatim>\<open>if testcase_id\<close> has it.\<close>

definition invalidate_evaluation :: "nat option \<Rightarrow> es_result \<Rightarrow> es_result" where
  "invalidate_evaluation testcase_id r =
     (invalidate_score r)\<lparr>er_evaluation_outcome := None, er_evaluation_tries := 0,
        er_evaluations := (case testcase_id of
            None \<Rightarrow> []
          | Some i \<Rightarrow> if i = 0 then [] else filter (\<lambda>e. eev_testcase_id e \<noteq> i) (er_evaluations r))\<rparr>"

definition invalidate_compilation :: "es_result \<Rightarrow> es_result" where
  "invalidate_compilation r =
     (invalidate_evaluation None r)\<lparr>er_compilation_outcome := None, er_compilation_tries := 0\<rparr>"

definition set_compilation_outcome :: "bool \<Rightarrow> es_result \<Rightarrow> es_result" where
  "set_compilation_outcome success r = r\<lparr>er_compilation_outcome := Some (if success then ''ok'' else ''fail'')\<rparr>"

definition set_evaluation_outcome :: "es_result \<Rightarrow> es_result" where
  "set_evaluation_outcome r = r\<lparr>er_evaluation_outcome := Some ''ok''\<rparr>"

record es_user_result =
  eur_user_test_id :: nat
  eur_dataset_id :: nat
  eur_compilation_outcome :: "string option"
  eur_compilation_tries :: nat
  eur_evaluation_outcome :: "string option"
  eur_evaluation_tries :: nat

definition ut_compiled :: "es_user_result \<Rightarrow> bool" where
  "ut_compiled r = (eur_compilation_outcome r \<noteq> None)"

definition ut_evaluated :: "es_user_result \<Rightarrow> bool" where
  "ut_evaluated r = (eur_evaluation_outcome r \<noteq> None)"

definition ut_invalidate_evaluation :: "es_user_result \<Rightarrow> es_user_result" where
  "ut_invalidate_evaluation r = r\<lparr>eur_evaluation_outcome := None, eur_evaluation_tries := 0\<rparr>"

definition ut_invalidate_compilation :: "es_user_result \<Rightarrow> es_user_result" where
  "ut_invalidate_compilation r =
     (ut_invalidate_evaluation r)\<lparr>eur_compilation_outcome := None, eur_compilation_tries := 0\<rparr>"


section \<open>Operations\<close>

definition COMPILATION :: string where "COMPILATION = ''compile''"
definition EVALUATION :: string where "EVALUATION = ''evaluate''"
definition USER_TEST_COMPILATION :: string where "USER_TEST_COMPILATION = ''compile_test''"
definition USER_TEST_EVALUATION :: string where "USER_TEST_EVALUATION = ''evaluate_test''"

text \<open>\<^verbatim>\<open>ESOperation\<close>; its \<^verbatim>\<open>__eq__\<close> compares all fields, as the equality of the record does.\<close>

record es_operation =
  op_type :: string
  op_object_id :: nat
  op_dataset_id :: nat
  op_testcase_codename :: "string option"
  op_archive_sandbox :: bool

abbreviation es_op :: "string \<Rightarrow> nat \<Rightarrow> nat \<Rightarrow> string option \<Rightarrow> bool \<Rightarrow> es_operation" where
  "es_op type object_id dataset_id codename archive \<equiv>
     \<lparr>op_type = type, op_object_id = object_id, op_dataset_id = dataset_id,
      op_testcase_codename = codename, op_archive_sandbox = archive\<rparr>"

definition for_submission :: "es_operation \<Rightarrow> bool" where
  "for_submission op \<longleftrightarrow> op_type op = COMPILATION \<or> op_type op = EVALUATION"

definition op_to_dict :: "es_operation \<Rightarrow> (string \<times> json) list" where
  "op_to_dict op =
     [(''type'', JStr (op_type op)),
      (''object_id'', JInt (int (op_object_id op))),
      (''dataset_id'', JInt (int (op_dataset_id op))),
      (''testcase_codename'', case op_testcase_codename op of None \<Rightarrow> JNull | Some c \<Rightarrow> JStr c),
      (''archive_sandbox'', JBool (op_archive_sandbox op))]"

text \<open>
  \<^verbatim>\<open>from_dict\<close> stores what it finds without a check; the model has an operation for a dictionary whose
  values have the types that \<^verbatim>\<open>__init__\<close> declares, and \<open>TypeError\<close> for any other.
\<close>

definition op_from_dict :: "(string \<times> json) list \<Rightarrow> es_operation res" where
  "op_from_dict d =
     res_bind (lookup d ''type'') (\<lambda>t. res_bind (lookup d ''object_id'') (\<lambda>i. res_bind (lookup d ''dataset_id'') (\<lambda>k.
     res_bind (lookup d ''testcase_codename'') (\<lambda>c. res_bind (lookup d ''archive_sandbox'') (\<lambda>a.
       case (t, i, k, a) of
         (JStr t', JInt i', JInt k', JBool a') \<Rightarrow>
           (if i' < 0 \<or> k' < 0 then Inl TypeError
            else case c of
              JNull \<Rightarrow> Inr (es_op t' (nat i') (nat k') None a')
            | JStr c' \<Rightarrow> Inr (es_op t' (nat i') (nat k') (Some c') a')
            | _ \<Rightarrow> Inl TypeError)
       | _ \<Rightarrow> Inl TypeError)))))"


section \<open>What to do for one object\<close>

definition MAX_COMPILATION_TRIES :: nat where "MAX_COMPILATION_TRIES = 3"
definition MAX_EVALUATION_TRIES :: nat where "MAX_EVALUATION_TRIES = 3"
definition MAX_USER_TEST_COMPILATION_TRIES :: nat where "MAX_USER_TEST_COMPILATION_TRIES = 3"
definition MAX_USER_TEST_EVALUATION_TRIES :: nat where "MAX_USER_TEST_EVALUATION_TRIES = 3"

definition submission_to_compile :: "es_result option \<Rightarrow> bool" where
  "submission_to_compile r =
     (case r of None \<Rightarrow> True | Some r \<Rightarrow> \<not> compiled r \<and> er_compilation_tries r < MAX_COMPILATION_TRIES)"

definition submission_to_evaluate :: "es_result option \<Rightarrow> bool" where
  "submission_to_evaluate r =
     (case r of None \<Rightarrow> False
      | Some r \<Rightarrow> compilation_succeeded r \<and> \<not> evaluated r \<and> er_evaluation_tries r < MAX_EVALUATION_TRIES)"

definition submission_to_evaluate_on_testcase :: "es_result \<Rightarrow> string \<Rightarrow> bool" where
  "submission_to_evaluate_on_testcase r codename =
     (submission_to_evaluate (Some r) \<and> \<not> list_ex (\<lambda>e. eev_codename e = codename) (er_evaluations r))"

definition user_test_to_compile :: "es_user_result option \<Rightarrow> bool" where
  "user_test_to_compile r =
     (case r of None \<Rightarrow> True
      | Some r \<Rightarrow> \<not> ut_compiled r \<and> eur_compilation_tries r < MAX_USER_TEST_COMPILATION_TRIES)"

definition user_test_to_evaluate :: "es_user_result option \<Rightarrow> bool" where
  "user_test_to_evaluate r =
     (case r of None \<Rightarrow> False
      | Some r \<Rightarrow> eur_compilation_outcome r = Some ''ok'' \<and> \<not> ut_evaluated r \<and>
          eur_evaluation_tries r < MAX_USER_TEST_EVALUATION_TRIES)"

definition outcomes_for_screening :: "es_evaluation list \<Rightarrow> (string, outcome) dict" where
  "outcomes_for_screening evaluations =
     foldl (\<lambda>d e. dict_set (eev_codename e) (eev_outcome e) d) []
       (filter (\<lambda>e. eev_text e = [] \<or> hd (eev_text e) \<noteq> SKIPPED_DEPENDENCY_MESSAGE) evaluations)"

record es_task =
  et_id :: nat
  et_contest_id :: "nat option"
  et_active_dataset_id :: "nat option"

text \<open>A dataset: its testcases by codename with their ids; its score type object, whose construction may fail.\<close>

record 'p es_dataset =
  ed_id :: nat
  ed_task_id :: nat
  ed_autojudge :: bool
  ed_testcases :: "(string, nat) dict"
  ed_parameters :: json
  ed_score_type :: "'p group_view res"

record es_submission =
  es_id :: nat
  es_task_id :: nat
  es_timestamp :: datetime

type_synonym es_todo = "es_operation \<times> int \<times> datetime"

definition dataset_active :: "es_task \<Rightarrow> 'p es_dataset \<Rightarrow> bool" where
  "dataset_active task dataset = (et_active_dataset_id task = Some (ed_id dataset))"

definition compilation_priority :: "bool \<Rightarrow> nat \<Rightarrow> int" where
  "compilation_priority active tries =
     (if \<not> active then PRIORITY_EXTRA_LOW else if tries = 0 then PRIORITY_HIGH else PRIORITY_MEDIUM)"

definition evaluation_priority :: "bool \<Rightarrow> nat \<Rightarrow> int" where
  "evaluation_priority active tries =
     (if \<not> active then PRIORITY_EXTRA_LOW else if tries = 0 then PRIORITY_MEDIUM else PRIORITY_LOW)"

text \<open>The tests of the loop over the testcases.\<close>

definition released_by_gate :: "('p subtask_gate \<times> subtask_status list) option \<Rightarrow> string \<Rightarrow> bool" where
  "released_by_gate gate codename =
     (case gate of None \<Rightarrow> True | Some (g, dag_status) \<Rightarrow> releasable g codename dag_status)"

definition released_by_screening :: "(string, screening_status) dict option \<Rightarrow> string \<Rightarrow> bool" where
  "released_by_screening screening_status codename =
     (case screening_status of
        None \<Rightarrow> True
      | Some status \<Rightarrow> is_screening codename \<or>
          (case dict_get status (group_of codename) of None \<Rightarrow> True | Some s \<Rightarrow> s = Passed))"

definition all_outcomes :: "es_evaluation list \<Rightarrow> (string, outcome) dict" where
  "all_outcomes evaluations = foldl (\<lambda>d e. dict_set (eev_codename e) (eev_outcome e) d) [] evaluations"

definition evaluation_operations ::
  "bool \<Rightarrow> es_result \<Rightarrow> es_submission \<Rightarrow> es_task \<Rightarrow> 'p es_dataset \<Rightarrow> bool \<Rightarrow> es_todo list res" where
  "evaluation_operations two_phase r submission task dataset archive_sandbox =
     (let priority = evaluation_priority (dataset_active task dataset) (er_evaluation_tries r);
          evaluated_testcase_ids = map eev_testcase_id (er_evaluations r);
          screening_status = (if two_phase
            then Some (group_screening_status (dict_keys (ed_testcases dataset)) (outcomes_for_screening (er_evaluations r)))
            else None)
      in res_bind (case fst (gate_for_dataset (ed_parameters dataset) (ed_score_type dataset) (ed_id dataset) {}) of
                     None \<Rightarrow> Inr None
                   | Some g \<Rightarrow> res_bind (statuses g (all_outcomes (er_evaluations r))) (\<lambda>(dag_status, _). Inr (Some (g, dag_status))))
        (\<lambda>gate. Inr (map (\<lambda>(codename, testcase_id).
            (es_op EVALUATION (es_id submission) (ed_id dataset) (Some codename) archive_sandbox, priority,
             es_timestamp submission))
          (filter (\<lambda>(codename, testcase_id).
             testcase_id \<notin> set evaluated_testcase_ids \<and> released_by_gate gate codename \<and>
             released_by_screening screening_status codename) (ed_testcases dataset)))))"

definition submission_get_operations ::
  "bool \<Rightarrow> es_result option \<Rightarrow> es_submission \<Rightarrow> es_task \<Rightarrow> 'p es_dataset \<Rightarrow> bool \<Rightarrow> es_todo list res" where
  "submission_get_operations two_phase submission_result submission task dataset archive_sandbox =
     (if submission_to_compile submission_result
      then Inr [(es_op COMPILATION (es_id submission) (ed_id dataset) None archive_sandbox,
                 compilation_priority (dataset_active task dataset)
                   (case submission_result of None \<Rightarrow> 0 | Some r \<Rightarrow> er_compilation_tries r),
                 es_timestamp submission)]
      else case submission_result of
        None \<Rightarrow> Inr []
      | Some r \<Rightarrow>
          if submission_to_evaluate (Some r)
          then evaluation_operations two_phase r submission task dataset archive_sandbox
          else Inr [])"

definition user_test_get_operations ::
  "es_user_result option \<Rightarrow> es_submission \<Rightarrow> es_task \<Rightarrow> 'p es_dataset \<Rightarrow> es_todo list" where
  "user_test_get_operations user_test_result user_test task dataset =
     (if user_test_to_compile user_test_result
      then [(es_op USER_TEST_COMPILATION (es_id user_test) (ed_id dataset) None False,
             compilation_priority (dataset_active task dataset)
               (case user_test_result of None \<Rightarrow> 0 | Some r \<Rightarrow> eur_compilation_tries r),
             es_timestamp user_test)]
      else case user_test_result of
        None \<Rightarrow> []
      | Some r \<Rightarrow>
          if user_test_to_evaluate (Some r)
          then [(es_op USER_TEST_EVALUATION (es_id user_test) (ed_id dataset) None False,
                 evaluation_priority (dataset_active task dataset) (eur_evaluation_tries r), es_timestamp user_test)]
          else [])"



section \<open>The queries over a contest\<close>

record 'p es_db =
  db_tasks :: "es_task list"
  db_datasets :: "'p es_dataset list"
  db_submissions :: "es_submission list"
  db_results :: "es_result list"
  db_user_tests :: "es_submission list"
  db_user_results :: "es_user_result list"

text \<open>Comparison with a column that may be null, and what a filter makes of the answer.\<close>

definition sql_eq :: "'a \<Rightarrow> 'a option \<Rightarrow> bool option" where
  "sql_eq x column = map_option (\<lambda>y. x = y) column"

definition sql_ne :: "'a \<Rightarrow> 'a option \<Rightarrow> bool option" where
  "sql_ne x column = map_option (\<lambda>y. x \<noteq> y) column"

definition sql_or :: "bool option \<Rightarrow> bool option \<Rightarrow> bool option" where
  "sql_or p q = (if p = Some True \<or> q = Some True then Some True else if p = None \<or> q = None then None else Some False)"

definition sql_true :: "bool option \<Rightarrow> bool" where
  "sql_true p \<longleftrightarrow> p = Some True"

definition contest_filter :: "nat option \<Rightarrow> es_task \<Rightarrow> bool" where
  "contest_filter contest_id task =
     (case contest_id of None \<Rightarrow> True | Some c \<Rightarrow> sql_true (sql_eq c (et_contest_id task)))"

definition dataset_to_judge :: "'p es_dataset \<Rightarrow> es_task \<Rightarrow> bool" where
  "dataset_to_judge dataset task =
     sql_true (sql_or (sql_eq (ed_id dataset) (et_active_dataset_id task)) (Some (ed_autojudge dataset)))"

definition filter_results_to_compile :: "es_result \<Rightarrow> bool" where
  "filter_results_to_compile r \<longleftrightarrow> \<not> er_compilation_outcome r \<noteq> None \<and> er_compilation_tries r < MAX_COMPILATION_TRIES"

definition filter_results_to_evaluate :: "es_result \<Rightarrow> bool" where
  "filter_results_to_evaluate r \<longleftrightarrow> er_compilation_outcome r = Some ''ok'' \<and> \<not> er_evaluation_outcome r \<noteq> None \<and>
     er_evaluation_tries r < MAX_EVALUATION_TRIES"

definition filter_user_results_to_compile :: "es_user_result \<Rightarrow> bool" where
  "filter_user_results_to_compile r \<longleftrightarrow>
     \<not> eur_compilation_outcome r \<noteq> None \<and> eur_compilation_tries r < MAX_COMPILATION_TRIES"

definition filter_user_results_to_evaluate :: "es_user_result \<Rightarrow> bool" where
  "filter_user_results_to_evaluate r \<longleftrightarrow> eur_compilation_outcome r = Some ''ok'' \<and>
     \<not> eur_evaluation_outcome r \<noteq> None \<and> eur_evaluation_tries r < MAX_EVALUATION_TRIES"

text \<open>The \<^verbatim>\<open>case\<close> expressions of the queries.\<close>

definition sql_new_priority :: "'p es_dataset \<Rightarrow> es_task \<Rightarrow> int" where
  "sql_new_priority dataset task =
     (if sql_true (sql_ne (ed_id dataset) (et_active_dataset_id task)) then PRIORITY_EXTRA_LOW else PRIORITY_HIGH)"

definition sql_priority :: "'p es_dataset \<Rightarrow> es_task \<Rightarrow> nat \<Rightarrow> int \<Rightarrow> int \<Rightarrow> int" where
  "sql_priority dataset task tries first again =
     (if sql_true (sql_ne (ed_id dataset) (et_active_dataset_id task)) then PRIORITY_EXTRA_LOW
      else if tries = 0 then first else again)"

text \<open>
  The query for objects that have no result for a dataset of their task, and the one for objects that
  have one. The user tests use the same two queries on their own tables.
\<close>

definition rows_without_result ::
  "'p es_db \<Rightarrow> nat option \<Rightarrow> es_submission list \<Rightarrow> (nat \<times> nat) list \<Rightarrow> (es_submission \<times> es_task \<times> 'p es_dataset) list" where
  "rows_without_result db contest_id objects results =
     [(s, t, d). s \<leftarrow> objects, t \<leftarrow> db_tasks db, et_id t = es_task_id s, d \<leftarrow> db_datasets db, ed_task_id d = et_id t,
        (es_id s, ed_id d) \<notin> set results, contest_filter contest_id t, dataset_to_judge d t]"

definition rows_with_result ::
  "'p es_db \<Rightarrow> nat option \<Rightarrow> es_submission list \<Rightarrow> 'r list \<Rightarrow> ('r \<Rightarrow> nat \<times> nat) \<Rightarrow> ('r \<Rightarrow> bool) \<Rightarrow>
   (es_submission \<times> es_task \<times> 'r \<times> 'p es_dataset) list" where
  "rows_with_result db contest_id objects results key keep =
     [(s, t, r, d). s \<leftarrow> objects, t \<leftarrow> db_tasks db, et_id t = es_task_id s, r \<leftarrow> results, fst (key r) = es_id s,
        d \<leftarrow> db_datasets db, ed_id d = snd (key r), contest_filter contest_id t, dataset_to_judge d t, keep r]"

definition result_key :: "es_result \<Rightarrow> nat \<times> nat" where
  "result_key r = (er_submission_id r, er_dataset_id r)"

definition user_result_key :: "es_user_result \<Rightarrow> nat \<times> nat" where
  "user_result_key r = (eur_user_test_id r, eur_dataset_id r)"

definition get_submissions_compilation_operations :: "'p es_db \<Rightarrow> nat option \<Rightarrow> es_todo list" where
  "get_submissions_compilation_operations db contest_id =
     map (\<lambda>(s, t, d). (es_op COMPILATION (es_id s) (ed_id d) None False, sql_new_priority d t, es_timestamp s))
       (rows_without_result db contest_id (db_submissions db) (map result_key (db_results db))) @
     map (\<lambda>(s, t, r, d). (es_op COMPILATION (es_id s) (ed_id d) None False,
         sql_priority d t (er_compilation_tries r) PRIORITY_HIGH PRIORITY_MEDIUM, es_timestamp s))
       (rows_with_result db contest_id (db_submissions db) (db_results db) result_key filter_results_to_compile)"

text \<open>\<^verbatim>\<open>to_evaluate\<close>: one row for every testcase without an evaluation.\<close>

definition rows_to_evaluate :: "'p es_db \<Rightarrow> nat option \<Rightarrow> es_todo list" where
  "rows_to_evaluate db contest_id =
     [(es_op EVALUATION (es_id s) (ed_id d) (Some codename) False,
       sql_priority d t (er_evaluation_tries r) PRIORITY_MEDIUM PRIORITY_LOW, es_timestamp s).
        (s, t, r, d) \<leftarrow> rows_with_result db contest_id (db_submissions db) (db_results db) result_key filter_results_to_evaluate,
        (codename, testcase_id) \<leftarrow> ed_testcases d, testcase_id \<notin> eev_testcase_id ` set (er_evaluations r)]"

definition get_submissions_operations :: "'p es_db \<Rightarrow> nat option \<Rightarrow> es_todo list" where
  "get_submissions_operations db contest_id =
     get_submissions_compilation_operations db contest_id @ rows_to_evaluate db contest_id"

definition get_submission_results_to_evaluate :: "'p es_db \<Rightarrow> nat option \<Rightarrow> es_result list" where
  "get_submission_results_to_evaluate db contest_id =
     map (\<lambda>(s, t, r, d). r)
       (rows_with_result db contest_id (db_submissions db) (db_results db) result_key filter_results_to_evaluate)"

definition get_submission_results_to_finalize :: "'p es_db \<Rightarrow> nat option \<Rightarrow> es_result list" where
  "get_submission_results_to_finalize db contest_id =
     map (\<lambda>(s, t, r, d). r)
       (filter (\<lambda>(s, t, r, d). length (er_evaluations r) = length (ed_testcases d))
         (rows_with_result db contest_id (db_submissions db) (db_results db) result_key filter_results_to_evaluate))"

definition any_dataset_declares_dependencies :: "'p es_db \<Rightarrow> nat option \<Rightarrow> bool" where
  "any_dataset_declares_dependencies db contest_id =
     list_ex (\<lambda>d. list_ex (\<lambda>t. ed_task_id d = et_id t \<and> contest_filter contest_id t) (db_tasks db) \<and>
       declares_dependencies (ed_parameters d)) (db_datasets db)"

definition get_user_tests_operations :: "'p es_db \<Rightarrow> nat option \<Rightarrow> es_todo list" where
  "get_user_tests_operations db contest_id =
     map (\<lambda>(s, t, d). (es_op USER_TEST_COMPILATION (es_id s) (ed_id d) None False, sql_new_priority d t, es_timestamp s))
       (rows_without_result db contest_id (db_user_tests db) (map user_result_key (db_user_results db))) @
     map (\<lambda>(s, t, r, d). (es_op USER_TEST_COMPILATION (es_id s) (ed_id d) None False,
         sql_priority d t (eur_compilation_tries r) PRIORITY_HIGH PRIORITY_MEDIUM, es_timestamp s))
       (rows_with_result db contest_id (db_user_tests db) (db_user_results db) user_result_key filter_user_results_to_compile) @
     map (\<lambda>(s, t, r, d). (es_op USER_TEST_EVALUATION (es_id s) (ed_id d) None False,
         sql_priority d t (eur_evaluation_tries r) PRIORITY_MEDIUM PRIORITY_LOW, es_timestamp s))
       (rows_with_result db contest_id (db_user_tests db) (db_user_results db) user_result_key filter_user_results_to_evaluate)"

text \<open>\<^verbatim>\<open>get_relevant_operations\<close>: an unknown dataset id selects all datasets of the task.\<close>

definition relevant_datasets :: "'p es_db \<Rightarrow> es_submission \<Rightarrow> nat option \<Rightarrow> 'p es_dataset list" where
  "relevant_datasets db submission dataset_id =
     (let datasets = filter (\<lambda>d. ed_task_id d = es_task_id submission) (db_datasets db) in
      case dataset_id of
        None \<Rightarrow> datasets
      | Some i \<Rightarrow> (case find (\<lambda>d. ed_id d = i) datasets of None \<Rightarrow> datasets | Some d \<Rightarrow> [d]))"

definition get_relevant_operations ::
  "'p es_db \<Rightarrow> string \<Rightarrow> es_submission list \<Rightarrow> nat option \<Rightarrow> es_operation list" where
  "get_relevant_operations db level submissions dataset_id =
     concat (map (\<lambda>s. concat (map (\<lambda>d.
       (if level = ''compilation'' then [es_op COMPILATION (es_id s) (ed_id d) None False] else []) @
       map (\<lambda>codename. es_op EVALUATION (es_id s) (ed_id d) (Some codename) False) (dict_keys (ed_testcases d)))
         (relevant_datasets db s dataset_id))) submissions)"



section \<open>The queries and the operations of one object agree\<close>

text \<open>
  The constraints of the database: keys are unique, and the dataset of a result belongs to the task of
  its object.
\<close>

definition results_ok :: "'p es_db \<Rightarrow> es_submission list \<Rightarrow> (nat \<times> nat) list \<Rightarrow> bool" where
  "results_ok db objects keys \<longleftrightarrow> distinct keys \<and> distinct (map es_id objects) \<and>
     (\<forall>(i, k) \<in> set keys. \<forall>s \<in> set objects. es_id s = i \<longrightarrow>
        (\<forall>d \<in> set (db_datasets db). ed_id d = k \<longrightarrow> ed_task_id d = es_task_id s))"

definition db_ok :: "'p es_db \<Rightarrow> bool" where
  "db_ok db \<longleftrightarrow> distinct (map et_id (db_tasks db)) \<and> distinct (map ed_id (db_datasets db)) \<and>
     results_ok db (db_submissions db) (map result_key (db_results db)) \<and>
     results_ok db (db_user_tests db) (map user_result_key (db_user_results db))"

definition all_active :: "'p es_db \<Rightarrow> bool" where
  "all_active db \<longleftrightarrow> (\<forall>t \<in> set (db_tasks db). et_active_dataset_id t \<noteq> None)"

definition result_of :: "('r \<Rightarrow> nat \<times> nat) \<Rightarrow> 'r list \<Rightarrow> es_submission \<Rightarrow> 'p es_dataset \<Rightarrow> 'r option" where
  "result_of key results s d = find (\<lambda>r. key r = (es_id s, ed_id d)) results"

text \<open>The objects of the contest, each with the datasets to judge it on.\<close>

definition judged :: "'p es_db \<Rightarrow> nat option \<Rightarrow> es_submission list \<Rightarrow> (es_submission \<times> es_task \<times> 'p es_dataset) list" where
  "judged db contest_id objects =
     [(s, t, d). s \<leftarrow> objects, t \<leftarrow> db_tasks db, et_id t = es_task_id s, d \<leftarrow> db_datasets db, ed_task_id d = et_id t,
        contest_filter contest_id t, dataset_to_judge d t]"

lemma in_judged:
  "(s, t, d) \<in> set (judged db contest_id objects) \<longleftrightarrow>
     s \<in> set objects \<and> t \<in> set (db_tasks db) \<and> et_id t = es_task_id s \<and> d \<in> set (db_datasets db) \<and> ed_task_id d = et_id t \<and>
     contest_filter contest_id t \<and> dataset_to_judge d t"
  by (auto simp: judged_def)

lemma result_of_None: "result_of key results s d = None \<longleftrightarrow> (es_id s, ed_id d) \<notin> set (map key results)"
  by (simp add: result_of_def find_None_iff image_iff) metis

lemma result_of_Some:
  assumes "distinct (map key results)"
  shows "result_of key results s d = Some r \<longleftrightarrow> r \<in> set results \<and> key r = (es_id s, ed_id d)"
proof
  assume "result_of key results s d = Some r"
  then show "r \<in> set results \<and> key r = (es_id s, ed_id d)"
    unfolding result_of_def by (metis (mono_tags, lifting) find_Some_iff nth_mem)
next
  assume r: "r \<in> set results \<and> key r = (es_id s, ed_id d)"
  then have "(es_id s, ed_id d) \<in> set (map key results)" by (metis image_eqI list.set_map)
  then obtain r' where r': "result_of key results s d = Some r'"
    using result_of_None [of key results s d] by blast
  then have "r' \<in> set results \<and> key r' = (es_id s, ed_id d)"
    unfolding result_of_def by (metis (mono_tags, lifting) find_Some_iff nth_mem)
  then have "r' = r" using r assms by (metis distinct_map inj_onD)
  then show "result_of key results s d = Some r" using r' by simp
qed

lemma in_rows_without_result:
  "(s, t, d) \<in> set (rows_without_result db contest_id objects (map key results)) \<longleftrightarrow>
     (s, t, d) \<in> set (judged db contest_id objects) \<and> result_of key results s d = None"
  by (auto simp: in_judged result_of_None rows_without_result_def)

lemma in_rows_with_result:
  assumes "results_ok db objects (map key results)"
  shows "(s, t, r, d) \<in> set (rows_with_result db contest_id objects results key keep) \<longleftrightarrow>
     (s, t, d) \<in> set (judged db contest_id objects) \<and> result_of key results s d = Some r \<and> keep r"
proof -
  have dist: "distinct (map key results)" using assms by (simp add: results_ok_def)
  have "(s, t, r, d) \<in> set (rows_with_result db contest_id objects results key keep) \<longleftrightarrow>
      s \<in> set objects \<and> t \<in> set (db_tasks db) \<and> et_id t = es_task_id s \<and> r \<in> set results \<and> fst (key r) = es_id s \<and>
      d \<in> set (db_datasets db) \<and> ed_id d = snd (key r) \<and> contest_filter contest_id t \<and> dataset_to_judge d t \<and> keep r"
    by (auto simp: rows_with_result_def)
  moreover have "ed_task_id d = es_task_id s"
    if "s \<in> set objects" "r \<in> set results" "fst (key r) = es_id s" "d \<in> set (db_datasets db)" "ed_id d = snd (key r)"
  proof -
    have "(fst (key r), snd (key r)) \<in> set (map key results)" using that(2) by simp
    then have "\<forall>s \<in> set objects. es_id s = fst (key r) \<longrightarrow>
        (\<forall>d \<in> set (db_datasets db). ed_id d = snd (key r) \<longrightarrow> ed_task_id d = es_task_id s)"
      using assms unfolding results_ok_def by blast
    then show ?thesis using that by simp
  qed
  ultimately show ?thesis
    unfolding in_judged result_of_Some [OF dist] prod_eq_iff fst_conv snd_conv by metis
qed

text \<open>The priorities of the queries are those of the code, if the task has an active dataset.\<close>

lemma sql_priorities:
  assumes "et_active_dataset_id t \<noteq> None"
  shows "sql_new_priority d t = compilation_priority (dataset_active t d) 0"
    "sql_priority d t n PRIORITY_HIGH PRIORITY_MEDIUM = compilation_priority (dataset_active t d) n"
    "sql_priority d t n PRIORITY_MEDIUM PRIORITY_LOW = evaluation_priority (dataset_active t d) n"
  using assms
  by (auto simp: sql_new_priority_def sql_priority_def compilation_priority_def evaluation_priority_def
      dataset_active_def sql_ne_def sql_true_def)

lemma filters_agree:
  "filter_results_to_compile r \<longleftrightarrow> submission_to_compile (Some r)"
  "filter_results_to_evaluate r \<longleftrightarrow> submission_to_evaluate (Some r)"
  "filter_user_results_to_compile ur \<longleftrightarrow> user_test_to_compile (Some ur)"
  "filter_user_results_to_evaluate ur \<longleftrightarrow> user_test_to_evaluate (Some ur)"
  by (auto simp: filter_results_to_compile_def filter_results_to_evaluate_def filter_user_results_to_compile_def
      filter_user_results_to_evaluate_def submission_to_compile_def submission_to_evaluate_def user_test_to_compile_def
      user_test_to_evaluate_def compiled_def compilation_succeeded_def evaluated_def ut_compiled_def ut_evaluated_def
      MAX_COMPILATION_TRIES_def MAX_EVALUATION_TRIES_def MAX_USER_TEST_COMPILATION_TRIES_def MAX_USER_TEST_EVALUATION_TRIES_def)

lemma to_compile_not_evaluate: "submission_to_compile r \<Longrightarrow> \<not> submission_to_evaluate r"
  by (auto simp: submission_to_compile_def submission_to_evaluate_def compiled_def compilation_succeeded_def split: option.splits)

lemma ut_to_compile_not_evaluate: "user_test_to_compile r \<Longrightarrow> \<not> user_test_to_evaluate r"
  by (auto simp: user_test_to_compile_def user_test_to_evaluate_def ut_compiled_def split: option.splits)

text \<open>Without the gate and without screening, the evaluations are those of the missing testcases.\<close>

lemma evaluation_operations_plain:
  assumes "\<not> declares_dependencies (ed_parameters d)"
  shows "evaluation_operations False r s t d archive =
     Inr (map (\<lambda>(codename, testcase_id).
        (es_op EVALUATION (es_id s) (ed_id d) (Some codename) archive,
         evaluation_priority (dataset_active t d) (er_evaluation_tries r), es_timestamp s))
       (filter (\<lambda>(codename, testcase_id). testcase_id \<notin> eev_testcase_id ` set (er_evaluations r)) (ed_testcases d)))"
  using assms by (simp add: evaluation_operations_def gate_for_dataset_def released_by_gate_def released_by_screening_def)


definition compilation_todo :: "es_submission \<times> es_task \<times> 'p es_dataset \<Rightarrow> es_result option \<Rightarrow> es_todo" where
  "compilation_todo = (\<lambda>(s, t, d) r. (es_op COMPILATION (es_id s) (ed_id d) None False,
     compilation_priority (dataset_active t d) (case r of None \<Rightarrow> 0 | Some r \<Rightarrow> er_compilation_tries r), es_timestamp s))"

lemma db_okD:
  assumes "db_ok db"
  shows "results_ok db (db_submissions db) (map result_key (db_results db))"
    "results_ok db (db_user_tests db) (map user_result_key (db_user_results db))"
  using assms by (auto simp: db_ok_def)

lemma judged_active: "all_active db \<Longrightarrow> (s, t, d) \<in> set (judged db contest_id objects) \<Longrightarrow> et_active_dataset_id t \<noteq> None"
  by (auto simp: in_judged all_active_def)

lemma judged_priorities:
  assumes "all_active db" "(s, t, d) \<in> set (judged db contest_id objects)"
  shows "sql_new_priority d t = compilation_priority (dataset_active t d) 0"
    "sql_priority d t n PRIORITY_HIGH PRIORITY_MEDIUM = compilation_priority (dataset_active t d) n"
    "sql_priority d t n PRIORITY_MEDIUM PRIORITY_LOW = evaluation_priority (dataset_active t d) n"
  by (rule sql_priorities [OF judged_active [OF assms]])+

text \<open>
  What the two queries give together: \<open>h\<close> of every object and dataset to judge that has no result, or
  one that the filter keeps.
\<close>

abbreviation res_at :: "('r \<Rightarrow> nat \<times> nat) \<Rightarrow> 'r list \<Rightarrow> es_submission \<times> es_task \<times> 'p es_dataset \<Rightarrow> 'r option" where
  "res_at key results p \<equiv> result_of key results (fst p) (snd (snd p))"

lemma set_rows_without_result:
  "set (rows_without_result db contest_id objects (map key results)) =
     {p \<in> set (judged db contest_id objects). res_at key results p = None}"
  by (auto simp: in_rows_without_result simp del: set_map)

lemma image_rows_with_result:
  assumes "results_ok db objects (map key results)"
    and "\<And>s t d r. (s, t, d) \<in> set (judged db contest_id objects) \<Longrightarrow> g (s, t, r, d) = h (s, t, d) r"
  shows "g ` set (rows_with_result db contest_id objects results key keep) =
     {h p r |p r. p \<in> set (judged db contest_id objects) \<and> res_at key results p = Some r \<and> keep r}"
proof (intro set_eqI iffI)
  fix x
  assume "x \<in> g ` set (rows_with_result db contest_id objects results key keep)"
  then obtain s t r d where "(s, t, r, d) \<in> set (rows_with_result db contest_id objects results key keep)"
    and x: "x = g (s, t, r, d)" by auto
  then have "(s, t, d) \<in> set (judged db contest_id objects)" "result_of key results s d = Some r" "keep r"
    using in_rows_with_result [OF assms(1)] by auto
  moreover from this(1) have "x = h (s, t, d) r" using x assms(2) by simp
  ultimately show "x \<in> {h p r |p r. p \<in> set (judged db contest_id objects) \<and> res_at key results p = Some r \<and> keep r}"
    by (intro CollectI exI [of _ "(s, t, d)"] exI [of _ r]) simp
next
  fix x
  assume "x \<in> {h p r |p r. p \<in> set (judged db contest_id objects) \<and> res_at key results p = Some r \<and> keep r}"
  then obtain s t d r where p: "(s, t, d) \<in> set (judged db contest_id objects)" "result_of key results s d = Some r" "keep r"
    and x: "x = h (s, t, d) r" by auto
  then have "(s, t, r, d) \<in> set (rows_with_result db contest_id objects results key keep)"
    using in_rows_with_result [OF assms(1)] by blast
  then show "x \<in> g ` set (rows_with_result db contest_id objects results key keep)"
    using x assms(2) [OF p(1)] by (metis image_eqI)
qed

lemma option_cases_Un:
  assumes "K None"
  shows "{h p None |p. p \<in> A \<and> f p = None} \<union> {h p (Some r) |p r. p \<in> A \<and> f p = Some r \<and> K (Some r)} =
    {h p (f p) |p. p \<in> A \<and> K (f p)}" (is "?L = ?R")
proof (intro set_eqI iffI)
  fix x
  assume "x \<in> ?R"
  then obtain p where p: "p \<in> A" "K (f p)" "x = h p (f p)" by blast
  then show "x \<in> ?L" by (cases "f p") auto
next
  fix x
  assume "x \<in> ?L"
  then obtain p where "p \<in> A" "K (f p)" "x = h p (f p)" using assms by auto
  then show "x \<in> ?R" by blast
qed

lemma compilation_rows:
  assumes "db_ok db" "all_active db"
  shows "set (get_submissions_compilation_operations db contest_id) =
    {compilation_todo p (res_at result_key (db_results db) p) |p. p \<in> set (judged db contest_id (db_submissions db)) \<and>
       submission_to_compile (res_at result_key (db_results db) p)}"
proof -
  let ?judged = "judged db contest_id (db_submissions db)" and ?res = "res_at result_key (db_results db)"
  have a: "(\<lambda>(s, t, d). (es_op COMPILATION (es_id s) (ed_id d) None False, sql_new_priority d t, es_timestamp s)) `
      {p \<in> set ?judged. ?res p = None} = (\<lambda>p. compilation_todo p None) ` {p \<in> set ?judged. ?res p = None}"
    by (intro image_cong) (auto simp: compilation_todo_def judged_priorities [OF assms(2)])
  have b: "(\<lambda>(s, t, r, d). (es_op COMPILATION (es_id s) (ed_id d) None False,
         sql_priority d t (er_compilation_tries r) PRIORITY_HIGH PRIORITY_MEDIUM, es_timestamp s)) `
      set (rows_with_result db contest_id (db_submissions db) (db_results db) result_key filter_results_to_compile) =
    {compilation_todo p (Some r) |p r. p \<in> set ?judged \<and> ?res p = Some r \<and> filter_results_to_compile r}"
    by (intro image_rows_with_result [OF db_okD(1) [OF assms(1)]])
      (auto simp: compilation_todo_def judged_priorities [OF assms(2)])
  have "set (get_submissions_compilation_operations db contest_id) =
      {compilation_todo p None |p. p \<in> set ?judged \<and> ?res p = None} \<union>
      {compilation_todo p (Some r) |p r. p \<in> set ?judged \<and> ?res p = Some r \<and> submission_to_compile (Some r)}"
    unfolding get_submissions_compilation_operations_def set_append set_map set_rows_without_result a b filters_agree
    by blast
  also have "\<dots> = {compilation_todo p (?res p) |p. p \<in> set ?judged \<and> submission_to_compile (?res p)}"
    by (rule option_cases_Un) (simp add: submission_to_compile_def)
  finally show ?thesis .
qed


definition missing_testcases :: "es_result \<Rightarrow> 'p es_dataset \<Rightarrow> (string \<times> nat) list" where
  "missing_testcases r d =
     filter (\<lambda>(codename, testcase_id). testcase_id \<notin> eev_testcase_id ` set (er_evaluations r)) (ed_testcases d)"

definition evaluation_todos :: "es_submission \<times> es_task \<times> 'p es_dataset \<Rightarrow> es_result \<Rightarrow> es_todo list" where
  "evaluation_todos = (\<lambda>(s, t, d) r. map (\<lambda>(codename, testcase_id).
        (es_op EVALUATION (es_id s) (ed_id d) (Some codename) False,
         evaluation_priority (dataset_active t d) (er_evaluation_tries r), es_timestamp s)) (missing_testcases r d))"

lemma comprehension_filter:
  "concat (map (\<lambda>(c, i). if P i then [f c] else []) xs) = map (\<lambda>(c, i). f c) (filter (\<lambda>(c, i). P i) xs)"
  by (induction xs) auto

lemma evaluation_rows:
  assumes "db_ok db" "all_active db"
  shows "set (rows_to_evaluate db contest_id) =
    \<Union> {set (evaluation_todos p r) |p r. p \<in> set (judged db contest_id (db_submissions db)) \<and>
       res_at result_key (db_results db) p = Some r \<and> submission_to_evaluate (Some r)}"
proof -
  let ?g = "\<lambda>(s, t, r, d). set (map (\<lambda>(codename, testcase_id).
        (es_op EVALUATION (es_id s) (ed_id d) (Some codename) False,
         sql_priority d t (er_evaluation_tries r) PRIORITY_MEDIUM PRIORITY_LOW, es_timestamp s)) (missing_testcases r d))"
  have "set (rows_to_evaluate db contest_id) =
      \<Union> (?g ` set (rows_with_result db contest_id (db_submissions db) (db_results db) result_key filter_results_to_evaluate))"
    unfolding rows_to_evaluate_def missing_testcases_def comprehension_filter [symmetric] set_concat set_map image_image
    by (rule arg_cong [where f = Union], rule image_cong) (auto split: prod.split)
  also have "?g ` set (rows_with_result db contest_id (db_submissions db) (db_results db) result_key filter_results_to_evaluate) =
      {set (evaluation_todos p r) |p r. p \<in> set (judged db contest_id (db_submissions db)) \<and>
         res_at result_key (db_results db) p = Some r \<and> filter_results_to_evaluate r}"
    by (intro image_rows_with_result [OF db_okD(1) [OF assms(1)]])
      (simp add: evaluation_todos_def judged_priorities [OF assms(2)])
  finally show ?thesis unfolding filters_agree .
qed

text \<open>The operations of one submission and dataset, without dependencies and without screening.\<close>

lemma submission_operations_plain:
  assumes "\<not> declares_dependencies (ed_parameters d)"
  shows "submission_get_operations False r s t d False =
    Inr (if submission_to_compile r then [compilation_todo (s, t, d) r]
         else if submission_to_evaluate r then evaluation_todos (s, t, d) (the r) else [])"
  using assms
  by (cases r) (auto simp: submission_get_operations_def compilation_todo_def evaluation_operations_plain
      evaluation_todos_def missing_testcases_def submission_to_compile_def submission_to_evaluate_def)



definition dataset_sample :: "unit es_dataset" where
  "dataset_sample = \<lparr>ed_id = 5, ed_task_id = 1, ed_autojudge = False, ed_testcases = [(''a'', 11), (''b'', 12)],
     ed_parameters = JInt 100, ed_score_type = Inl ValueError\<rparr>"

definition result_row_sample :: result_row where
  "result_row_sample = \<lparr>rr_score = None, rr_score_details = None, rr_public_score = None, rr_public_score_details = None,
     rr_ranking_score_details = None\<rparr>"

definition es_result_sample :: es_result where
  "es_result_sample = \<lparr>er_submission_id = 7, er_dataset_id = 5, er_compilation_outcome = Some ''ok'',
     er_compilation_tries = 1, er_evaluation_outcome = None, er_evaluation_tries = 0,
     er_evaluations = [\<lparr>eev_testcase_id = 11, eev_codename = ''a'', eev_outcome = Outcome 1, eev_text = []\<rparr>],
     er_row = result_row_sample\<rparr>"

definition db_sample :: "unit es_db" where
  "db_sample = \<lparr>db_tasks = [\<lparr>et_id = 1, et_contest_id = Some 1, et_active_dataset_id = Some 5\<rparr>],
     db_datasets = [dataset_sample],
     db_submissions = [\<lparr>es_id = 7, es_task_id = 1, es_timestamp = 100\<rparr>, \<lparr>es_id = 8, es_task_id = 1, es_timestamp = 200\<rparr>],
     db_results = [es_result_sample],
     db_user_tests = [\<lparr>es_id = 3, es_task_id = 1, es_timestamp = 150\<rparr>], db_user_results = []\<rparr>"

lemmas db_sample_defs = db_sample_def dataset_sample_def es_result_sample_def result_row_sample_def

lemma db_sample_ok: "db_ok db_sample" "all_active db_sample" "\<not> any_dataset_declares_dependencies db_sample (Some 1)"
  by (simp_all add: db_ok_def results_ok_def all_active_def any_dataset_declares_dependencies_def declares_dependencies_def
      db_sample_defs result_key_def user_result_key_def)


definition user_test_todo :: "es_submission \<times> es_task \<times> 'p es_dataset \<Rightarrow> es_user_result option \<Rightarrow> es_todo" where
  "user_test_todo = (\<lambda>(s, t, d) r. (es_op USER_TEST_COMPILATION (es_id s) (ed_id d) None False,
     compilation_priority (dataset_active t d) (case r of None \<Rightarrow> 0 | Some r \<Rightarrow> eur_compilation_tries r), es_timestamp s))"

definition user_test_evaluation_todo :: "es_submission \<times> es_task \<times> 'p es_dataset \<Rightarrow> es_user_result \<Rightarrow> es_todo" where
  "user_test_evaluation_todo = (\<lambda>(s, t, d) r. (es_op USER_TEST_EVALUATION (es_id s) (ed_id d) None False,
     evaluation_priority (dataset_active t d) (eur_evaluation_tries r), es_timestamp s))"

lemma user_test_rows:
  fixes contest_id :: "nat option"
  assumes "db_ok db" "all_active db"
  defines "J \<equiv> set (judged db contest_id (db_user_tests db))" and "R \<equiv> res_at user_result_key (db_user_results db)"
  shows "set (get_user_tests_operations db contest_id) =
    {user_test_todo p (R p) |p. p \<in> J \<and> user_test_to_compile (R p)} \<union>
    {user_test_evaluation_todo p r |p r. p \<in> J \<and> R p = Some r \<and> user_test_to_evaluate (Some r)}"
proof -
  have w: "set (rows_without_result db contest_id (db_user_tests db) (map user_result_key (db_user_results db))) = {p \<in> J. R p = None}"
    unfolding set_rows_without_result J_def R_def ..
  have a: "(\<lambda>(s, t, d). (es_op USER_TEST_COMPILATION (es_id s) (ed_id d) None False, sql_new_priority d t, es_timestamp s)) `
      {p \<in> J. R p = None} = (\<lambda>p. user_test_todo p None) ` {p \<in> J. R p = None}"
    unfolding J_def by (intro image_cong) (auto simp: user_test_todo_def judged_priorities [OF assms(2)])
  have b: "(\<lambda>(s, t, r, d). (es_op USER_TEST_COMPILATION (es_id s) (ed_id d) None False,
         sql_priority d t (eur_compilation_tries r) PRIORITY_HIGH PRIORITY_MEDIUM, es_timestamp s)) `
      set (rows_with_result db contest_id (db_user_tests db) (db_user_results db) user_result_key filter_user_results_to_compile) =
    {user_test_todo p (Some r) |p r. p \<in> J \<and> R p = Some r \<and> filter_user_results_to_compile r}"
    unfolding J_def R_def by (intro image_rows_with_result [OF db_okD(2) [OF assms(1)]])
      (auto simp: user_test_todo_def judged_priorities [OF assms(2)])
  have c: "(\<lambda>(s, t, r, d). (es_op USER_TEST_EVALUATION (es_id s) (ed_id d) None False,
         sql_priority d t (eur_evaluation_tries r) PRIORITY_MEDIUM PRIORITY_LOW, es_timestamp s)) `
      set (rows_with_result db contest_id (db_user_tests db) (db_user_results db) user_result_key filter_user_results_to_evaluate) =
    {user_test_evaluation_todo p r |p r. p \<in> J \<and> R p = Some r \<and> filter_user_results_to_evaluate r}"
    unfolding J_def R_def by (intro image_rows_with_result [OF db_okD(2) [OF assms(1)]])
      (auto simp: user_test_evaluation_todo_def judged_priorities [OF assms(2)])
  have "set (get_user_tests_operations db contest_id) =
      ({user_test_todo p None |p. p \<in> J \<and> R p = None} \<union>
       {user_test_todo p (Some r) |p r. p \<in> J \<and> R p = Some r \<and> user_test_to_compile (Some r)}) \<union>
      {user_test_evaluation_todo p r |p r. p \<in> J \<and> R p = Some r \<and> user_test_to_evaluate (Some r)}"
    unfolding get_user_tests_operations_def set_append set_map w a b c filters_agree by blast
  also have "{user_test_todo p None |p. p \<in> J \<and> R p = None} \<union>
       {user_test_todo p (Some r) |p r. p \<in> J \<and> R p = Some r \<and> user_test_to_compile (Some r)} =
      {user_test_todo p (R p) |p. p \<in> J \<and> user_test_to_compile (R p)}"
    by (rule option_cases_Un) (simp add: user_test_to_compile_def)
  finally show ?thesis .
qed

text \<open>
  The same for the user tests: the operations that the queries find for a contest are exactly those
  that \<^verbatim>\<open>user_test_get_operations\<close> gives for every user test of the contest and every dataset to judge.
\<close>

theorem bulk_user_tests_agree:
  assumes "db_ok db" "all_active db"
  shows "set (get_user_tests_operations db contest_id) =
      \<Union> ((\<lambda>(s, t, d). set (user_test_get_operations (result_of user_result_key (db_user_results db) s d) s t d)) `
        set (judged db contest_id (db_user_tests db)))"
proof -
  let ?J = "set (judged db contest_id (db_user_tests db))" and ?R = "res_at user_result_key (db_user_results db)"
  have mem: "x \<in> set (user_test_get_operations (?R p) (fst p) (fst (snd p)) (snd (snd p))) \<longleftrightarrow>
      (user_test_to_compile (?R p) \<and> x = user_test_todo p (?R p)) \<or>
      (\<exists>r. ?R p = Some r \<and> user_test_to_evaluate (Some r) \<and> x = user_test_evaluation_todo p r)"
    for x and p :: "es_submission \<times> es_task \<times> 'p es_dataset"
    using ut_to_compile_not_evaluate [of "?R p"]
    by (cases "?R p") (auto simp: user_test_get_operations_def user_test_todo_def user_test_evaluation_todo_def split_beta
        user_test_to_compile_def)
  have "x \<in> set (get_user_tests_operations db contest_id) \<longleftrightarrow> (\<exists>p \<in> ?J. (user_test_to_compile (?R p) \<and> x = user_test_todo p (?R p)) \<or>
      (\<exists>r. ?R p = Some r \<and> user_test_to_evaluate (Some r) \<and> x = user_test_evaluation_todo p r))" for x
    unfolding user_test_rows [OF assms] Un_iff mem_Collect_eq by blast
  then show ?thesis unfolding mem [symmetric] by (simp add: set_eq_iff split_beta)
qed

theorem bulk_user_tests_agree_witness:
  "set (get_user_tests_operations db_sample (Some 1)) =
      \<Union> ((\<lambda>(s, t, d). set (user_test_get_operations (result_of user_result_key (db_user_results db_sample) s d) s t d)) `
        set (judged db_sample (Some 1) (db_user_tests db_sample)))"
  by (rule bulk_user_tests_agree [OF db_sample_ok(1,2)])


text \<open>
  Without an active dataset the queries and the code disagree: a comparison with a null
  column is unknown, so a dataset judged in the background gets the priority of an active one.
\<close>

lemma bulk_priority_no_active:
  assumes "et_active_dataset_id t = None"
  shows "sql_new_priority d t = PRIORITY_HIGH" "compilation_priority (dataset_active t d) 0 = PRIORITY_EXTRA_LOW"
  using assms by (simp_all add: sql_new_priority_def sql_ne_def sql_true_def compilation_priority_def dataset_active_def)


section \<open>Operations as dictionaries\<close>

text \<open>An operation that is exported to a dictionary and read back is the same operation.\<close>

theorem operation_roundtrip: "op_from_dict (op_to_dict op) = Inr op"
  by (cases "op_testcase_codename op") (simp_all add: op_from_dict_def op_to_dict_def lookup_def)


section \<open>Screening never blocks a submission\<close>

lemma outcomes_for_screening_get:
  assumes "\<forall>e \<in> set es. eev_text e = [] \<or> hd (eev_text e) \<noteq> SKIPPED_DEPENDENCY_MESSAGE"
  shows "dict_get (outcomes_for_screening es) c = None \<longleftrightarrow> c \<notin> eev_codename ` set es"
proof -
  have "filter (\<lambda>e. eev_text e = [] \<or> hd (eev_text e) \<noteq> SKIPPED_DEPENDENCY_MESSAGE) es = es"
    using assms by (simp add: filter_id_conv)
  moreover have "dict_get (foldl (\<lambda>d e. dict_set (eev_codename e) (eev_outcome e) d) [] es) c = None \<longleftrightarrow>
      c \<notin> eev_codename ` set es"
    by (induction es rule: rev_induct) auto
  ultimately show ?thesis by (simp add: outcomes_for_screening_def)
qed

text \<open>The evaluations of a result are for testcases of the dataset, by name and by id.\<close>

definition evaluations_ok :: "es_result \<Rightarrow> 'p es_dataset \<Rightarrow> bool" where
  "evaluations_ok r d \<longleftrightarrow> dict_ok (ed_testcases d) \<and> distinct (map snd (ed_testcases d)) \<and>
     (\<forall>e \<in> set (er_evaluations r). dict_get (ed_testcases d) (eev_codename e) = Some (eev_testcase_id e))"

lemma evaluated_codename:
  assumes "evaluations_ok r d" "(c, i) \<in> set (ed_testcases d)"
  shows "c \<in> eev_codename ` set (er_evaluations r) \<longleftrightarrow> i \<in> eev_testcase_id ` set (er_evaluations r)"
proof -
  have ids: "c' = c" if "(c', i) \<in> set (ed_testcases d)" for c'
  proof -
    have "inj_on snd (set (ed_testcases d))" using assms(1) by (simp add: evaluations_ok_def distinct_map)
    then have "(c', i) = (c, i)" by (rule inj_onD [OF _ _ that assms(2)]) simp
    then show ?thesis by simp
  qed
  have "dict_get (ed_testcases d) c = Some i" using assms by (simp add: evaluations_ok_def)
  then have "eev_codename e = c \<longleftrightarrow> eev_testcase_id e = i" if "e \<in> set (er_evaluations r)" for e
  proof -
    have e: "dict_get (ed_testcases d) (eev_codename e) = Some (eev_testcase_id e)"
      using assms(1) that by (simp add: evaluations_ok_def)
    show ?thesis using e ids map_of_SomeD [OF e] \<open>dict_get (ed_testcases d) c = Some i\<close> by (metis option.inject)
  qed
  then show ?thesis unfolding image_iff by metis
qed



end
