(* ===== verification/WorkerPool.thy ===== *)
theory WorkerPool
  imports ESOperations
begin

text \<open>
  The workers of the evaluation service, from \<^verbatim>\<open>cms/service/workerpool.py\<close>: which operations each
  works on, the ids of the job groups, timeouts, disabling and lost connections.

  The dictionaries by shard that the class keeps all get their key in \<^verbatim>\<open>add_worker\<close> and never lose it, so
  the model has one dictionary from shards to a record with a field for each. What the class spawns is
  recorded as a list. The clock and the draw of \<^verbatim>\<open>random.choice\<close> are arguments.
\<close>

section \<open>Model\<close>

subsection \<open>The time a job group may take\<close>

text \<open>A job of an exported job group; a time limit in seconds, exact.\<close>

record job_entry =
  je_type :: string
  je_time_limit :: "rat option"

definition JOB_OVERHEAD_S :: rat where "JOB_OVERHEAD_S = 10"

definition wall_limit :: "rat \<Rightarrow> rat" where
  "wall_limit time_limit_s = 2 * time_limit_s + 1"

text \<open>\<^verbatim>\<open>timedelta(seconds=x)\<close>, in microseconds.\<close>

definition seconds :: "rat \<Rightarrow> timedelta" where
  "seconds x = round_half_even (x * 1000000)"

fun job_group_total :: "rat \<Rightarrow> rat \<Rightarrow> rat \<Rightarrow> job_entry list \<Rightarrow> rat option" where
  "job_group_total compilation_time_limit_s trusted_time_limit_s sum_s [] = Some sum_s"
| "job_group_total compilation_time_limit_s trusted_time_limit_s sum_s (job # jobs) =
     (if je_type job = ''compilation''
      then job_group_total compilation_time_limit_s trusted_time_limit_s
             (sum_s + wall_limit compilation_time_limit_s + JOB_OVERHEAD_S) jobs
      else case je_time_limit job of
        None \<Rightarrow> None
      | Some time_limit \<Rightarrow>
          job_group_total compilation_time_limit_s trusted_time_limit_s
            (sum_s + (2 * wall_limit time_limit + wall_limit trusted_time_limit_s) + JOB_OVERHEAD_S) jobs)"

definition job_group_timeout :: "job_entry list \<Rightarrow> rat \<Rightarrow> rat \<Rightarrow> timedelta \<Rightarrow> timedelta" where
  "job_group_timeout jobs compilation_time_limit_s trusted_time_limit_s minimum =
     (case job_group_total compilation_time_limit_s trusted_time_limit_s 0 jobs of
        None \<Rightarrow> minimum
      | Some sum_s \<Rightarrow> max minimum (seconds sum_s))"


subsection \<open>The pool\<close>

datatype worker_ops = WORKER_INACTIVE | WORKER_DISABLED | Busy "es_operation list"

definition WORKER_TIMEOUT :: timedelta where "WORKER_TIMEOUT = 600000000"
definition ANSWER_HANDLING_TIMEOUT :: timedelta where "ANSWER_HANDLING_TIMEOUT = 1800000000"

record worker =
  w_connected :: bool
  w_operations :: worker_ops
  w_operations_to_ignore :: "es_operation list"
  w_start_time :: "datetime option"
  w_current_dispatch :: "nat option"
  w_answered_at :: "datetime option"
  w_dispatched_at :: "datetime option"
  w_timeout :: timedelta
  w_schedule_disabling :: bool
  w_ignore :: bool
  w_disabled_by_timeout :: bool
  w_disabled_at :: "datetime option"

datatype spawned =
    BuildAndDispatch nat "es_operation list" nat
  | PrecacheFiles nat
  | Quit nat

record worker_pool =
  wp_workers :: "(nat, worker) dict"
  wp_last_dispatch_id :: nat
  wp_operations_reverse :: "(es_operation, nat) dict"
  wp_workers_available :: bool
  wp_spawned :: "spawned list"

definition pool_init :: worker_pool where
  "pool_init = \<lparr>wp_workers = [], wp_last_dispatch_id = 0, wp_operations_reverse = [], wp_workers_available = False,
     wp_spawned = []\<rparr>"

definition pool_contains :: "worker_pool \<Rightarrow> es_operation \<Rightarrow> bool" where
  "pool_contains p operation \<longleftrightarrow> dict_get (wp_operations_reverse p) operation \<noteq> None"

definition set_worker :: "nat \<Rightarrow> worker \<Rightarrow> worker_pool \<Rightarrow> worker_pool" where
  "set_worker shard w p = p\<lparr>wp_workers := dict_set shard w (wp_workers p)\<rparr>"

text \<open>The entry of an operation that was later given to another worker is that worker's.\<close>

definition forget_operations :: "nat \<Rightarrow> es_operation list \<Rightarrow> (es_operation, nat) dict \<Rightarrow> (es_operation, nat) dict" where
  "forget_operations shard operations reverse =
     foldl (\<lambda>reverse operation. if dict_get reverse operation = Some shard then dict_del operation reverse else reverse)
       reverse operations"

definition remove_operations :: "nat \<Rightarrow> worker_ops \<Rightarrow> worker_pool \<Rightarrow> worker_pool res" where
  "remove_operations shard new_operation p =
     res_bind (lookup (wp_workers p) shard) (\<lambda>w.
       let p' = set_worker shard (w\<lparr>w_operations := new_operation\<rparr>) p in
       Inr (case w_operations w of
              Busy operations \<Rightarrow>
                p'\<lparr>wp_operations_reverse := forget_operations shard operations (wp_operations_reverse p')\<rparr>
            | _ \<Rightarrow> p'))"

definition add_operations :: "nat \<Rightarrow> es_operation list \<Rightarrow> worker_pool \<Rightarrow> worker_pool res" where
  "add_operations shard operations p =
     res_bind (lookup (wp_workers p) shard) (\<lambda>w.
       if w_operations w \<noteq> WORKER_INACTIVE then Inl ValueError
       else let p' = set_worker shard (w\<lparr>w_operations := Busy operations\<rparr>) p
            in Inr (p'\<lparr>wp_operations_reverse :=
                 foldl (\<lambda>reverse operation. dict_set operation shard reverse) (wp_operations_reverse p') operations\<rparr>))"

text \<open>\<^verbatim>\<open>add_worker\<close>; \<open>up\<close> tells whether the new connection is up.\<close>

definition add_worker :: "nat \<Rightarrow> bool \<Rightarrow> worker_pool \<Rightarrow> worker_pool" where
  "add_worker shard up p =
     (set_worker shard \<lparr>w_connected = up, w_operations = WORKER_INACTIVE, w_operations_to_ignore = [],
        w_start_time = None, w_current_dispatch = None, w_answered_at = None, w_dispatched_at = None,
        w_timeout = WORKER_TIMEOUT, w_schedule_disabling = False, w_ignore = False,
        w_disabled_by_timeout = False, w_disabled_at = None\<rparr> p)\<lparr>wp_workers_available := True\<rparr>"

definition enable_worker :: "nat \<Rightarrow> worker_pool \<Rightarrow> worker_pool res" where
  "enable_worker shard p =
     res_bind (lookup (wp_workers p) shard) (\<lambda>w.
       if w_operations w \<noteq> WORKER_DISABLED then Inl ValueError
       else Inr ((set_worker shard (w\<lparr>w_operations := WORKER_INACTIVE, w_operations_to_ignore := [],
              w_disabled_by_timeout := False, w_disabled_at := None\<rparr>) p)\<lparr>wp_workers_available := True\<rparr>))"

text \<open>The connection comes up and \<^verbatim>\<open>on_worker_connected\<close> runs; \<open>contest_id\<close> is the service's.\<close>

definition on_worker_connected :: "nat option \<Rightarrow> nat \<Rightarrow> worker_pool \<Rightarrow> worker_pool res" where
  "on_worker_connected contest_id shard p =
     res_bind (lookup (wp_workers p) shard) (\<lambda>w.
     let p1 = set_worker shard (w\<lparr>w_connected := True\<rparr>) p in
     res_bind (if w_operations w = WORKER_DISABLED \<and> w_disabled_by_timeout w then enable_worker shard p1 else Inr p1) (\<lambda>p2.
       Inr (p2\<lparr>wp_spawned := (if contest_id \<noteq> None then wp_spawned p2 @ [PrecacheFiles shard] else wp_spawned p2),
              wp_workers_available := True\<rparr>)))"

definition on_worker_disconnected :: "nat \<Rightarrow> worker_pool \<Rightarrow> worker_pool res" where
  "on_worker_disconnected shard p =
     res_bind (lookup (wp_workers p) shard) (\<lambda>w. Inr (set_worker shard (w\<lparr>w_connected := False\<rparr>) p))"

text \<open>
  \<^verbatim>\<open>find_worker\<close>. Without \<^verbatim>\<open>random_worker\<close> it returns the first worker found; with it, any one of
  the pool, here the one at the position that \<open>draw\<close> gives.
\<close>

definition find_worker :: "worker_ops \<Rightarrow> bool \<Rightarrow> bool \<Rightarrow> nat \<Rightarrow> worker_pool \<Rightarrow> nat res" where
  "find_worker operation require_connection random_worker draw p =
     (let pool = map fst (filter (\<lambda>(shard, w). w_operations w = operation \<and> (\<not> require_connection \<or> w_connected w))
                   (wp_workers p))
      in if pool = [] then Inl LookupError
         else Inr (if random_worker then pool ! (draw mod length pool) else hd pool))"

definition acquire_worker :: "es_operation list \<Rightarrow> nat \<Rightarrow> datetime \<Rightarrow> worker_pool \<Rightarrow> (worker_pool \<times> nat option) res" where
  "acquire_worker operations draw now p =
     (case find_worker WORKER_INACTIVE True True draw p of
        Inl _ \<Rightarrow> Inr (p\<lparr>wp_workers_available := False\<rparr>, None)
      | Inr shard \<Rightarrow>
          res_bind (add_operations shard operations p) (\<lambda>p1.
          res_bind (lookup (wp_workers p1) shard) (\<lambda>w.
            let dispatch_id = wp_last_dispatch_id p1 + 1;
                p2 = set_worker shard (w\<lparr>w_start_time := Some now, w_answered_at := None, w_dispatched_at := None,
                       w_timeout := WORKER_TIMEOUT, w_current_dispatch := Some dispatch_id\<rparr>) p1
            in Inr (p2\<lparr>wp_last_dispatch_id := dispatch_id,
                       wp_spawned := wp_spawned p2 @ [BuildAndDispatch shard operations dispatch_id]\<rparr>, Some shard))))"

text \<open>\<^verbatim>\<open>_current_dispatch.get(shard)\<close>, null for an unknown shard.\<close>

definition current_dispatch :: "worker_pool \<Rightarrow> nat \<Rightarrow> nat option" where
  "current_dispatch p shard = (case dict_get (wp_workers p) shard of None \<Rightarrow> None | Some w \<Rightarrow> w_current_dispatch w)"

definition mark_answered :: "nat \<Rightarrow> nat option \<Rightarrow> datetime \<Rightarrow> worker_pool \<Rightarrow> worker_pool" where
  "mark_answered shard dispatch_id now p =
     (case (dispatch_id, dict_get (wp_workers p) shard) of
        (Some i, Some w) \<Rightarrow>
          if w_current_dispatch w = Some i then set_worker shard (w\<lparr>w_answered_at := Some now\<rparr>) p else p
      | _ \<Rightarrow> p)"

definition set_timeout :: "nat \<Rightarrow> nat option \<Rightarrow> job_entry list \<Rightarrow> rat \<Rightarrow> rat \<Rightarrow> datetime \<Rightarrow> worker_pool \<Rightarrow> worker_pool" where
  "set_timeout shard dispatch_id jobs compilation_limit trusted_limit now p =
     (case (dispatch_id, dict_get (wp_workers p) shard) of
        (Some i, Some w) \<Rightarrow>
          if w_current_dispatch w = Some i
          then set_worker shard (w\<lparr>w_timeout := job_group_timeout jobs compilation_limit trusted_limit WORKER_TIMEOUT,
                 w_dispatched_at := Some now\<rparr>) p
          else p
      | _ \<Rightarrow> p)"

text \<open>What \<^verbatim>\<open>release_worker\<close> returns: whether to ignore the result, or the operations whose results to ignore.\<close>

datatype release_result = IgnoreResult bool | IgnoreOperations "es_operation list"

definition release_worker :: "nat \<Rightarrow> nat option \<Rightarrow> worker_pool \<Rightarrow> (worker_pool \<times> release_result) res" where
  "release_worker shard dispatch_id p =
     (if dispatch_id \<noteq> None \<and> dispatch_id \<noteq> current_dispatch p shard then Inr (p, IgnoreResult True)
      else res_bind (lookup (wp_workers p) shard) (\<lambda>w.
        if w_operations w = WORKER_INACTIVE then Inl ValueError
        else if w_operations w = WORKER_DISABLED then Inr (p, IgnoreResult True)
        else
          let ret = w_ignore w; to_ignore = w_operations_to_ignore w;
              p1 = set_worker shard (w\<lparr>w_operations_to_ignore := [], w_start_time := None, w_current_dispatch := None,
                     w_answered_at := None, w_dispatched_at := None, w_ignore := False\<rparr>) p
          in res_bind
               (if w_schedule_disabling w
                then res_bind (remove_operations shard WORKER_DISABLED p1) (\<lambda>p2.
                     res_bind (lookup (wp_workers p2) shard) (\<lambda>w2.
                       Inr (set_worker shard (w2\<lparr>w_schedule_disabling := False\<rparr>) p2)))
                else res_bind (remove_operations shard WORKER_INACTIVE p1) (\<lambda>p2.
                       Inr (p2\<lparr>wp_workers_available := True\<rparr>)))
               (\<lambda>p3. Inr (p3, if \<not> ret \<and> to_ignore \<noteq> [] then IgnoreOperations to_ignore else IgnoreResult ret))))"

definition ignore_operation :: "es_operation \<Rightarrow> worker_pool \<Rightarrow> worker_pool res" where
  "ignore_operation operation p =
     res_bind (lookup (wp_operations_reverse p) operation) (\<lambda>shard.
     res_bind (lookup (wp_workers p) shard) (\<lambda>w.
       Inr (set_worker shard (w\<lparr>w_operations_to_ignore := w_operations_to_ignore w @ [operation]\<rparr>) p)))"

text \<open>How long the worker has been silent, and how long it may be.\<close>

definition silent_for :: "datetime \<Rightarrow> worker \<Rightarrow> timedelta" where
  "silent_for now w =
     (case w_answered_at w of
        Some t \<Rightarrow> now - t
      | None \<Rightarrow> (case w_dispatched_at w of Some t \<Rightarrow> now - t | None \<Rightarrow> now - the (w_start_time w)))"

definition allowed_silence :: "worker \<Rightarrow> timedelta" where
  "allowed_silence w =
     (if w_answered_at w \<noteq> None \<or> w_dispatched_at w = None then ANSWER_HANDLING_TIMEOUT else w_timeout w)"

definition lost_of :: "worker \<Rightarrow> es_operation list" where
  "lost_of w =
     (if w_ignore w then []
      else case w_operations w of
        Busy operations \<Rightarrow> filter (\<lambda>operation. operation \<notin> set (w_operations_to_ignore w)) operations
      | _ \<Rightarrow> [])"

definition check_timeout_step ::
  "datetime \<Rightarrow> worker_pool \<times> es_operation list \<Rightarrow> nat \<Rightarrow> (worker_pool \<times> es_operation list) res" where
  "check_timeout_step now state shard =
     (case state of (p, lost_operations) \<Rightarrow>
        res_bind (lookup (wp_workers p) shard) (\<lambda>w.
          if w_start_time w = None then Inr (p, lost_operations)
          else if silent_for now w \<le> allowed_silence w then Inr (p, lost_operations)
          else if w_operations w = WORKER_INACTIVE \<or> w_operations w = WORKER_DISABLED then Inl AssertionError
          else
            let p1 = set_worker shard (w\<lparr>w_schedule_disabling := True, w_ignore := True, w_disabled_by_timeout := True,
                       w_disabled_at := Some now\<rparr>) p
            in res_bind (release_worker shard None p1) (\<lambda>(p2, _).
                 Inr (p2\<lparr>wp_spawned := wp_spawned p2 @ [Quit shard]\<rparr>, lost_operations @ lost_of w))))"

definition check_timeouts :: "datetime \<Rightarrow> worker_pool \<Rightarrow> (worker_pool \<times> es_operation list) res" where
  "check_timeouts now p = res_fold (check_timeout_step now) (p, []) (dict_keys (wp_workers p))"

text \<open>
  \<^verbatim>\<open>disable_worker\<close>. It clears the marks of a timeout before it looks at the state of the worker,
  also when it then raises; the second component is the exception or the lost operations.
\<close>

definition disable_worker :: "nat \<Rightarrow> worker_pool \<Rightarrow> worker_pool \<times> es_operation list res" where
  "disable_worker shard p =
     (case dict_get (wp_workers p) shard of
        None \<Rightarrow> (p, Inl KeyError)
      | Some w0 \<Rightarrow>
          let w = w0\<lparr>w_disabled_by_timeout := False, w_disabled_at := None\<rparr>; p1 = set_worker shard w p in
          case w_operations w of
            WORKER_DISABLED \<Rightarrow> (p1, Inl ValueError)
          | WORKER_INACTIVE \<Rightarrow> (set_worker shard (w\<lparr>w_operations := WORKER_DISABLED\<rparr>) p1, Inr [])
          | Busy _ \<Rightarrow>
              case release_worker shard None
                  (set_worker shard (w\<lparr>w_schedule_disabling := True, w_operations_to_ignore := [], w_ignore := True\<rparr>) p1) of
                Inl e \<Rightarrow> (p1, Inl e)
              | Inr (p2, _) \<Rightarrow> (p2, Inr (lost_of w)))"

definition check_connection_step ::
  "worker_pool \<times> es_operation list \<Rightarrow> nat \<Rightarrow> (worker_pool \<times> es_operation list) res" where
  "check_connection_step state shard =
     (case state of (p, lost_operations) \<Rightarrow>
        res_bind (lookup (wp_workers p) shard) (\<lambda>w.
          case w_operations w of
            Busy operations \<Rightarrow>
              if w_connected w then Inr (p, lost_operations)
              else res_bind (release_worker shard None p) (\<lambda>(p2, _).
                     Inr (p2, lost_operations @ (if w_ignore w then [] else operations)))
          | _ \<Rightarrow> Inr (p, lost_operations)))"

definition check_connections :: "worker_pool \<Rightarrow> (worker_pool \<times> es_operation list) res" where
  "check_connections p = res_fold check_connection_step (p, []) (dict_keys (wp_workers p))"

text \<open>\<^verbatim>\<open>get_status\<close>, one entry for each worker.\<close>

datatype ops_status = StatusOps "(string \<times> json) list list" | StatusInactive | StatusDisabled

record worker_status =
  ws_connected :: bool
  ws_operations :: ops_status
  ws_start_time :: "datetime option"
  ws_disabled_by_timeout :: bool
  ws_disabled_at :: "datetime option"

definition status_of_worker :: "worker \<Rightarrow> worker_status" where
  "status_of_worker w =
     \<lparr>ws_connected = w_connected w,
      ws_operations = (case w_operations w of
          Busy operations \<Rightarrow> StatusOps (map op_to_dict operations)
        | WORKER_INACTIVE \<Rightarrow> StatusInactive
        | WORKER_DISABLED \<Rightarrow> StatusDisabled),
      ws_start_time = w_start_time w,
      ws_disabled_by_timeout = w_disabled_by_timeout w,
      ws_disabled_at = w_disabled_at w\<rparr>"

definition pool_get_status :: "worker_pool \<Rightarrow> (nat, worker_status) dict" where
  "pool_get_status p = map (\<lambda>(shard, w). (shard, status_of_worker w)) (wp_workers p)"



section \<open>The invariant\<close>

text \<open>
  What the lookups of the pool see: the workers and the reverse dictionary as maps.
\<close>

abbreviation worker_at :: "worker_pool \<Rightarrow> nat \<Rightarrow> worker option" where
  "worker_at p \<equiv> map_of (wp_workers p)"

abbreviation shard_of :: "worker_pool \<Rightarrow> es_operation \<Rightarrow> nat option" where
  "shard_of p \<equiv> map_of (wp_operations_reverse p)"

fun ops_of :: "worker_ops \<Rightarrow> es_operation list" where
  "ops_of (Busy operations) = operations"
| "ops_of _ = []"

fun is_busy :: "worker_ops \<Rightarrow> bool" where
  "is_busy (Busy _) = True"
| "is_busy _ = False"

lemma is_busy_iff: "is_busy x \<longleftrightarrow> x \<noteq> WORKER_INACTIVE \<and> x \<noteq> WORKER_DISABLED"
  by (cases x) auto

definition worker_ok :: "nat \<Rightarrow> worker \<Rightarrow> bool" where
  "worker_ok last_id w \<longleftrightarrow>
     \<not> w_ignore w \<and> \<not> w_schedule_disabling w \<and> WORKER_TIMEOUT \<le> w_timeout w \<and>
     set (w_operations_to_ignore w) \<subseteq> set (ops_of (w_operations w)) \<and>
     (is_busy (w_operations w) \<longleftrightarrow> w_start_time w \<noteq> None) \<and>
     (is_busy (w_operations w) \<longleftrightarrow> w_current_dispatch w \<noteq> None) \<and>
     (\<forall>i. w_current_dispatch w = Some i \<longrightarrow> i \<le> last_id) \<and>
     (\<not> is_busy (w_operations w) \<longrightarrow> w_answered_at w = None \<and> w_dispatched_at w = None) \<and>
     (w_disabled_by_timeout w \<longrightarrow> w_operations w = WORKER_DISABLED) \<and>
     (w_disabled_by_timeout w \<longleftrightarrow> w_disabled_at w \<noteq> None)"

definition idle :: "worker \<Rightarrow> bool" where
  "idle w \<longleftrightarrow> w_operations w = WORKER_INACTIVE \<and> w_connected w"

text \<open>A worker works on an operation, and its result will count.\<close>

definition works_on :: "worker \<Rightarrow> es_operation \<Rightarrow> bool" where
  "works_on w op \<longleftrightarrow> op \<in> set (ops_of (w_operations w)) \<and> op \<notin> set (w_operations_to_ignore w)"

definition pool_view_ok :: "(nat \<Rightarrow> worker option) \<Rightarrow> (es_operation \<Rightarrow> nat option) \<Rightarrow> nat \<Rightarrow> bool \<Rightarrow> bool" where
  "pool_view_ok W rmap last_id available \<longleftrightarrow>
     (\<forall>s w. W s = Some w \<longrightarrow> worker_ok last_id w) \<and>
     (\<forall>s s' w w' i. W s = Some w \<longrightarrow> W s' = Some w' \<longrightarrow> w_current_dispatch w = Some i \<longrightarrow>
        w_current_dispatch w' = Some i \<longrightarrow> s = s') \<and>
     (\<forall>op s. rmap op = Some s \<longrightarrow> (\<exists>w. W s = Some w \<and> op \<in> set (ops_of (w_operations w)))) \<and>
     (\<forall>op s w. W s = Some w \<longrightarrow> works_on w op \<longrightarrow> rmap op = Some s) \<and>
     (\<forall>s w. W s = Some w \<longrightarrow> idle w \<longrightarrow> available)"

definition pool_ok :: "worker_pool \<Rightarrow> bool" where
  "pool_ok p \<longleftrightarrow> dict_ok (wp_workers p) \<and> pool_view_ok (worker_at p) (shard_of p) (wp_last_dispatch_id p) (wp_workers_available p)"

lemma worker_ok_Suc: "worker_ok n w \<Longrightarrow> worker_ok (Suc n) w"
  unfolding worker_ok_def by (metis le_SucI)

text \<open>The three kinds of change of one worker.\<close>

lemma pool_view_keep:
  assumes "pool_view_ok W rmap last_id available" "W s = Some w"
    and "w_operations w' = w_operations w" "w_current_dispatch w' = w_current_dispatch w" "worker_ok last_id w'"
    and "set (w_operations_to_ignore w) \<subseteq> set (w_operations_to_ignore w')"
    and "idle w' \<Longrightarrow> available'" "available \<Longrightarrow> available'"
  shows "pool_view_ok (W(s \<mapsto> w')) rmap last_id available'"
proof -
  have "(\<exists>v. (W(s \<mapsto> w')) t = Some v \<and> op \<in> set (ops_of (w_operations v))) \<longleftrightarrow>
      (\<exists>v. W t = Some v \<and> op \<in> set (ops_of (w_operations v)))" for t op
    using assms(2,3) by auto
  moreover have "works_on w op" if "works_on w' op" for op
    using that assms(3,6) by (auto simp: works_on_def)
  moreover have "v = w' \<and> t = s \<or> W t = Some v \<and> t \<noteq> s" if "(W(s \<mapsto> w')) t = Some v" for t v
    using that by (auto split: if_splits)
  ultimately show ?thesis
    using assms unfolding pool_view_ok_def by (auto split: if_splits)
qed

lemma pool_view_assign:
  assumes ok: "pool_view_ok W rmap last_id available" and w: "W s = Some w" "w_operations w = WORKER_INACTIVE"
    and w': "w_operations w' = Busy ops" "w_current_dispatch w' = Some (Suc last_id)" "worker_ok (Suc last_id) w'"
    and new: "\<And>op t v. op \<in> set ops \<Longrightarrow> W t = Some v \<Longrightarrow> \<not> works_on v op"
  shows "pool_view_ok (W(s \<mapsto> w')) (\<lambda>op. if op \<in> set ops then Some s else rmap op) (Suc last_id) available"
proof -
  have old: "worker_ok last_id v" if "W t = Some v" for t v using ok that by (simp add: pool_view_ok_def)
  have "worker_ok (Suc last_id) v" if "(W(s \<mapsto> w')) t = Some v" for t v
    using that w'(3) old worker_ok_Suc by (auto split: if_splits)
  moreover have "t = t'" if "(W(s \<mapsto> w')) t = Some v" "(W(s \<mapsto> w')) t' = Some v'" "w_current_dispatch v = Some i"
      "w_current_dispatch v' = Some i" for t t' v v' i
  proof -
    have "i \<le> last_id" if "W x = Some y" "w_current_dispatch y = Some i" for x y
      using old [OF that(1)] that(2) by (simp add: worker_ok_def)
    then show ?thesis using that w'(2) ok unfolding pool_view_ok_def
      by (auto split: if_splits)
  qed
  moreover have "\<exists>v. (W(s \<mapsto> w')) t = Some v \<and> op \<in> set (ops_of (w_operations v))"
    if "(if op \<in> set ops then Some s else rmap op) = Some t" for op t
  proof -
    have held: "rmap op = Some t \<Longrightarrow> \<exists>v. W t = Some v \<and> op \<in> set (ops_of (w_operations v))" for t
      using ok by (simp add: pool_view_ok_def)
    then have "rmap op \<noteq> Some s" using w by auto
    then show ?thesis using that held w'(1) by (auto split: if_splits)
  qed
  moreover have "(if op \<in> set ops then Some s else rmap op) = Some t"
    if "(W(s \<mapsto> w')) t = Some v" "works_on v op" for op t v
  proof (cases "t = s")
    case True
    then show ?thesis using that w'(1) by (simp add: works_on_def)
  next
    case False
    then have "W t = Some v" using that(1) by simp
    moreover from this have "op \<notin> set ops" "rmap op = Some t" using new that(2) ok by (auto simp: pool_view_ok_def)
    ultimately show ?thesis by simp
  qed
  moreover have "available" if "(W(s \<mapsto> w')) t = Some v" "idle v" for t v
    using that w'(1) ok by (auto simp: pool_view_ok_def idle_def split: if_splits)
  ultimately show ?thesis unfolding pool_view_ok_def by blast
qed

lemma pool_view_free:
  assumes ok: "pool_view_ok W rmap last_id available" and w: "W s = Some w"
    and w': "\<not> is_busy (w_operations w')" "worker_ok last_id w'"
    and "idle w' \<Longrightarrow> available'" "available \<Longrightarrow> available'"
  shows "pool_view_ok (W(s \<mapsto> w')) (\<lambda>op. if rmap op = Some s then None else rmap op) last_id available'"
proof -
  have empty: "ops_of (w_operations w') = []" "w_current_dispatch w' = None"
    using w' by (cases "w_operations w'"; simp add: worker_ok_def)+
  have "\<exists>v. (W(s \<mapsto> w')) t = Some v \<and> op \<in> set (ops_of (w_operations v))"
    if "(if rmap op = Some s then None else rmap op) = Some t" for op t
    using that ok by (auto simp: pool_view_ok_def split: if_splits)
  moreover have "(if rmap op = Some s then None else rmap op) = Some t"
    if "(W(s \<mapsto> w')) t = Some v" "works_on v op" for op t v
    using that ok empty(1) by (auto simp: pool_view_ok_def works_on_def split: if_splits)
  moreover have "worker_ok last_id v" if "(W(s \<mapsto> w')) t = Some v" for t v
    using that w'(2) ok by (auto simp: pool_view_ok_def split: if_splits)
  moreover have "t = t'" if "(W(s \<mapsto> w')) t = Some v" "(W(s \<mapsto> w')) t' = Some v'" "w_current_dispatch v = Some i"
      "w_current_dispatch v' = Some i" for t t' v v' i
    using that empty(2) ok unfolding pool_view_ok_def by (auto split: if_splits)
  moreover have "available'" if "(W(s \<mapsto> w')) t = Some v" "idle v" for t v
    using that assms(5,6) ok by (auto simp: pool_view_ok_def split: if_splits)
  ultimately show ?thesis unfolding pool_view_ok_def by blast
qed



section \<open>The operations keep the invariant\<close>

lemma set_worker_frame [simp]:
  "map_of (wp_workers (set_worker s w p)) = (worker_at p)(s \<mapsto> w)"
  "wp_operations_reverse (set_worker s w p) = wp_operations_reverse p"
  "wp_last_dispatch_id (set_worker s w p) = wp_last_dispatch_id p"
  "wp_workers_available (set_worker s w p) = wp_workers_available p"
  "wp_spawned (set_worker s w p) = wp_spawned p"
  by (simp_all add: set_worker_def update_conv')

lemma set_worker_keys: "worker_at p s = Some w \<Longrightarrow> dict_keys (wp_workers (set_worker s w' p)) = dict_keys (wp_workers p)"
  by (simp add: set_worker_def update_keys) (metis map_of_SomeD fst_conv image_eqI)

lemma set_worker_same: "worker_at p s = Some w \<Longrightarrow> set_worker s w p = p"
  by (simp add: set_worker_def update_triv)

lemma set_worker_twice: "set_worker s w' (set_worker s w p) = set_worker s w' p"
proof -
  have "dict_set s w' (dict_set s w al) = dict_set s w' al" for al :: "(nat, worker) dict"
    by (induction al) auto
  then show ?thesis by (simp add: set_worker_def)
qed

lemma dict_ok_set_worker [simp]: "dict_ok (wp_workers p) \<Longrightarrow> dict_ok (wp_workers (set_worker s w p))"
  by (simp add: set_worker_def)

lemma forget_operations_get:
  "map_of (forget_operations s ops r) = (\<lambda>op. if op \<in> set ops \<and> map_of r op = Some s then None else map_of r op)"
proof (induction ops rule: rev_induct)
  case (snoc op ops)
  then show ?case by (auto simp: forget_operations_def fun_eq_iff delete_conv)
qed (simp add: forget_operations_def)

lemma assign_get:
  "map_of (foldl (\<lambda>r op. dict_set op s r) r ops) = (\<lambda>op. if op \<in> set ops then Some s else map_of r op)"
  by (induction ops rule: rev_induct) (auto simp: update_conv')

text \<open>The worker after it is released.\<close>

definition released :: "worker \<Rightarrow> worker" where
  "released w = w\<lparr>w_operations := (if w_schedule_disabling w then WORKER_DISABLED else WORKER_INACTIVE),
     w_operations_to_ignore := [], w_start_time := None, w_current_dispatch := None, w_answered_at := None,
     w_dispatched_at := None, w_schedule_disabling := False, w_ignore := False\<rparr>"

definition release_answer :: "worker \<Rightarrow> release_result" where
  "release_answer w = (if \<not> w_ignore w \<and> w_operations_to_ignore w \<noteq> [] then IgnoreOperations (w_operations_to_ignore w)
     else IgnoreResult (w_ignore w))"

lemma released_eq:
  "w_schedule_disabling w \<Longrightarrow> w\<lparr>w_operations_to_ignore := [], w_start_time := None, w_current_dispatch := None,
     w_answered_at := None, w_dispatched_at := None, w_ignore := False, w_operations := WORKER_DISABLED,
     w_schedule_disabling := False\<rparr> = released w"
  "\<not> w_schedule_disabling w \<Longrightarrow> w\<lparr>w_operations_to_ignore := [], w_start_time := None, w_current_dispatch := None,
     w_answered_at := None, w_dispatched_at := None, w_ignore := False, w_operations := WORKER_INACTIVE\<rparr> = released w"
  by (cases w; simp add: released_def)+

lemma release_busy:
  assumes w: "worker_at p s = Some w" "w_operations w = Busy ops" and d: "d = None \<or> d = w_current_dispatch w"
  shows "\<exists>p'. release_worker s d p = Inr (p', release_answer w) \<and> map_of (wp_workers p') = (worker_at p)(s \<mapsto> released w) \<and>
    map_of (wp_operations_reverse p') = (\<lambda>op. if op \<in> set ops \<and> shard_of p op = Some s then None else shard_of p op) \<and>
    wp_last_dispatch_id p' = wp_last_dispatch_id p \<and> wp_spawned p' = wp_spawned p \<and>
    wp_workers_available p' = (wp_workers_available p \<or> \<not> w_schedule_disabling w) \<and>
    dict_keys (wp_workers p') = dict_keys (wp_workers p)"
proof -
  have now: "\<not> (d \<noteq> None \<and> d \<noteq> current_dispatch p s)" using w(1) d by (auto simp: current_dispatch_def)
  show ?thesis
    unfolding release_worker_def if_not_P [OF now] using w
    by (cases "w_schedule_disabling w") (simp_all add: lookup_def remove_operations_def Let_def forget_operations_get
        set_worker_keys released_eq release_answer_def)
qed


lemma pool_okD:
  assumes "pool_ok p" "worker_at p s = Some w"
  shows "worker_ok (wp_last_dispatch_id p) w"
    "works_on w op \<Longrightarrow> shard_of p op = Some s"
    "idle w \<Longrightarrow> wp_workers_available p"
  using assms unfolding pool_ok_def pool_view_ok_def by blast+

lemma pool_ok_shard:
  assumes "pool_ok p" "shard_of p op = Some s"
  obtains w where "worker_at p s = Some w" "op \<in> set (ops_of (w_operations w))"
  using assms unfolding pool_ok_def pool_view_ok_def by blast

text \<open>A change that keeps the operations of the worker.\<close>

lemma set_worker_keep_ok:
  assumes "pool_ok p" "worker_at p s = Some w" "w_operations w' = w_operations w"
    "w_current_dispatch w' = w_current_dispatch w" "worker_ok (wp_last_dispatch_id p) w'"
    "set (w_operations_to_ignore w) \<subseteq> set (w_operations_to_ignore w')"
    and "idle w' \<Longrightarrow> a" "wp_workers_available p \<Longrightarrow> a"
  shows "pool_ok ((set_worker s w' p)\<lparr>wp_workers_available := a\<rparr>)"
proof -
  have "pool_view_ok ((worker_at p)(s \<mapsto> w')) (shard_of p) (wp_last_dispatch_id p) a"
    using pool_view_keep [of "worker_at p" "shard_of p" "wp_last_dispatch_id p" "wp_workers_available p" s w w' a] assms
    by (simp add: pool_ok_def)
  then show ?thesis using assms(1) by (simp add: pool_ok_def)
qed



text \<open>The release of a busy worker whose marks were set just before.\<close>

lemma release_ok:
  assumes p: "pool_ok p" "worker_at p s = Some w" and w1: "w_operations w = Busy ops" "w_operations w1 = Busy ops"
    and ok: "w_timeout w1 = w_timeout w" "w_disabled_by_timeout w1 \<Longrightarrow> w_schedule_disabling w1"
      "w_disabled_by_timeout w1 \<longleftrightarrow> w_disabled_at w1 \<noteq> None"
    and d: "d = None \<or> d = w_current_dispatch w1"
  shows "\<exists>p'. release_worker s d (set_worker s w1 p) = Inr (p', release_answer w1) \<and> pool_ok p' \<and>
    worker_at p' = (worker_at p)(s \<mapsto> released w1) \<and>
    shard_of p' = (\<lambda>op. if shard_of p op = Some s then None else shard_of p op) \<and>
    wp_last_dispatch_id p' = wp_last_dispatch_id p \<and> dict_keys (wp_workers p') = dict_keys (wp_workers p)"
proof -
  have mine: "op \<in> set ops" if "shard_of p op = Some s" for op
    using pool_ok_shard [OF p(1) that] p(2) w1(1) by (metis option.inject ops_of.simps(1))
  have w1': "worker_at (set_worker s w1 p) s = Some w1" by simp
  have rev: "(\<lambda>op. if op \<in> set ops \<and> shard_of p op = Some s then None else shard_of p op) =
      (\<lambda>op. if shard_of p op = Some s then None else shard_of p op)"
    using mine by (auto simp: fun_eq_iff)
  obtain p' where p': "release_worker s d (set_worker s w1 p) = Inr (p', release_answer w1)"
    "worker_at p' = (worker_at p)(s \<mapsto> released w1)"
    "shard_of p' = (\<lambda>op. if shard_of p op = Some s then None else shard_of p op)"
    "wp_last_dispatch_id p' = wp_last_dispatch_id p"
    "wp_workers_available p' = (wp_workers_available p \<or> \<not> w_schedule_disabling w1)"
    "dict_keys (wp_workers p') = dict_keys (wp_workers p)"
    using release_busy [OF w1' w1(2) d] unfolding set_worker_frame set_worker_keys [OF p(2)] rev fun_upd_upd by blast
  have okr: "worker_ok (wp_last_dispatch_id p) (released w1)"
    using pool_okD(1) [OF p] ok by (auto simp: worker_ok_def released_def)
  have "pool_view_ok ((worker_at p)(s \<mapsto> released w1)) (\<lambda>op. if shard_of p op = Some s then None else shard_of p op)
      (wp_last_dispatch_id p) (wp_workers_available p')"
  proof (rule pool_view_free [where W = "worker_at p" and s = s])
    show "pool_view_ok (worker_at p) (shard_of p) (wp_last_dispatch_id p) (wp_workers_available p)"
      using p(1) by (simp add: pool_ok_def)
    show "\<not> is_busy (w_operations (released w1))" by (simp add: released_def)
    show "idle (released w1) \<Longrightarrow> wp_workers_available p'" by (auto simp: p'(5) idle_def released_def split: if_splits)
  qed (use okr p'(5) p(2) in simp_all)
  then have "pool_ok p'" using p(1) p' by (simp add: pool_ok_def)
  then show ?thesis using p' by blast
qed

text \<open>A periodic check looks at each worker in turn and may release it.\<close>

locale worker_sweep =
  fixes visit :: "worker_pool \<times> es_operation list \<Rightarrow> nat \<Rightarrow> (worker_pool \<times> es_operation list) res"
    and after :: "worker \<Rightarrow> worker"
    and gone :: "worker \<Rightarrow> es_operation list"
    and frees :: "worker \<Rightarrow> bool"
  assumes visit_worker: "pool_ok p \<Longrightarrow> worker_at p s = Some w \<Longrightarrow>
    \<exists>p'. visit (p, lost) s = Inr (p', lost @ gone w) \<and> pool_ok p' \<and> worker_at p' = (worker_at p)(s \<mapsto> after w) \<and>
      shard_of p' = (\<lambda>op. if frees w \<and> shard_of p op = Some s then None else shard_of p op) \<and>
      wp_last_dispatch_id p' = wp_last_dispatch_id p \<and> dict_keys (wp_workers p') = dict_keys (wp_workers p)"
begin

lemma sweep_from:
  assumes "pool_ok p" "distinct ss" "set ss \<subseteq> set (dict_keys (wp_workers p))"
  shows "\<exists>p'. res_fold visit (p, lost) ss = Inr (p', lost @ concat (map (\<lambda>s. gone (the (worker_at p s))) ss)) \<and> pool_ok p' \<and>
    worker_at p' = (\<lambda>s. if s \<in> set ss then map_option after (worker_at p s) else worker_at p s) \<and>
    (\<forall>op. shard_of p' op = (case shard_of p op of
       Some s \<Rightarrow> if s \<in> set ss \<and> frees (the (worker_at p s)) then None else Some s | None \<Rightarrow> None)) \<and>
    wp_last_dispatch_id p' = wp_last_dispatch_id p \<and> dict_keys (wp_workers p') = dict_keys (wp_workers p)"
  using assms
proof (induction ss arbitrary: p lost)
  case (Cons s ss)
  have "worker_at p s \<noteq> None" using Cons.prems(3) by (simp add: map_of_eq_None_iff)
  then obtain w where w: "worker_at p s = Some w" by blast
  obtain p1 where p1: "visit (p, lost) s = Inr (p1, lost @ gone w)" "pool_ok p1" "worker_at p1 = (worker_at p)(s \<mapsto> after w)"
    "wp_last_dispatch_id p1 = wp_last_dispatch_id p" "dict_keys (wp_workers p1) = dict_keys (wp_workers p)"
    and rev1: "shard_of p1 = (\<lambda>op. if frees w \<and> shard_of p op = Some s then None else shard_of p op)"
    using visit_worker [OF Cons.prems(1) w] by blast
  have same: "map (\<lambda>s. gone (the (worker_at p1 s))) ss = map (\<lambda>s. gone (the (worker_at p s))) ss"
    using Cons.prems(2) by (auto simp: p1(3))
  obtain p' where "res_fold visit (p1, lost @ gone w) ss =
      Inr (p', (lost @ gone w) @ concat (map (\<lambda>s. gone (the (worker_at p1 s))) ss))" "pool_ok p'"
    "worker_at p' = (\<lambda>s. if s \<in> set ss then map_option after (worker_at p1 s) else worker_at p1 s)"
    "wp_last_dispatch_id p' = wp_last_dispatch_id p1" "dict_keys (wp_workers p') = dict_keys (wp_workers p1)"
    and rev': "\<And>op. shard_of p' op = (case shard_of p1 op of
       Some s \<Rightarrow> if s \<in> set ss \<and> frees (the (worker_at p1 s)) then None else Some s | None \<Rightarrow> None)"
    using Cons.IH [OF p1(2), of "lost @ gone w"] Cons.prems(2,3) p1(5) by auto
  moreover have "shard_of p' op = (case shard_of p op of
       Some t \<Rightarrow> if t \<in> set (s # ss) \<and> frees (the (worker_at p t)) then None else Some t | None \<Rightarrow> None)" for op
    using w Cons.prems(2) by (cases "shard_of p op") (auto simp: rev' rev1 p1(3))
  ultimately show ?case using p1 w Cons.prems(2) unfolding same by (auto simp: fun_eq_iff)
qed (simp split: option.split)

lemma sweep:
  assumes "pool_ok p"
  shows "\<exists>p'. res_fold visit (p, []) (dict_keys (wp_workers p)) =
      Inr (p', concat (map (\<lambda>(s, w). gone w) (wp_workers p))) \<and> pool_ok p' \<and>
    worker_at p' = map_option after \<circ> worker_at p \<and>
    (\<forall>op. pool_contains p' op \<longleftrightarrow> (\<exists>s w. shard_of p op = Some s \<and> worker_at p s = Some w \<and> \<not> frees w)) \<and>
    wp_last_dispatch_id p' = wp_last_dispatch_id p \<and> dict_keys (wp_workers p') = dict_keys (wp_workers p)"
proof -
  have d: "dict_ok (wp_workers p)" using assms by (simp add: pool_ok_def)
  have a: "map (\<lambda>s. gone (the (worker_at p s))) (dict_keys (wp_workers p)) = map (\<lambda>(s, w). gone w) (wp_workers p)"
    using d by (auto simp: comp_def)
  have b: "(\<lambda>s. if s \<in> set (dict_keys (wp_workers p)) then map_option after (worker_at p s) else worker_at p s) =
      map_option after \<circ> worker_at p"
    by (auto simp: fun_eq_iff map_of_eq_None_iff [symmetric])
  have c: "(case shard_of p op of
       Some s \<Rightarrow> if s \<in> set (dict_keys (wp_workers p)) \<and> frees (the (worker_at p s)) then None else Some s | None \<Rightarrow> None) \<noteq> None \<longleftrightarrow>
      (\<exists>s w. shard_of p op = Some s \<and> worker_at p s = Some w \<and> \<not> frees w)" for op
  proof (cases "shard_of p op")
    case (Some s)
    obtain w where "worker_at p s = Some w" by (rule pool_ok_shard [OF assms Some])
    then show ?thesis using Some by (simp add: dict_keys_get del: set_map)
  qed simp
  obtain p' where p': "res_fold visit (p, []) (dict_keys (wp_workers p)) = Inr (p', concat (map (\<lambda>(s, w). gone w) (wp_workers p)))"
    "pool_ok p'" "worker_at p' = map_option after \<circ> worker_at p"
    "wp_last_dispatch_id p' = wp_last_dispatch_id p" "dict_keys (wp_workers p') = dict_keys (wp_workers p)"
    and rev: "\<And>op. shard_of p' op = (case shard_of p op of
       Some s \<Rightarrow> if s \<in> set (dict_keys (wp_workers p)) \<and> frees (the (worker_at p s)) then None else Some s | None \<Rightarrow> None)"
    using sweep_from [OF assms d order_refl, of "[]"] unfolding append_Nil a b by blast
  have "pool_contains p' op \<longleftrightarrow> (\<exists>s w. shard_of p op = Some s \<and> worker_at p s = Some w \<and> \<not> frees w)" for op
    unfolding pool_contains_def rev using c .
  then show ?thesis using p' by blast
qed

end

text \<open>The two checks are such sweeps.\<close>

definition expired :: "datetime \<Rightarrow> worker \<Rightarrow> bool" where
  "expired now w \<longleftrightarrow> w_start_time w \<noteq> None \<and> allowed_silence w < silent_for now w"

definition timed_out :: "datetime \<Rightarrow> worker \<Rightarrow> worker" where
  "timed_out now w = released (w\<lparr>w_schedule_disabling := True, w_ignore := True, w_disabled_by_timeout := True,
     w_disabled_at := Some now\<rparr>)"


lemma expired_busy:
  assumes "worker_ok n w" "expired now w"
  obtains ops where "w_operations w = Busy ops"
  using assms by (cases "w_operations w") (auto simp: worker_ok_def expired_def)

interpretation timeouts: worker_sweep "check_timeout_step now" "\<lambda>w. if expired now w then timed_out now w else w"
  "\<lambda>w. if expired now w then lost_of w else []" "expired now" for now
proof
  fix p s w lost
  assume p: "pool_ok p" "worker_at p s = Some w"
  show "\<exists>p'. check_timeout_step now (p, lost) s = Inr (p', lost @ (if expired now w then lost_of w else [])) \<and> pool_ok p' \<and>
      worker_at p' = (worker_at p)(s \<mapsto> (if expired now w then timed_out now w else w)) \<and>
      shard_of p' = (\<lambda>op. if expired now w \<and> shard_of p op = Some s then None else shard_of p op) \<and>
      wp_last_dispatch_id p' = wp_last_dispatch_id p \<and> dict_keys (wp_workers p') = dict_keys (wp_workers p)"
  proof (cases "expired now w")
    case False
    then have "check_timeout_step now (p, lost) s = Inr (p, lost)"
      using p(2) by (auto simp: check_timeout_step_def lookup_def expired_def)
    then show ?thesis using False p by (simp add: fun_upd_idem)
  next
    case True
    obtain ops where ops: "w_operations w = Busy ops" by (rule expired_busy [OF pool_okD(1) [OF p] True])
    let ?w1 = "w\<lparr>w_schedule_disabling := True, w_ignore := True, w_disabled_by_timeout := True, w_disabled_at := Some now\<rparr>"
    obtain p' where p': "release_worker s None (set_worker s ?w1 p) = Inr (p', release_answer ?w1)" "pool_ok p'"
      "worker_at p' = (worker_at p)(s \<mapsto> released ?w1)" "wp_last_dispatch_id p' = wp_last_dispatch_id p"
      "dict_keys (wp_workers p') = dict_keys (wp_workers p)"
      "shard_of p' = (\<lambda>op. if shard_of p op = Some s then None else shard_of p op)"
      using release_ok [OF p ops, of ?w1 None] ops by auto
    have "check_timeout_step now (p, lost) s = Inr (p'\<lparr>wp_spawned := wp_spawned p' @ [Quit s]\<rparr>, lost @ lost_of w)"
      using True p(2) ops p'(1) by (auto simp: check_timeout_step_def lookup_def expired_def)
    then show ?thesis using True p' by (simp add: timed_out_def pool_ok_def)
  qed
qed

definition cut_off :: "worker \<Rightarrow> bool" where
  "cut_off w \<longleftrightarrow> is_busy (w_operations w) \<and> \<not> w_connected w"

interpretation connections: worker_sweep check_connection_step "\<lambda>w. if cut_off w then released w else w"
  "\<lambda>w. if cut_off w then ops_of (w_operations w) else []" cut_off
proof
  fix p s w lost
  assume p: "pool_ok p" "worker_at p s = Some w"
  show "\<exists>p'. check_connection_step (p, lost) s = Inr (p', lost @ (if cut_off w then ops_of (w_operations w) else [])) \<and>
      pool_ok p' \<and> worker_at p' = (worker_at p)(s \<mapsto> (if cut_off w then released w else w)) \<and>
      shard_of p' = (\<lambda>op. if cut_off w \<and> shard_of p op = Some s then None else shard_of p op) \<and>
      wp_last_dispatch_id p' = wp_last_dispatch_id p \<and> dict_keys (wp_workers p') = dict_keys (wp_workers p)"
  proof (cases "cut_off w")
    case False
    then have "check_connection_step (p, lost) s = Inr (p, lost)"
      using p(2) by (cases "w_operations w") (auto simp: check_connection_step_def lookup_def cut_off_def)
    then show ?thesis using False p by (simp add: fun_upd_idem)
  next
    case True
    then obtain ops where ops: "w_operations w = Busy ops" by (cases "w_operations w") (auto simp: cut_off_def)
    have ok: "worker_ok (wp_last_dispatch_id p) w" by (rule pool_okD(1) [OF p])
    then have "\<not> w_disabled_by_timeout w" "\<not> w_ignore w" using ops by (auto simp: worker_ok_def)
    moreover obtain p' where p': "release_worker s None (set_worker s w p) = Inr (p', release_answer w)" "pool_ok p'"
      "worker_at p' = (worker_at p)(s \<mapsto> released w)" "wp_last_dispatch_id p' = wp_last_dispatch_id p"
      "dict_keys (wp_workers p') = dict_keys (wp_workers p)"
      "shard_of p' = (\<lambda>op. if shard_of p op = Some s then None else shard_of p op)"
      using release_ok [OF p ops ops, of None] ok calculation by (auto simp: worker_ok_def)
    ultimately have "check_connection_step (p, lost) s = Inr (p', lost @ ops)"
      using True p(2) ops by (simp add: check_connection_step_def lookup_def cut_off_def set_worker_same)
    then show ?thesis using True p' ops by simp
  qed
qed


lemma job_group_timeout_minimum: "minimum \<le> job_group_timeout jobs c t minimum"
  by (simp add: job_group_timeout_def split: option.split)

text \<open>A worker without operations changes into another one.\<close>

lemma set_worker_free_ok:
  assumes "pool_ok p" "worker_at p s = Some w" "\<not> is_busy (w_operations w)" "\<not> is_busy (w_operations w')"
    "worker_ok (wp_last_dispatch_id p) w'" "idle w' \<Longrightarrow> a" "wp_workers_available p \<Longrightarrow> a"
  shows "pool_ok ((set_worker s w' p)\<lparr>wp_workers_available := a\<rparr>)"
proof -
  have "ops_of (w_operations w) = []" using assms(3) by (cases "w_operations w") auto
  then have "(\<lambda>op. if shard_of p op = Some s then None else shard_of p op) = shard_of p"
    using pool_ok_shard [OF assms(1), of _ s] assms(2) by (fastforce simp: fun_eq_iff)
  then have "pool_view_ok ((worker_at p)(s \<mapsto> w')) (shard_of p) (wp_last_dispatch_id p) a"
    using pool_view_free [of "worker_at p" "shard_of p" "wp_last_dispatch_id p" "wp_workers_available p" s w w' a] assms
    by (simp add: pool_ok_def)
  then show ?thesis using assms(1) by (simp add: pool_ok_def)
qed

lemma pool_view_add:
  assumes ok: "pool_view_ok W rmap last_id available" and w: "W s = None" "worker_ok last_id w'" "\<not> is_busy (w_operations w')"
  shows "pool_view_ok (W(s \<mapsto> w')) rmap last_id True"
proof -
  have e: "ops_of (w_operations w') = []" "w_current_dispatch w' = None"
    using w(2,3) by (cases "w_operations w'"; simp add: worker_ok_def)+
  have "\<exists>v. (W(s \<mapsto> w')) t = Some v \<and> op \<in> set (ops_of (w_operations v))" if "rmap op = Some t" for t op
    using that ok w(1) by (fastforce simp: pool_view_ok_def)
  moreover have "rmap op = Some t" if "(W(s \<mapsto> w')) t = Some v" "works_on v op" for t op v
    using that ok e(1) by (auto simp: pool_view_ok_def works_on_def split: if_splits)
  moreover have "worker_ok last_id v" if "(W(s \<mapsto> w')) t = Some v" for t v
    using that w(2) ok by (auto simp: pool_view_ok_def split: if_splits)
  moreover have "t = t'" if "(W(s \<mapsto> w')) t = Some v" "(W(s \<mapsto> w')) t' = Some v'" "w_current_dispatch v = Some i"
      "w_current_dispatch v' = Some i" for t t' v v' i
    using that e(2) ok unfolding pool_view_ok_def by (auto split: if_splits)
  ultimately show ?thesis unfolding pool_view_ok_def by blast
qed

lemma add_worker_ok:
  assumes "pool_ok p" "worker_at p s = None"
  shows "pool_ok (add_worker s up p)"
proof -
  let ?w = "\<lparr>w_connected = up, w_operations = WORKER_INACTIVE, w_operations_to_ignore = [],
        w_start_time = None, w_current_dispatch = None, w_answered_at = None, w_dispatched_at = None,
        w_timeout = WORKER_TIMEOUT, w_schedule_disabling = False, w_ignore = False,
        w_disabled_by_timeout = False, w_disabled_at = None\<rparr>"
  have "pool_view_ok ((worker_at p)(s \<mapsto> ?w)) (shard_of p) (wp_last_dispatch_id p) True"
    by (rule pool_view_add [where available = "wp_workers_available p"])
      (use assms in \<open>simp_all add: pool_ok_def worker_ok_def\<close>)
  then show ?thesis using assms(1) by (simp add: add_worker_def pool_ok_def)
qed

lemma enable_worker_ok:
  assumes "pool_ok p" "enable_worker s p = Inr p'"
  shows "pool_ok p'" "wp_last_dispatch_id p' = wp_last_dispatch_id p" "current_dispatch p' = current_dispatch p"
proof -
  obtain w where w: "worker_at p s = Some w" "w_operations w = WORKER_DISABLED"
    and p': "p' = (set_worker s (w\<lparr>w_operations := WORKER_INACTIVE, w_operations_to_ignore := [],
              w_disabled_by_timeout := False, w_disabled_at := None\<rparr>) p)\<lparr>wp_workers_available := True\<rparr>"
    using assms(2) by (auto simp: enable_worker_def lookup_def split: option.splits if_splits)
  have "worker_ok (wp_last_dispatch_id p) w" by (rule pool_okD(1) [OF assms(1) w(1)])
  then show "pool_ok p'" unfolding p'
    by (intro set_worker_free_ok [OF assms(1) w(1)]) (auto simp: w(2) worker_ok_def)
  show "wp_last_dispatch_id p' = wp_last_dispatch_id p" "current_dispatch p' = current_dispatch p"
    using w by (auto simp: p' current_dispatch_def fun_eq_iff)
qed

lemma set_worker_keep_ok':
  assumes "pool_ok p" "worker_at p s = Some w" "w_operations w' = w_operations w"
    "w_current_dispatch w' = w_current_dispatch w" "worker_ok (wp_last_dispatch_id p) w'"
    "set (w_operations_to_ignore w) \<subseteq> set (w_operations_to_ignore w')" "w_connected w' \<Longrightarrow> w_connected w"
  shows "pool_ok (set_worker s w' p)"
proof -
  have "idle w' \<Longrightarrow> wp_workers_available p" using assms pool_okD(3) [OF assms(1,2)] by (simp add: idle_def)
  moreover have "(set_worker s w' p)\<lparr>wp_workers_available := wp_workers_available p\<rparr> = set_worker s w' p"
    by (cases p) (simp add: set_worker_def)
  ultimately show ?thesis
    using set_worker_keep_ok [OF assms(1-6), of "wp_workers_available p"] by metis
qed

lemma on_worker_disconnected_ok:
  assumes "pool_ok p" "on_worker_disconnected s p = Inr p'"
  shows "pool_ok p'" "wp_last_dispatch_id p' = wp_last_dispatch_id p" "current_dispatch p' = current_dispatch p"
proof -
  obtain w where w: "worker_at p s = Some w" and p': "p' = set_worker s (w\<lparr>w_connected := False\<rparr>) p"
    using assms(2) by (auto simp: on_worker_disconnected_def lookup_def split: option.splits)
  show "pool_ok p'" unfolding p' using pool_okD(1) [OF assms(1) w]
    by (intro set_worker_keep_ok' [OF assms(1) w]) (auto simp: worker_ok_def)
  show "wp_last_dispatch_id p' = wp_last_dispatch_id p" "current_dispatch p' = current_dispatch p"
    using w by (auto simp: p' current_dispatch_def fun_eq_iff)
qed

lemma pool_ok_spawned [simp]: "pool_ok (p\<lparr>wp_spawned := x\<rparr>) = pool_ok p"
  by (simp add: pool_ok_def)

lemma pool_ok_available: "pool_ok p \<Longrightarrow> pool_ok (p\<lparr>wp_workers_available := True\<rparr>)"
  by (auto simp: pool_ok_def pool_view_ok_def)

lemma current_dispatch_frame [simp]:
  "current_dispatch (p\<lparr>wp_workers_available := a\<rparr>) = current_dispatch p"
  "current_dispatch (p\<lparr>wp_spawned := x\<rparr>) = current_dispatch p"
  "current_dispatch (p\<lparr>wp_last_dispatch_id := n\<rparr>) = current_dispatch p"
  by (simp_all add: current_dispatch_def fun_eq_iff)

lemma on_worker_connected_ok:
  assumes p: "pool_ok p" "on_worker_connected contest_id s p = Inr p'"
  shows "pool_ok p'" "wp_last_dispatch_id p' = wp_last_dispatch_id p" "current_dispatch p' = current_dispatch p"
proof -
  obtain w p2 where w: "worker_at p s = Some w"
    and p2: "(if w_operations w = WORKER_DISABLED \<and> w_disabled_by_timeout w
        then enable_worker s (set_worker s (w\<lparr>w_connected := True\<rparr>) p) else Inr (set_worker s (w\<lparr>w_connected := True\<rparr>) p)) = Inr p2"
    and p': "p' = p2\<lparr>wp_spawned := (if contest_id \<noteq> None then wp_spawned p2 @ [PrecacheFiles s] else wp_spawned p2),
        wp_workers_available := True\<rparr>"
    using p(2) by (auto simp: on_worker_connected_def lookup_def Let_def split: option.splits)
  let ?w = "w\<lparr>w_connected := True\<rparr>"
  have ok1: "pool_ok ((set_worker s ?w p)\<lparr>wp_workers_available := True\<rparr>)"
    using pool_okD(1) [OF p(1) w] by (intro set_worker_keep_ok [OF p(1) w]) (auto simp: worker_ok_def)
  have id: "current_dispatch (set_worker s ?w p) = current_dispatch p"
    using w by (auto simp: current_dispatch_def fun_eq_iff)
  have en: "enable_worker s (p1\<lparr>wp_workers_available := True\<rparr>) = enable_worker s p1" for p1
    by (cases "lookup (wp_workers p1) s") (simp_all add: enable_worker_def set_worker_def)
  have "pool_ok (p2\<lparr>wp_workers_available := True\<rparr>) \<and> wp_last_dispatch_id p2 = wp_last_dispatch_id p \<and>
      current_dispatch p2 = current_dispatch p"
  proof (cases "w_operations w = WORKER_DISABLED \<and> w_disabled_by_timeout w")
    case True
    then have "enable_worker s ((set_worker s ?w p)\<lparr>wp_workers_available := True\<rparr>) = Inr p2" using p2 en by simp
    from enable_worker_ok [OF ok1 this] show ?thesis
      using pool_ok_available id by simp
  next
    case False
    then show ?thesis using p2 ok1 id by auto
  qed
  then show "pool_ok p'" "wp_last_dispatch_id p' = wp_last_dispatch_id p" "current_dispatch p' = current_dispatch p"
    by (auto simp: p' pool_ok_def)
qed


text \<open>How the ids of the job groups move: a worker keeps its id, loses it, or gets one that is new.\<close>

definition ids_move :: "worker_pool \<Rightarrow> worker_pool \<Rightarrow> bool" where
  "ids_move p p' \<longleftrightarrow> wp_last_dispatch_id p \<le> wp_last_dispatch_id p' \<and>
     (\<forall>s i. current_dispatch p' s = Some i \<longrightarrow> current_dispatch p s = Some i \<or> wp_last_dispatch_id p < i)"

lemma ids_move_trans: "ids_move p q \<Longrightarrow> ids_move q r \<Longrightarrow> ids_move p r"
  unfolding ids_move_def by (meson le_less_trans order_trans)

lemma ids_move_same:
  "wp_last_dispatch_id p' = wp_last_dispatch_id p \<Longrightarrow> current_dispatch p' = current_dispatch p \<Longrightarrow> ids_move p p'"
  by (simp add: ids_move_def)

lemma ids_move_workers:
  assumes "wp_last_dispatch_id p' = wp_last_dispatch_id p"
    "\<And>s w'. worker_at p' s = Some w' \<Longrightarrow> w_current_dispatch w' = None \<or> current_dispatch p s = w_current_dispatch w'"
  shows "ids_move p p'"
proof -
  have "current_dispatch p s = Some i" if i: "current_dispatch p' s = Some i" for s i
  proof -
    obtain w' where "worker_at p' s = Some w'" "w_current_dispatch w' = Some i"
      using i by (auto simp: current_dispatch_def split: option.splits)
    then show ?thesis using assms(2) [of s w'] by simp
  qed
  then show ?thesis using assms(1) by (simp add: ids_move_def)
qed

lemma find_worker_idle:
  assumes "find_worker WORKER_INACTIVE True True draw p = Inr s" "dict_ok (wp_workers p)"
  obtains w where "worker_at p s = Some w" "idle w"
proof -
  define pool where "pool = map fst (filter (\<lambda>(shard, w). w_operations w = WORKER_INACTIVE \<and> w_connected w) (wp_workers p))"
  have "pool \<noteq> []" "s = pool ! (draw mod length pool)"
    using assms(1) by (simp_all add: find_worker_def Let_def pool_def split: if_splits)
  then have "s \<in> set pool" by (simp add: nth_mem)
  then obtain w where "(s, w) \<in> set (wp_workers p)" "idle w" by (auto simp: idle_def pool_def)
  then show thesis using that assms(2) by simp
qed

lemma find_worker_none:
  "find_worker WORKER_INACTIVE True True draw p = Inl e \<Longrightarrow> worker_at p s = Some w \<Longrightarrow> \<not> idle w"
proof
  assume "find_worker WORKER_INACTIVE True True draw p = Inl e" "worker_at p s = Some w" "idle w"
  then have "filter (\<lambda>(shard, w). w_operations w = WORKER_INACTIVE \<and> w_connected w) (wp_workers p) = []"
    by (simp add: find_worker_def Let_def split: if_splits)
  then show False
    using map_of_SomeD [OF \<open>worker_at p s = Some w\<close>] \<open>idle w\<close> by (auto simp: filter_empty_conv idle_def)
qed

definition pool_works_on :: "worker_pool \<Rightarrow> es_operation \<Rightarrow> bool" where
  "pool_works_on p op \<longleftrightarrow> (\<exists>s w. worker_at p s = Some w \<and> works_on w op)"

lemma acquire_ok:
  assumes ok: "pool_ok p" and new: "\<forall>op \<in> set ops. \<not> pool_works_on p op"
  shows "\<exists>p' r. acquire_worker ops draw now p = Inr (p', r) \<and> pool_ok p' \<and> ids_move p p' \<and>
    (case r of
       None \<Rightarrow> (\<forall>s w. worker_at p s = Some w \<longrightarrow> \<not> idle w) \<and> p' = p\<lparr>wp_workers_available := False\<rparr>
     | Some s \<Rightarrow> \<exists>w. worker_at p s = Some w \<and> idle w \<and>
         worker_at p' = (worker_at p)(s \<mapsto> w\<lparr>w_operations := Busy ops, w_start_time := Some now, w_answered_at := None,
           w_dispatched_at := None, w_timeout := WORKER_TIMEOUT, w_current_dispatch := Some (Suc (wp_last_dispatch_id p))\<rparr>))"
proof (cases "find_worker WORKER_INACTIVE True True draw p")
  case (Inl e)
  have "\<not> idle w" if "worker_at p s = Some w" for s w by (rule find_worker_none [OF Inl that])
  then have "pool_ok (p\<lparr>wp_workers_available := False\<rparr>)"
    using ok unfolding pool_ok_def pool_view_ok_def by auto
  then show ?thesis using Inl find_worker_none [OF Inl] by (auto simp: acquire_worker_def ids_move_def)
next
  case (Inr s)
  obtain w where w: "worker_at p s = Some w" "idle w"
    using find_worker_idle [OF Inr] ok by (auto simp: pool_ok_def)
  have inactive: "w_operations w = WORKER_INACTIVE" using w(2) by (simp add: idle_def)
  let ?w = "w\<lparr>w_operations := Busy ops, w_start_time := Some now, w_answered_at := None,
      w_dispatched_at := None, w_timeout := WORKER_TIMEOUT, w_current_dispatch := Some (Suc (wp_last_dispatch_id p))\<rparr>"
  define p' where "p' = (set_worker s ?w p)\<lparr>wp_last_dispatch_id := Suc (wp_last_dispatch_id p),
      wp_operations_reverse := foldl (\<lambda>r op. dict_set op s r) (wp_operations_reverse p) ops,
      wp_spawned := wp_spawned p @ [BuildAndDispatch s ops (Suc (wp_last_dispatch_id p))]\<rparr>"
  have run: "acquire_worker ops draw now p = Inr (p', Some s)"
    using Inr w inactive by (simp add: acquire_worker_def add_operations_def lookup_def Let_def p'_def)
      (simp add: set_worker_def)
  have at: "worker_at p' = (worker_at p)(s \<mapsto> ?w)" by (simp add: p'_def)
  have "worker_ok (Suc (wp_last_dispatch_id p)) ?w"
    using pool_okD(1) [OF ok w(1)] inactive by (auto simp: worker_ok_def)
  then have "pool_view_ok ((worker_at p)(s \<mapsto> ?w)) (\<lambda>op. if op \<in> set ops then Some s else shard_of p op)
      (Suc (wp_last_dispatch_id p)) (wp_workers_available p)"
    using ok w(1) inactive new
    by (intro pool_view_assign [where w = w]) (auto simp: pool_ok_def pool_works_on_def)
  then have "pool_ok p'" using ok by (simp add: pool_ok_def p'_def assign_get)
  moreover have "ids_move p p'"
    using w by (auto simp: ids_move_def current_dispatch_def p'_def split: if_splits)
  ultimately show ?thesis using run at w by auto
qed


lemma mark_answered_ok:
  assumes "pool_ok p"
  shows "pool_ok (mark_answered s d now p)" "ids_move p (mark_answered s d now p)"
proof -
  consider "mark_answered s d now p = p"
    | w i where "worker_at p s = Some w" "w_current_dispatch w = Some i"
      "mark_answered s d now p = set_worker s (w\<lparr>w_answered_at := Some now\<rparr>) p"
    by (cases d; cases "worker_at p s"; cases "w_current_dispatch (the (worker_at p s)) = d") (auto simp: mark_answered_def)
  then have "pool_ok (mark_answered s d now p) \<and> ids_move p (mark_answered s d now p)"
  proof cases
    case (2 w i)
    have "pool_ok (set_worker s (w\<lparr>w_answered_at := Some now\<rparr>) p)"
      using pool_okD(1) [OF assms 2(1)] 2(2) by (intro set_worker_keep_ok' [OF assms 2(1)]) (auto simp: worker_ok_def)
    then show ?thesis using 2
      by (auto intro!: ids_move_workers simp: current_dispatch_def split: if_splits)
  qed (simp add: assms ids_move_same)
  then show "pool_ok (mark_answered s d now p)" "ids_move p (mark_answered s d now p)" by auto
qed

lemma set_timeout_ok:
  assumes "pool_ok p"
  shows "pool_ok (set_timeout s d jobs c t now p)" "ids_move p (set_timeout s d jobs c t now p)"
proof -
  let ?set = "\<lambda>w. w\<lparr>w_timeout := job_group_timeout jobs c t WORKER_TIMEOUT, w_dispatched_at := Some now\<rparr>"
  consider "set_timeout s d jobs c t now p = p"
    | w i where "worker_at p s = Some w" "w_current_dispatch w = Some i" "set_timeout s d jobs c t now p = set_worker s (?set w) p"
    by (cases d; cases "worker_at p s"; cases "w_current_dispatch (the (worker_at p s)) = d") (auto simp: set_timeout_def)
  then have "pool_ok (set_timeout s d jobs c t now p) \<and> ids_move p (set_timeout s d jobs c t now p)"
  proof cases
    case (2 w i)
    have "pool_ok (set_worker s (?set w) p)"
      using pool_okD(1) [OF assms 2(1)] 2(2) job_group_timeout_minimum
      by (intro set_worker_keep_ok' [OF assms 2(1)]) (auto simp: worker_ok_def)
    then show ?thesis using 2
      by (auto intro!: ids_move_workers simp: current_dispatch_def split: if_splits)
  qed (simp add: assms ids_move_same)
  then show "pool_ok (set_timeout s d jobs c t now p)" "ids_move p (set_timeout s d jobs c t now p)" by auto
qed

lemma release_worker_ok:
  assumes p: "pool_ok p" and r: "release_worker s d p = Inr (p', r)"
  shows "pool_ok p'" "ids_move p p'"
proof -
  have "p' = p \<or> (\<exists>w ops. worker_at p s = Some w \<and> w_operations w = Busy ops \<and> (d = None \<or> d = w_current_dispatch w))"
  proof (cases "d \<noteq> None \<and> d \<noteq> current_dispatch p s")
    case False
    then show ?thesis using r
      by (cases "worker_at p s"; cases "w_operations (the (worker_at p s))")
        (auto simp: release_worker_def lookup_def current_dispatch_def)
  qed (use r in \<open>auto simp: release_worker_def\<close>)
  then consider "p' = p"
    | w ops where "worker_at p s = Some w" "w_operations w = Busy ops" "d = None \<or> d = w_current_dispatch w"
    by blast
  then have "pool_ok p' \<and> ids_move p p'"
  proof cases
    case (2 w ops)
    note w = 2(1,2) and d = 2(3)
    have wok: "worker_ok (wp_last_dispatch_id p) w" by (rule pool_okD(1) [OF p w(1)])
    then have "\<not> w_disabled_by_timeout w" "w_disabled_at w = None" using w(2) by (auto simp: worker_ok_def)
    then obtain q where "release_worker s d (set_worker s w p) = Inr (q, release_answer w)" "pool_ok q"
        "worker_at q = (worker_at p)(s \<mapsto> released w)" "wp_last_dispatch_id q = wp_last_dispatch_id p"
      using release_ok [OF p w(1,2,2), of d] d by auto
    then show "pool_ok p' \<and> ids_move p p'" using r set_worker_same [OF w(1)]
      by (auto intro!: ids_move_workers simp: current_dispatch_def released_def split: if_splits)
  qed (simp add: p ids_move_same)
  then show "pool_ok p'" "ids_move p p'" by auto
qed

lemma ignore_operation_ok:
  assumes p: "pool_ok p" and r: "ignore_operation op p = Inr p'"
  shows "pool_ok p'" "ids_move p p'"
proof -
  obtain s w where s: "shard_of p op = Some s" "worker_at p s = Some w"
    and p': "p' = set_worker s (w\<lparr>w_operations_to_ignore := w_operations_to_ignore w @ [op]\<rparr>) p"
    using r by (auto simp: ignore_operation_def lookup_def split: option.splits)
  have "op \<in> set (ops_of (w_operations w))" using pool_ok_shard [OF p s(1)] s(2) by (metis option.inject)
  then show "pool_ok p'" unfolding p' using pool_okD(1) [OF p s(2)]
    by (intro set_worker_keep_ok' [OF p s(2)]) (auto simp: worker_ok_def)
  show "ids_move p p'" using s(2)
    by (auto intro!: ids_move_workers simp: p' current_dispatch_def split: if_splits)
qed

lemma disable_worker_ok:
  assumes p: "pool_ok p"
  shows "pool_ok (fst (disable_worker s p))" "ids_move p (fst (disable_worker s p))"
proof -
  have "pool_ok (fst (disable_worker s p)) \<and> ids_move p (fst (disable_worker s p))"
  proof (cases "worker_at p s")
    case None
    then show ?thesis using p by (simp add: disable_worker_def ids_move_same)
  next
    case (Some w)
    let ?w = "w\<lparr>w_disabled_by_timeout := False, w_disabled_at := None\<rparr>"
    have wok: "worker_ok (wp_last_dispatch_id p) w" by (rule pool_okD(1) [OF p Some])
    show ?thesis
    proof (cases "w_operations w")
      case WORKER_INACTIVE
      let ?w' = "?w\<lparr>w_operations := WORKER_DISABLED\<rparr>"
      have "pool_ok ((set_worker s ?w' p)\<lparr>wp_workers_available := wp_workers_available p\<rparr>)"
        using wok WORKER_INACTIVE by (intro set_worker_free_ok [OF p Some]) (auto simp: worker_ok_def idle_def)
      moreover have "(set_worker s ?w' p)\<lparr>wp_workers_available := wp_workers_available p\<rparr> = set_worker s ?w' p"
        by (cases p) (simp add: set_worker_def)
      ultimately have "pool_ok (set_worker s ?w' p)" by metis
      moreover have "fst (disable_worker s p) = set_worker s ?w' p"
        using Some WORKER_INACTIVE by (simp add: disable_worker_def Let_def set_worker_twice)
      ultimately show ?thesis using Some
        by (auto intro!: ids_move_workers simp: current_dispatch_def split: if_splits)
    next
      case WORKER_DISABLED
      have "pool_ok (set_worker s ?w p)"
        using wok by (intro set_worker_keep_ok' [OF p Some]) (auto simp: worker_ok_def)
      then show ?thesis using Some WORKER_DISABLED
        by (auto intro!: ids_move_workers simp: disable_worker_def Let_def current_dispatch_def split: if_splits)
    next
      case (Busy ops)
      let ?w1 = "?w\<lparr>w_schedule_disabling := True, w_operations_to_ignore := [], w_ignore := True\<rparr>"
      obtain q where q: "release_worker s None (set_worker s ?w1 p) = Inr (q, release_answer ?w1)" "pool_ok q"
          "worker_at q = (worker_at p)(s \<mapsto> released ?w1)" "wp_last_dispatch_id q = wp_last_dispatch_id p"
        using release_ok [OF p Some Busy, of ?w1 None] Busy by auto
      then have "fst (disable_worker s p) = q"
        using Some Busy by (simp add: disable_worker_def Let_def set_worker_twice)
      then show ?thesis using q(2-4)
        by (auto intro!: ids_move_workers simp: current_dispatch_def released_def split: if_splits)
    qed
  qed
  then show "pool_ok (fst (disable_worker s p))" "ids_move p (fst (disable_worker s p))" by auto
qed

lemma check_timeouts_ok:
  assumes "pool_ok p"
  shows "\<exists>p'. check_timeouts now p = Inr (p', concat (map (\<lambda>(s, w). if expired now w then lost_of w else []) (wp_workers p))) \<and>
    pool_ok p' \<and> worker_at p' = map_option (\<lambda>w. if expired now w then timed_out now w else w) \<circ> worker_at p \<and> ids_move p p' \<and>
    (\<forall>op. pool_contains p' op \<longleftrightarrow> (\<exists>s w. shard_of p op = Some s \<and> worker_at p s = Some w \<and> \<not> expired now w))"
proof -
  obtain p' where "check_timeouts now p = Inr (p', concat (map (\<lambda>(s, w). if expired now w then lost_of w else []) (wp_workers p)))"
    "pool_ok p'" and at: "worker_at p' = map_option (\<lambda>w. if expired now w then timed_out now w else w) \<circ> worker_at p"
    "wp_last_dispatch_id p' = wp_last_dispatch_id p"
    "\<And>op. pool_contains p' op \<longleftrightarrow> (\<exists>s w. shard_of p op = Some s \<and> worker_at p s = Some w \<and> \<not> expired now w)"
    using timeouts.sweep [OF assms, of now] unfolding check_timeouts_def by blast
  moreover from at have "ids_move p p'"
    by (auto intro!: ids_move_workers simp: current_dispatch_def timed_out_def released_def split: if_splits)
  ultimately show ?thesis by blast
qed

lemma check_connections_ok:
  assumes "pool_ok p"
  shows "\<exists>p'. check_connections p = Inr (p', concat (map (\<lambda>(s, w). if cut_off w then ops_of (w_operations w) else []) (wp_workers p))) \<and>
    pool_ok p' \<and> worker_at p' = map_option (\<lambda>w. if cut_off w then released w else w) \<circ> worker_at p \<and> ids_move p p'"
proof -
  obtain p' where "check_connections p = Inr (p', concat (map (\<lambda>(s, w). if cut_off w then ops_of (w_operations w) else []) (wp_workers p)))"
    "pool_ok p'" and at: "worker_at p' = map_option (\<lambda>w. if cut_off w then released w else w) \<circ> worker_at p"
    "wp_last_dispatch_id p' = wp_last_dispatch_id p"
    using connections.sweep [OF assms] unfolding check_connections_def by blast
  moreover from at have "ids_move p p'"
    by (auto intro!: ids_move_workers simp: current_dispatch_def released_def split: if_splits)
  ultimately show ?thesis by blast
qed



section \<open>All runs of the pool\<close>

text \<open>
  The steps of the pool: the calls of the evaluation service, the connections that come and
  go, and the background tasks of the job groups, in any order. The service gives a worker
  only operations that no worker works on, except for workers that were told to ignore it.
\<close>

inductive pool_step :: "worker_pool \<Rightarrow> worker_pool \<Rightarrow> bool" where
  Add: "worker_at p s = None \<Longrightarrow> pool_step p (add_worker s up p)"
| Connect: "on_worker_connected contest_id s p = Inr p' \<Longrightarrow> pool_step p p'"
| Disconnect: "on_worker_disconnected s p = Inr p' \<Longrightarrow> pool_step p p'"
| Acquire: "\<forall>op \<in> set ops. \<not> pool_works_on p op \<Longrightarrow> acquire_worker ops draw now p = Inr (p', r) \<Longrightarrow> pool_step p p'"
| Answered: "pool_step p (mark_answered s d now p)"
| Timeout: "pool_step p (set_timeout s d jobs c t now p)"
| Release: "release_worker s d p = Inr (p', r) \<Longrightarrow> pool_step p p'"
| Ignore: "ignore_operation op p = Inr p' \<Longrightarrow> pool_step p p'"
| CheckTimeouts: "check_timeouts now p = Inr (p', lost) \<Longrightarrow> pool_step p p'"
| Disable: "pool_step p (fst (disable_worker s p))"
| Enable: "enable_worker s p = Inr p' \<Longrightarrow> pool_step p p'"
| CheckConnections: "check_connections p = Inr (p', lost) \<Longrightarrow> pool_step p p'"

inductive pool_reach :: "worker_pool \<Rightarrow> bool" where
  Init: "pool_reach pool_init"
| Step: "pool_reach p \<Longrightarrow> pool_step p p' \<Longrightarrow> pool_reach p'"

lemma pool_init_ok: "pool_ok pool_init"
  by (simp add: pool_init_def pool_ok_def pool_view_ok_def)

lemma pool_step_ok:
  assumes "pool_step p p'" "pool_ok p"
  shows "pool_ok p' \<and> ids_move p p'"
  using assms
proof (induction rule: pool_step.induct)
  case (Add p s up)
  then have "ids_move p (add_worker s up p)"
    by (intro ids_move_workers) (auto simp: add_worker_def current_dispatch_def split: if_splits)
  then show ?case using add_worker_ok Add by blast
next
  case (Connect contest_id s p p')
  then show ?case using on_worker_connected_ok [OF Connect.prems Connect.hyps] ids_move_same by blast
next
  case (Disconnect s p p')
  then show ?case using on_worker_disconnected_ok [OF Disconnect.prems Disconnect.hyps] ids_move_same by blast
next
  case (Acquire ops p draw now p' r)
  then show ?case using acquire_ok [OF Acquire.prems Acquire.hyps(1), of draw now] by auto
next
  case (Enable s p p')
  then show ?case using enable_worker_ok [OF Enable.prems Enable.hyps] ids_move_same by blast
next
  case (CheckTimeouts now p p' lost)
  then show ?case using check_timeouts_ok [OF CheckTimeouts.prems, of now] by auto
next
  case (CheckConnections p p' lost)
  then show ?case using check_connections_ok [OF CheckConnections.prems] by auto
qed (auto dest: mark_answered_ok set_timeout_ok release_worker_ok ignore_operation_ok disable_worker_ok)

lemma pool_reach_ok: "pool_reach p \<Longrightarrow> pool_ok p"
  by (induction rule: pool_reach.induct) (use pool_init_ok pool_step_ok in blast)+

lemma pool_steps_ids:
  assumes "pool_step\<^sup>*\<^sup>* p q" "pool_ok p"
  shows "pool_ok q \<and> ids_move p q"
  using assms
proof (induction rule: rtranclp_induct)
  case base
  then show ?case by (simp add: ids_move_same)
next
  case (step q r)
  then show ?case using pool_step_ok ids_move_trans by blast
qed



section \<open>Properties\<close>


definition op_sample :: es_operation where "op_sample = es_op COMPILATION 7 5 None False"

definition pool_sample :: worker_pool where
  "pool_sample = fst (projr (acquire_worker [op_sample] 0 1000 (add_worker 3 True pool_init)))"

lemma pool_sample_reach: "pool_reach pool_sample"
proof -
  have start: "pool_reach (add_worker 3 True pool_init)"
    by (rule Step [OF Init], rule Add) (simp add: pool_init_def)
  have "\<not> isl (acquire_worker [op_sample] 0 1000 (add_worker 3 True pool_init))" by code_simp
  then have run: "acquire_worker [op_sample] 0 1000 (add_worker 3 True pool_init) =
      Inr (pool_sample, snd (projr (acquire_worker [op_sample] 0 1000 (add_worker 3 True pool_init))))"
    unfolding pool_sample_def by (cases "acquire_worker [op_sample] 0 1000 (add_worker 3 True pool_init)") auto
  have "pool_step (add_worker 3 True pool_init) pool_sample"
    by (rule Acquire [OF _ run]) (simp add: pool_works_on_def works_on_def add_worker_def pool_init_def set_worker_def)
  then show ?thesis by (rule Step [OF start])
qed


text \<open>
  C27. The answer to a job group is taken at most once. Once a worker no longer works on the job group with
  a given id (the answer was handled, or it timed out, was disabled or lost its connection), every
  later answer with that id, in any state that can follow, is ignored and changes nothing, also when
  the worker works on a new job group by then.
\<close>

theorem stale_answer_ignored:
  assumes "pool_reach p" "i \<le> wp_last_dispatch_id p" "current_dispatch p s \<noteq> Some i" "pool_step\<^sup>*\<^sup>* p q"
  shows "release_worker s (Some i) q = Inr (q, IgnoreResult True)"
proof -
  have "ids_move p q" using pool_steps_ids [OF assms(4) pool_reach_ok [OF assms(1)]] by simp
  then have "current_dispatch q s \<noteq> Some i" using assms(2,3) by (meson ids_move_def not_le)
  then show ?thesis by (auto simp: release_worker_def)
qed

theorem stale_answer_ignored_witness: "release_worker 4 (Some 1) pool_sample = Inr (pool_sample, IgnoreResult True)"
proof (rule stale_answer_ignored [OF pool_sample_reach])
  show "1 \<le> wp_last_dispatch_id pool_sample" by code_simp
  show "current_dispatch pool_sample 4 \<noteq> Some 1" by code_simp
qed simp

text \<open>
  C28. The check for timeouts never raises, its assertion included, loses no operation and leaves no
  worker beyond its time. Every operation of the pool is afterwards still in the pool, or returned
  to the service, or was marked to be ignored; what is returned has left the pool; and every worker that is
  still busy is within the time it may be silent.
\<close>

theorem check_timeouts_conserves:
  assumes "pool_reach p"
  shows "\<exists>p' lost. check_timeouts now p = Inr (p', lost) \<and>
    (\<forall>op. pool_contains p op \<longrightarrow> pool_contains p' op \<or> op \<in> set lost \<or>
       (\<exists>s w. worker_at p s = Some w \<and> op \<in> set (w_operations_to_ignore w))) \<and>
    (\<forall>op \<in> set lost. pool_contains p op \<and> \<not> pool_contains p' op) \<and>
    (\<forall>s w. worker_at p' s = Some w \<longrightarrow> is_busy (w_operations w) \<longrightarrow> silent_for now w \<le> allowed_silence w)"
proof -
  have ok: "pool_ok p" by (rule pool_reach_ok [OF assms])
  define lost where "lost = concat (map (\<lambda>(s, w). if expired now w then lost_of w else []) (wp_workers p))"
  obtain p' where p': "check_timeouts now p = Inr (p', lost)" "pool_ok p'"
    and at: "worker_at p' = map_option (\<lambda>w. if expired now w then timed_out now w else w) \<circ> worker_at p"
    and left: "\<And>op. pool_contains p' op \<longleftrightarrow> (\<exists>s w. shard_of p op = Some s \<and> worker_at p s = Some w \<and> \<not> expired now w)"
    using check_timeouts_ok [OF ok, of now] unfolding lost_def by blast
  have lost_iff: "op \<in> set lost \<longleftrightarrow> (\<exists>s w. worker_at p s = Some w \<and> expired now w \<and>
      works_on w op)" for op
  proof -
    have "dict_ok (wp_workers p)" using ok by (simp add: pool_ok_def)
    moreover have "op \<in> set (lost_of w) \<longleftrightarrow> works_on w op"
      if "worker_at p s = Some w" for s w
      using pool_okD(1) [OF ok that] by (cases "w_operations w") (auto simp: lost_of_def worker_ok_def works_on_def)
    ultimately show ?thesis by (auto simp: lost_def)
  qed
  have keep: "pool_contains p' op \<or> op \<in> set lost \<or> (\<exists>s w. worker_at p s = Some w \<and> op \<in> set (w_operations_to_ignore w))"
    if "pool_contains p op" for op
  proof -
    obtain s where s: "shard_of p op = Some s" using \<open>pool_contains p op\<close> by (auto simp: pool_contains_def)
    obtain w where w: "worker_at p s = Some w" "op \<in> set (ops_of (w_operations w))" by (rule pool_ok_shard [OF ok s])
    show ?thesis
    proof (cases "expired now w \<and> op \<notin> set (w_operations_to_ignore w)")
      case True
      then have "op \<in> set lost" unfolding lost_iff works_on_def using w by blast
      then show ?thesis by blast
    next
      case False
      then show ?thesis using w s left [of op] by blast
    qed
  qed
  have left: "pool_contains p op \<and> \<not> pool_contains p' op" if lost_op: "op \<in> set lost" for op
  proof -
    obtain s w where w: "worker_at p s = Some w" "expired now w" "works_on w op"
      using iffD1 [OF lost_iff lost_op] by blast
    then show ?thesis using pool_okD(2) [OF ok w(1,3)] left [of op] by (simp add: pool_contains_def)
  qed
  have "silent_for now w \<le> allowed_silence w" if w: "worker_at p' s = Some w" and busy: "is_busy (w_operations w)" for s w
  proof -
    obtain u where u: "worker_at p s = Some u" "w = (if expired now u then timed_out now u else u)"
      using w at by auto
    then have "w = u" "\<not> expired now u" using busy by (auto simp: timed_out_def released_def split: if_splits)
    moreover have "w_start_time u \<noteq> None" using pool_okD(1) [OF ok u(1)] calculation(1) busy by (simp add: worker_ok_def)
    ultimately show ?thesis by (auto simp: expired_def)
  qed
  then show ?thesis using p'(1) keep left by blast
qed

theorem check_timeouts_conserves_witness:
  "\<exists>p' lost. check_timeouts 2000000000 pool_sample = Inr (p', lost) \<and> (\<forall>op \<in> set lost. \<not> pool_contains p' op)"
  using check_timeouts_conserves [OF pool_sample_reach, of 2000000000] by blast

text \<open>
  A worker is found whenever there is one: for operations that no worker works on,
  \<^verbatim>\<open>acquire_worker\<close> never raises; it returns nothing exactly if no connected worker is
  free, and otherwise gives the operations, with a new id, to one that was free and connected and changes no other worker.
\<close>

theorem acquire_worker_correct:
  assumes "pool_reach p" "\<forall>op \<in> set ops. \<not> pool_works_on p op"
  shows "\<exists>p' r. acquire_worker ops draw now p = Inr (p', r) \<and>
    (r = None \<longleftrightarrow> (\<forall>s w. worker_at p s = Some w \<longrightarrow> \<not> idle w)) \<and>
    (\<forall>s. r = Some s \<longrightarrow> (\<exists>w w'. worker_at p s = Some w \<and> idle w \<and> worker_at p' = (worker_at p)(s \<mapsto> w') \<and>
       w_operations w' = Busy ops \<and> (\<forall>t. current_dispatch p t \<noteq> w_current_dispatch w')))"
proof -
  have ok: "pool_ok p" by (rule pool_reach_ok [OF assms(1)])
  obtain p' r where run: "acquire_worker ops draw now p = Inr (p', r)"
    and res: "case r of
       None \<Rightarrow> (\<forall>s w. worker_at p s = Some w \<longrightarrow> \<not> idle w) \<and> p' = p\<lparr>wp_workers_available := False\<rparr>
     | Some s \<Rightarrow> \<exists>w. worker_at p s = Some w \<and> idle w \<and>
         worker_at p' = (worker_at p)(s \<mapsto> w\<lparr>w_operations := Busy ops, w_start_time := Some now, w_answered_at := None,
           w_dispatched_at := None, w_timeout := WORKER_TIMEOUT, w_current_dispatch := Some (Suc (wp_last_dispatch_id p))\<rparr>)"
    using acquire_ok [OF ok assms(2), of draw now] by blast
  have old: "current_dispatch p t \<noteq> Some (Suc (wp_last_dispatch_id p))" for t
  proof
    assume "current_dispatch p t = Some (Suc (wp_last_dispatch_id p))"
    then obtain w where "worker_at p t = Some w" "w_current_dispatch w = Some (Suc (wp_last_dispatch_id p))"
      by (auto simp: current_dispatch_def split: option.splits)
    then show False using pool_okD(1) [OF ok, of t w] by (simp add: worker_ok_def)
  qed
  show ?thesis
  proof (cases r)
    case None
    then show ?thesis using run res by simp
  next
    case (Some s)
    then show ?thesis using run res old by fastforce
  qed
qed

theorem acquire_worker_correct_witness:
  "\<exists>p' r. acquire_worker [es_op COMPILATION 8 5 None False] 0 1000 pool_sample = Inr (p', r)"
proof -
  have "wp_workers pool_sample = [(3, snd (hd (wp_workers pool_sample)))]"
    "ops_of (w_operations (snd (hd (wp_workers pool_sample)))) = [op_sample]" by code_simp+
  then have "\<not> pool_works_on pool_sample (es_op COMPILATION 8 5 None False)"
    by (metis (no_types, lifting) list.set(1) list.simps(15) map_of_SomeD op_sample_def pool_works_on_def prod.inject
      es_operation.ext_inject num.distinct singletonD works_on_def numeral_eq_iff)
  then show ?thesis
    using acquire_worker_correct [OF pool_sample_reach, of "[es_op COMPILATION 8 5 None False]" 0 1000] by auto
qed

text \<open>
  Unlike the other two ways to lose a worker, the check of the connections also returns the operations
  that were marked to be ignored.
\<close>

lemma check_connections_returns_ignored:
  "op_sample \<in> set (snd (projr (check_connections (projr (on_worker_disconnected 3 (projr (ignore_operation op_sample pool_sample)))))))"
  by code_simp

end
