(* ===== verification/WatchdogLedger.thy ===== *)
theory WatchdogLedger
  imports ScoreTypes
begin

text \<open>
  The ledger of the watchdog, from \<^verbatim>\<open>cms/watchdog/policy.py\<close>: what it did in the last hour, the
  red intervals of the database gate and the open incidents; the budgets; and its file. Times are in
  seconds, exact. The file is modelled by the JSON value that \<^verbatim>\<open>json.dumps\<close> writes and
  \<^verbatim>\<open>json.loads\<close> gives back; a text that is no JSON is \<open>None\<close>.
\<close>

section \<open>Model\<close>

definition BUDGET_WINDOW_S :: rat where "BUDGET_WINDOW_S = 3600"
definition PROGRAM_BUDGET :: nat where "PROGRAM_BUDGET = 2"
definition POOL_BUDGET :: nat where "POOL_BUDGET = 3"
definition FATAL_PROGRAM_BUDGET :: nat where "FATAL_PROGRAM_BUDGET = 2"
definition CORRUPT_LEDGER_S :: rat where "CORRUPT_LEDGER_S = 3600"
definition RESTART :: string where "RESTART = ''restart''"
definition START :: string where "START = ''start''"
definition WORKERS_POOL :: string where "WORKERS_POOL = ''workers''"
definition SERVICES_POOL :: string where "SERVICES_POOL = ''services''"
definition LEDGER_MAX_EPOCH_S :: rat where "LEDGER_MAX_EPOCH_S = 4102444800"
definition LEDGER_MAX_PID :: int where "LEDGER_MAX_PID = 4194304"
definition LEDGER_MAX_PASSES :: int where "LEDGER_MAX_PASSES = 1000000"

definition pool_of :: "string \<Rightarrow> string" where
  "pool_of klass = (if klass = ''workers'' then WORKERS_POOL else SERVICES_POOL)"

definition age :: "rat \<Rightarrow> rat \<Rightarrow> rat" where
  "age now old = max 0 (now - old)"

text \<open>\<^verbatim>\<open>is_number\<close>; a number of a JSON value is finite.\<close>

fun is_number :: "json \<Rightarrow> bool" where
  "is_number (JInt _) = True"
| "is_number (JFloat _) = True"
| "is_number _ = False"

record booking =
  bk_wall :: rat
  bk_program :: string
  bk_label :: string
  bk_pool :: string
  bk_action :: string
  bk_rule :: string
  bk_would :: bool
  bk_pid :: "int option"

record incident =
  in_rule :: string
  in_opened :: rat
  in_passes :: int

record ledger =
  lg_real :: "booking list"
  lg_shadow :: "booking list"
  lg_red :: "(rat \<times> rat option) list"
  lg_incidents :: "(string, incident) dict"
  lg_exhausted_until :: "rat option"

definition empty_ledger :: ledger where
  "empty_ledger = \<lparr>lg_real = [], lg_shadow = [], lg_red = [], lg_incidents = [], lg_exhausted_until = None\<rparr>"

definition exhausted_ledger :: "rat \<Rightarrow> ledger" where
  "exhausted_ledger wall = empty_ledger\<lparr>lg_exhausted_until := Some (wall + CORRUPT_LEDGER_S)\<rparr>"

definition bookings_of :: "ledger \<Rightarrow> bool \<Rightarrow> booking list" where
  "bookings_of l shadow = (if shadow then lg_shadow l else lg_real l)"

definition book :: "booking \<Rightarrow> bool \<Rightarrow> ledger \<Rightarrow> ledger" where
  "book b shadow l = (if shadow then l\<lparr>lg_shadow := lg_shadow l @ [b]\<rparr> else l\<lparr>lg_real := lg_real l @ [b]\<rparr>)"

definition recent :: "rat \<Rightarrow> rat \<Rightarrow> bool" where
  "recent wall old \<longleftrightarrow> age wall old < BUDGET_WINDOW_S"

definition prune :: "rat \<Rightarrow> ledger \<Rightarrow> ledger" where
  "prune wall l =
     l\<lparr>lg_real := filter (\<lambda>b. recent wall (bk_wall b)) (lg_real l),
       lg_shadow := filter (\<lambda>b. recent wall (bk_wall b)) (lg_shadow l),
       lg_red := filter (\<lambda>(_, end). case end of None \<Rightarrow> True | Some e \<Rightarrow> recent wall e) (lg_red l),
       lg_exhausted_until := (case lg_exhausted_until l of
           Some u \<Rightarrow> if u \<le> wall then None else Some u | None \<Rightarrow> None)\<rparr>"

definition ledger_count :: "string \<Rightarrow> string \<Rightarrow> bool \<Rightarrow> rat \<Rightarrow> ledger \<Rightarrow> nat" where
  "ledger_count program action shadow wall l =
     length (filter (\<lambda>b. bk_program b = program \<and> bk_action b = action \<and> recent wall (bk_wall b)) (bookings_of l shadow))"

text \<open>One limit of \<^verbatim>\<open>free_at\<close>: when fewer than \<open>limit\<close> of the bookings are recent.\<close>

definition limit_free_at :: "booking list \<Rightarrow> nat \<Rightarrow> rat option" where
  "limit_free_at bookings limit =
     (if limit \<le> length bookings
      then Some (sort (map bk_wall bookings) ! (length bookings - limit) + BUDGET_WINDOW_S) else None)"

definition later_of :: "rat option \<Rightarrow> rat option \<Rightarrow> rat option" where
  "later_of free x =
     (case x of None \<Rightarrow> free | Some t \<Rightarrow> (case free of None \<Rightarrow> Some t | Some f \<Rightarrow> Some (max f t)))"

definition free_at :: "string \<Rightarrow> string \<Rightarrow> string \<Rightarrow> bool \<Rightarrow> rat \<Rightarrow> ledger \<Rightarrow> rat option" where
  "free_at program pool action shadow wall l =
     (if (case lg_exhausted_until l of None \<Rightarrow> False | Some u \<Rightarrow> wall < u) then lg_exhausted_until l
      else
        let recents = filter (\<lambda>b. bk_action b = action \<and> recent wall (bk_wall b)) (bookings_of l shadow);
            of_program = filter (\<lambda>b. bk_program b = program) recents
        in if action = RESTART
           then later_of (limit_free_at of_program PROGRAM_BUDGET)
                  (limit_free_at (filter (\<lambda>b. bk_pool b = pool) recents) POOL_BUDGET)
           else limit_free_at of_program FATAL_PROGRAM_BUDGET)"

definition red_since :: "rat \<Rightarrow> ledger \<Rightarrow> bool" where
  "red_since wall l = list_ex (\<lambda>(_, end). case end of None \<Rightarrow> True | Some e \<Rightarrow> wall < e) (lg_red l)"

definition last_restart_of :: "string \<Rightarrow> ledger \<Rightarrow> booking option" where
  "last_restart_of label l =
     (let restarts = filter (\<lambda>b. bk_label b = label \<and> bk_action b = RESTART \<and> \<not> bk_would b) (lg_real l)
      in if restarts = [] then None else Some (last restarts))"


subsection \<open>The file\<close>

text \<open>\<^verbatim>\<open>to_json\<close>: the keys of every dictionary are sorted; every time is a float.\<close>

definition opt_json :: "('a \<Rightarrow> json) \<Rightarrow> 'a option \<Rightarrow> json" where
  "opt_json f x = (case x of None \<Rightarrow> JNull | Some y \<Rightarrow> f y)"

definition booking_json :: "booking \<Rightarrow> json" where
  "booking_json b = JDict
     [(''action'', JStr (bk_action b)), (''label'', JStr (bk_label b)), (''pid'', opt_json JInt (bk_pid b)),
      (''pool'', JStr (bk_pool b)), (''program'', JStr (bk_program b)), (''rule'', JStr (bk_rule b)),
      (''wall'', JFloat (bk_wall b)), (''would'', JBool (bk_would b))]"

definition interval_json :: "rat \<times> rat option \<Rightarrow> json" where
  "interval_json interval = JList [JFloat (fst interval), opt_json JFloat (snd interval)]"

definition incident_json :: "incident \<Rightarrow> json" where
  "incident_json i = JDict
     [(''opened'', JFloat (in_opened i)), (''passes'', JInt (in_passes i)), (''rule'', JStr (in_rule i))]"

definition ledger_to_json :: "ledger \<Rightarrow> json" where
  "ledger_to_json l = JDict
     [(''exhausted_until'', opt_json JFloat (lg_exhausted_until l)),
      (''incidents'', JDict (map (\<lambda>(name, i). (name, incident_json i)) (sort_key fst (lg_incidents l)))),
      (''real'', JList (map booking_json (lg_real l))),
      (''red'', JList (map interval_json (lg_red l))),
      (''shadow'', JList (map booking_json (lg_shadow l)))]"

fun shape_dict :: "json \<Rightarrow> (string \<times> json) list res" where
  "shape_dict (JDict d) = Inr d"
| "shape_dict _ = Inl ValueError"

fun shape_list :: "json \<Rightarrow> json list res" where
  "shape_list (JList l) = Inr l"
| "shape_list _ = Inl ValueError"

text \<open>\<^verbatim>\<open>_epoch\<close>, \<^verbatim>\<open>_integer\<close>, \<^verbatim>\<open>_text\<close> and \<^verbatim>\<open>_flag\<close>.\<close>

definition read_epoch :: "json \<Rightarrow> rat res" where
  "read_epoch v =
     (if is_number v
      then res_bind (json_num v) (\<lambda>x. if 0 \<le> x \<and> x \<le> LEDGER_MAX_EPOCH_S then Inr x else Inl ValueError)
      else Inl ValueError)"

definition read_integer :: "int \<Rightarrow> int \<Rightarrow> json \<Rightarrow> int res" where
  "read_integer low high v =
     (case v of JInt i \<Rightarrow> if low \<le> i \<and> i \<le> high then Inr i else Inl ValueError | _ \<Rightarrow> Inl ValueError)"

definition read_text :: "string list option \<Rightarrow> json \<Rightarrow> string res" where
  "read_text allowed v =
     (case v of
        JStr s \<Rightarrow> if (case allowed of None \<Rightarrow> True | Some xs \<Rightarrow> s \<in> set xs) then Inr s else Inl ValueError
      | _ \<Rightarrow> Inl ValueError)"

definition read_flag :: "json \<Rightarrow> bool res" where
  "read_flag v = (case v of JBool b \<Rightarrow> Inr b | _ \<Rightarrow> Inl ValueError)"

definition read_opt :: "(json \<Rightarrow> 'a res) \<Rightarrow> json \<Rightarrow> 'a option res" where
  "read_opt f v = (if v = JNull then Inr None else res_bind (f v) (\<lambda>x. Inr (Some x)))"

definition read_booking :: "json \<Rightarrow> booking res" where
  "read_booking item =
     res_bind (shape_dict item) (\<lambda>d.
     let pid = (case dict_get d ''pid'' of None \<Rightarrow> JNull | Some v \<Rightarrow> v) in
     res_bind (res_bind (lookup d ''wall'') read_epoch) (\<lambda>wall.
     res_bind (res_bind (lookup d ''program'') (read_text None)) (\<lambda>program.
     res_bind (res_bind (lookup d ''label'') (read_text None)) (\<lambda>label.
     res_bind (res_bind (lookup d ''pool'') (read_text (Some [WORKERS_POOL, SERVICES_POOL]))) (\<lambda>pool.
     res_bind (res_bind (lookup d ''action'') (read_text (Some [RESTART, START]))) (\<lambda>action.
     res_bind (res_bind (lookup d ''rule'') (read_text None)) (\<lambda>rule.
     res_bind (res_bind (lookup d ''would'') read_flag) (\<lambda>would.
     res_bind (read_opt (read_integer 1 LEDGER_MAX_PID) pid) (\<lambda>pid.
       Inr \<lparr>bk_wall = wall, bk_program = program, bk_label = label, bk_pool = pool, bk_action = action, bk_rule = rule,
            bk_would = would, bk_pid = pid\<rparr>)))))))))"

definition read_interval :: "json \<Rightarrow> (rat \<times> rat option) res" where
  "read_interval item =
     res_bind (shape_list item) (\<lambda>xs.
       case xs of
         [start, end] \<Rightarrow> res_bind (read_epoch start) (\<lambda>s. res_bind (read_opt read_epoch end) (\<lambda>e. Inr (s, e)))
       | _ \<Rightarrow> Inl ValueError)"

definition read_incident :: "json \<Rightarrow> incident res" where
  "read_incident item =
     res_bind (shape_dict item) (\<lambda>d.
     res_bind (res_bind (lookup d ''rule'') (read_text None)) (\<lambda>rule.
     res_bind (res_bind (lookup d ''opened'') read_epoch) (\<lambda>opened.
     res_bind (res_bind (lookup d ''passes'') (read_integer 0 LEDGER_MAX_PASSES)) (\<lambda>passes.
       Inr \<lparr>in_rule = rule, in_opened = opened, in_passes = passes\<rparr>))))"

definition read_ledger :: "json \<Rightarrow> ledger res" where
  "read_ledger data =
     res_bind (shape_dict data) (\<lambda>d.
     res_bind (lookup d ''exhausted_until'') (\<lambda>u.
     res_bind (res_bind (res_bind (lookup d ''real'') shape_list) (res_map read_booking)) (\<lambda>real.
     res_bind (res_bind (res_bind (lookup d ''shadow'') shape_list) (res_map read_booking)) (\<lambda>shadow.
     res_bind (res_bind (res_bind (lookup d ''red'') shape_list) (res_map read_interval)) (\<lambda>red.
     res_bind (res_bind (res_bind (lookup d ''incidents'') shape_dict)
       (res_map (\<lambda>(name, v). res_bind (read_incident v) (\<lambda>i. Inr (name, i))))) (\<lambda>incidents.
     res_bind (read_opt read_epoch u) (\<lambda>exhausted_until.
       Inr \<lparr>lg_real = real, lg_shadow = shadow, lg_red = red, lg_incidents = incidents,
            lg_exhausted_until = exhausted_until\<rparr>)))))))"

datatype ledger_error = LedgerError

definition ledger_from_json :: "json option \<Rightarrow> ledger_error + ledger" where
  "ledger_from_json data =
     (case data of
        None \<Rightarrow> Inl LedgerError
      | Some j \<Rightarrow> (case read_ledger j of Inl _ \<Rightarrow> Inl LedgerError | Inr l \<Rightarrow> Inr l))"


section \<open>The file reads back\<close>

text \<open>What a file may hold.\<close>

definition epoch_ok :: "rat \<Rightarrow> bool" where
  "epoch_ok t \<longleftrightarrow> 0 \<le> t \<and> t \<le> LEDGER_MAX_EPOCH_S"

definition booking_ok :: "booking \<Rightarrow> bool" where
  "booking_ok b \<longleftrightarrow> epoch_ok (bk_wall b) \<and> bk_pool b \<in> {WORKERS_POOL, SERVICES_POOL} \<and> bk_action b \<in> {RESTART, START} \<and>
     pred_option (\<lambda>p. 1 \<le> p \<and> p \<le> LEDGER_MAX_PID) (bk_pid b)"

definition interval_ok :: "rat \<times> rat option \<Rightarrow> bool" where
  "interval_ok i \<longleftrightarrow> epoch_ok (fst i) \<and> pred_option epoch_ok (snd i)"

definition incident_ok :: "incident \<Rightarrow> bool" where
  "incident_ok i \<longleftrightarrow> epoch_ok (in_opened i) \<and> 0 \<le> in_passes i \<and> in_passes i \<le> LEDGER_MAX_PASSES"

definition ledger_ok :: "ledger \<Rightarrow> bool" where
  "ledger_ok l \<longleftrightarrow> list_all booking_ok (lg_real l) \<and> list_all booking_ok (lg_shadow l) \<and>
     list_all interval_ok (lg_red l) \<and> list_all (\<lambda>(_, i). incident_ok i) (lg_incidents l) \<and>
     pred_option epoch_ok (lg_exhausted_until l)"

lemma read_epoch_float [simp]: "epoch_ok t \<Longrightarrow> read_epoch (JFloat t) = Inr t"
  by (simp add: read_epoch_def epoch_ok_def)

lemma read_epoch_Inr: "read_epoch v = Inr t \<Longrightarrow> epoch_ok t"
  by (auto simp: read_epoch_def epoch_ok_def split: if_splits)

lemma read_opt_json [simp]:
  "pred_option P x \<Longrightarrow> (\<And>y. P y \<Longrightarrow> read (f y) = Inr y) \<Longrightarrow> (\<And>y. f y \<noteq> JNull) \<Longrightarrow> read_opt read (opt_json f x) = Inr x"
  by (cases x) (auto simp: read_opt_def opt_json_def)

lemma read_opt_Inr: "read_opt f v = Inr x \<Longrightarrow> (\<And>v y. f v = Inr y \<Longrightarrow> P y) \<Longrightarrow> pred_option P x"
  by (auto simp: read_opt_def split: if_splits)

lemma read_integer_Inr: "read_integer low high v = Inr i \<Longrightarrow> low \<le> i \<and> i \<le> high"
  by (auto simp: read_integer_def split: json.splits if_splits)

lemma read_text_Inr: "read_text (Some xs) v = Inr s \<Longrightarrow> s \<in> set xs"
  by (auto simp: read_text_def split: json.splits if_splits)

lemma read_booking_json:
  assumes "booking_ok b"
  shows "read_booking (booking_json b) = Inr b"
proof -
  have "read_opt (read_integer 1 LEDGER_MAX_PID) (opt_json JInt (bk_pid b)) = Inr (bk_pid b)"
    by (rule read_opt_json [where P = "\<lambda>p. 1 \<le> p \<and> p \<le> LEDGER_MAX_PID"])
      (use assms in \<open>auto simp: booking_ok_def read_integer_def\<close>)
  then show ?thesis
    using assms by (simp add: read_booking_def booking_json_def booking_ok_def lookup_def read_text_def read_flag_def)
qed

lemma read_interval_json: "interval_ok i \<Longrightarrow> read_interval (interval_json i) = Inr i"
  by (cases i)
    (auto simp: interval_ok_def read_interval_def interval_json_def read_opt_json [where P = epoch_ok])

lemma read_incident_json: "incident_ok i \<Longrightarrow> read_incident (incident_json i) = Inr i"
  by (simp add: incident_ok_def read_incident_def incident_json_def lookup_def read_text_def read_integer_def)

lemma res_map_roundtrip:
  "list_all P xs \<Longrightarrow> (\<And>x. P x \<Longrightarrow> read (write x) = Inr x) \<Longrightarrow> res_map read (map write xs) = Inr xs"
  by (induction xs) auto

lemma res_map_all: "res_map f vs = Inr xs \<Longrightarrow> (\<And>v x. f v = Inr x \<Longrightarrow> P x) \<Longrightarrow> list_all P xs"
  by (induction vs arbitrary: xs) auto

lemma read_booking_Inr:
  assumes "read_booking v = Inr b"
  shows "booking_ok b"
  using assms unfolding read_booking_def Let_def
  by (elim res_bindE) (auto simp: booking_ok_def dest!: read_epoch_Inr read_text_Inr intro!: read_opt_Inr read_integer_Inr)

lemma read_interval_Inr: "read_interval v = Inr i \<Longrightarrow> interval_ok i"
  unfolding read_interval_def
  by (elim res_bindE) (auto simp: interval_ok_def split: list.splits dest!: read_epoch_Inr intro!: read_opt_Inr intro: read_epoch_Inr)

lemma read_incident_Inr: "read_incident v = Inr i \<Longrightarrow> incident_ok i"
  unfolding read_incident_def
  by (elim res_bindE) (auto simp: incident_ok_def dest!: read_epoch_Inr read_integer_Inr)


lemma read_ledger_json:
  assumes "ledger_ok l"
  shows "read_ledger (ledger_to_json l) = Inr (l\<lparr>lg_incidents := sort_key fst (lg_incidents l)\<rparr>)"
proof -
  have "list_all (\<lambda>(_, i). incident_ok i) (sort_key fst (lg_incidents l))"
    using assms by (simp add: ledger_ok_def list_all_iff)
  then have "res_map (\<lambda>(name, v). res_bind (read_incident v) (\<lambda>i. Inr (name, i)))
      (map (\<lambda>(name, i). (name, incident_json i)) (sort_key fst (lg_incidents l))) = Inr (sort_key fst (lg_incidents l))"
    by (rule res_map_roundtrip) (auto simp: read_incident_json)
  moreover have "read_opt read_epoch (opt_json JFloat (lg_exhausted_until l)) = Inr (lg_exhausted_until l)"
    using assms by (auto simp: ledger_ok_def intro: read_opt_json)
  moreover have "res_map read_booking (map booking_json (lg_real l)) = Inr (lg_real l)"
    "res_map read_booking (map booking_json (lg_shadow l)) = Inr (lg_shadow l)"
    "res_map read_interval (map interval_json (lg_red l)) = Inr (lg_red l)"
    using assms by (auto simp: ledger_ok_def intro: res_map_roundtrip read_booking_json read_interval_json)
  ultimately show ?thesis by (simp add: read_ledger_def ledger_to_json_def lookup_def)
qed

lemma read_ledger_Inr:
  assumes "read_ledger v = Inr l"
  shows "ledger_ok l"
  using assms unfolding read_ledger_def
  by (elim res_bindE)
    (auto simp: ledger_ok_def intro!: res_map_all read_opt_Inr intro: read_booking_Inr read_interval_Inr read_incident_Inr read_epoch_Inr)

text \<open>
  C34. A ledger whose times, pids and counters are in range is read back from the file it is written to, with
  its incidents in the order of their names; and whatever text a file holds, either reading it fails with
  \<^verbatim>\<open>LedgerError\<close> or the ledger it gives is in range.
\<close>

theorem ledger_roundtrip:
  "(ledger_ok l \<longrightarrow>
      ledger_from_json (Some (ledger_to_json l)) = Inr (l\<lparr>lg_incidents := sort_key fst (lg_incidents l)\<rparr>)) \<and>
   (ledger_from_json data = Inr l' \<longrightarrow> ledger_ok l')"
  by (auto simp: ledger_from_json_def read_ledger_json read_ledger_Inr split: option.splits sum.splits)

definition example_ledger :: ledger where
  "example_ledger =
     \<lparr>lg_real = [\<lparr>bk_wall = 1000, bk_program = ''ws'', bk_label = ''cmsContestWebServer 0'', bk_pool = ''services'',
                  bk_action = ''restart'', bk_rule = ''R1'', bk_would = False, bk_pid = Some 77\<rparr>],
      lg_shadow = [], lg_red = [(10, Some 20), (30, None)],
      lg_incidents = [(''ws'', \<lparr>in_rule = ''R1'', in_opened = 990, in_passes = 0\<rparr>),
                      (''es'', \<lparr>in_rule = ''R3'', in_opened = 995, in_passes = 1\<rparr>)],
      lg_exhausted_until = None\<rparr>"

theorem ledger_roundtrip_witness:
  "ledger_ok example_ledger \<and> dict_keys (lg_incidents example_ledger) = [''ws'', ''es''] \<and>
   ledger_from_json (Some (ledger_to_json example_ledger)) =
     Inr (example_ledger\<lparr>lg_incidents := sort_key fst (lg_incidents example_ledger)\<rparr>) \<and>
   ledger_ok (example_ledger\<lparr>lg_incidents := sort_key fst (lg_incidents example_ledger)\<rparr>)"
proof -
  have ok: "ledger_ok example_ledger"
    by (simp add: ledger_ok_def example_ledger_def booking_ok_def interval_ok_def incident_ok_def epoch_ok_def
        LEDGER_MAX_EPOCH_S_def LEDGER_MAX_PID_def LEDGER_MAX_PASSES_def RESTART_def SERVICES_POOL_def)
  have "ledger_from_json (Some (ledger_to_json example_ledger)) =
      Inr (example_ledger\<lparr>lg_incidents := sort_key fst (lg_incidents example_ledger)\<rparr>)"
    using ledger_roundtrip ok by blast
  moreover from this have "ledger_ok (example_ledger\<lparr>lg_incidents := sort_key fst (lg_incidents example_ledger)\<rparr>)"
    using ledger_roundtrip by blast
  moreover have "dict_keys (lg_incidents example_ledger) = [''ws'', ''es'']" by (simp add: example_ledger_def)
  ultimately show ?thesis using ok by blast
qed

section \<open>The budgets\<close>

lemma sorted_count_above:
  assumes "sorted xs" "0 < k" "k \<le> length xs"
  shows "length (filter (\<lambda>w. c < w) xs) < k \<longleftrightarrow> xs ! (length xs - k) \<le> (c :: rat)"
proof
  let ?n = "length xs - k"
  assume "xs ! ?n \<le> c"
  moreover have "w \<le> xs ! ?n" if w: "w \<in> set (take (Suc ?n) xs)" for w
  proof -
    from w obtain i where "w = take (Suc ?n) xs ! i" "i < length (take (Suc ?n) xs)" by (metis in_set_conv_nth)
    then have "w = xs ! i" "i \<le> ?n" by auto
    then show ?thesis using assms by (auto intro: sorted_nth_mono)
  qed
  ultimately have "filter (\<lambda>w. c < w) (take (Suc ?n) xs) = []"
    by (fastforce simp: filter_empty_conv)
  moreover have "filter (\<lambda>w. c < w) xs = filter (\<lambda>w. c < w) (take (Suc ?n) xs) @ filter (\<lambda>w. c < w) (drop (Suc ?n) xs)"
    by (metis append_take_drop_id filter_append)
  moreover have "length (filter (\<lambda>w. c < w) (drop (Suc ?n) xs)) \<le> length xs - Suc ?n"
    by (metis length_drop length_filter_le)
  ultimately show "length (filter (\<lambda>w. c < w) xs) < k" using assms by simp
next
  let ?n = "length xs - k"
  assume few: "length (filter (\<lambda>w. c < w) xs) < k"
  show "xs ! ?n \<le> c"
  proof (rule ccontr)
    assume above: "\<not> xs ! ?n \<le> c"
    have "c < w" if w: "w \<in> set (drop ?n xs)" for w
    proof -
      from w obtain i where "w = drop ?n xs ! i" "i < length (drop ?n xs)" by (metis in_set_conv_nth)
      then have "w = xs ! (?n + i)" "?n + i < length xs" by auto
      then have "xs ! ?n \<le> w" using assms by (auto intro: sorted_nth_mono)
      then show ?thesis using above by linarith
    qed
    then have "length (filter (\<lambda>w. c < w) (drop ?n xs)) = k" using assms by (simp add: filter_True)
    moreover have "length (filter (\<lambda>w. c < w) xs) \<ge> length (filter (\<lambda>w. c < w) (drop ?n xs))"
      by (metis append_take_drop_id filter_append le_add2 length_append)
    ultimately show False using few by simp
  qed
qed

lemma recent_iff: "w \<le> u \<Longrightarrow> recent u w \<longleftrightarrow> u - BUDGET_WINDOW_S < w"
  by (auto simp: recent_def age_def BUDGET_WINDOW_S_def)

lemma recent_earlier: "recent u w \<Longrightarrow> now \<le> u \<Longrightarrow> w \<le> now \<Longrightarrow> recent now w"
  by (simp add: recent_iff)

text \<open>One limit at a later time, from its bookings now.\<close>

lemma limit_free_at_later:
  assumes "\<forall>b \<in> set bs. bk_wall b \<le> now" "now \<le> u" "0 < limit"
  shows "limit_free_at (filter (\<lambda>b. recent u (bk_wall b)) bs) limit = None \<longleftrightarrow>
    pred_option (\<lambda>t. t \<le> u) (limit_free_at (filter (\<lambda>b. recent now (bk_wall b)) bs) limit)"
proof -
  let ?now = "filter (\<lambda>b. recent now (bk_wall b)) bs"
  let ?ws = "sort (map bk_wall ?now)"
  have "filter (\<lambda>b. recent u (bk_wall b)) bs = filter (\<lambda>b. recent u (bk_wall b)) ?now"
    using assms by (auto simp: intro!: filter_cong dest: recent_earlier)
  also have "length \<dots> = length (filter (recent u) (map bk_wall ?now))"
    by (simp add: filter_map o_def)
  also have "\<dots> = size (filter_mset (recent u) (mset (map bk_wall ?now)))"
    by (metis mset_filter size_mset)
  also have "\<dots> = length (filter (recent u) ?ws)"
    by (metis mset_filter mset_sort size_mset)
  also have "filter (recent u) ?ws = filter (\<lambda>w. u - BUDGET_WINDOW_S < w) ?ws"
    using assms by (intro filter_cong) (auto simp: recent_iff)
  finally have len: "length (filter (\<lambda>b. recent u (bk_wall b)) bs) = length (filter (\<lambda>w. u - BUDGET_WINDOW_S < w) ?ws)" .
  show ?thesis
  proof (cases "limit \<le> length ?now")
    case True
    then have "length (filter (\<lambda>w. u - BUDGET_WINDOW_S < w) ?ws) < limit \<longleftrightarrow>
        ?ws ! (length ?ws - limit) \<le> u - BUDGET_WINDOW_S"
      using assms(3) by (intro sorted_count_above) auto
    then show ?thesis using True len by (auto simp: limit_free_at_def)
  next
    case False
    have "length (filter (\<lambda>w. u - BUDGET_WINDOW_S < w) ?ws) \<le> length ?now"
      by (metis length_filter_le length_map length_sort)
    then show ?thesis using False len by (simp add: limit_free_at_def)
  qed
qed


lemma later_of_None [simp]: "later_of x y = None \<longleftrightarrow> x = None \<and> y = None"
  by (auto simp: later_of_def split: option.splits)

lemma pred_later_of [simp]: "pred_option (\<lambda>t. t \<le> u) (later_of x y) \<longleftrightarrow> pred_option (\<lambda>t. t \<le> u) x \<and> pred_option (\<lambda>t. t \<le> u) y"
  by (auto simp: later_of_def split: option.splits)

lemma filter_recent_swap:
  "filter P (filter (\<lambda>b. Q b \<and> R b) xs) = filter R (filter (\<lambda>b. P b \<and> Q b) xs)"
  by (auto intro: filter_cong)

lemma free_at_later:
  assumes "\<forall>b \<in> set (bookings_of l shadow). bk_wall b \<le> now" "lg_exhausted_until l = None" "now \<le> u"
  shows "free_at program pool action shadow u l = None \<longleftrightarrow>
    pred_option (\<lambda>t. t \<le> u) (free_at program pool action shadow now l)"
proof -
  have limit: "limit_free_at (filter P (filter (\<lambda>b. bk_action b = a \<and> recent u (bk_wall b)) (bookings_of l shadow))) n = None \<longleftrightarrow>
    pred_option (\<lambda>t. t \<le> u)
      (limit_free_at (filter P (filter (\<lambda>b. bk_action b = a \<and> recent now (bk_wall b)) (bookings_of l shadow))) n)"
    if "0 < n" for P n a
    unfolding filter_recent_swap [of P "\<lambda>b. bk_action b = a" "\<lambda>b. recent u (bk_wall b)"]
      filter_recent_swap [of P "\<lambda>b. bk_action b = a" "\<lambda>b. recent now (bk_wall b)"]
    by (rule limit_free_at_later) (use assms that in auto)
  show ?thesis
    by (simp add: free_at_def assms(2) Let_def limit PROGRAM_BUDGET_def POOL_BUDGET_def FATAL_PROGRAM_BUDGET_def del: filter_filter)
qed

text \<open>What it means that the budgets allow an action.\<close>

definition restarts_in :: "(booking \<Rightarrow> bool) \<Rightarrow> string \<Rightarrow> rat \<Rightarrow> booking list \<Rightarrow> nat" where
  "restarts_in P action wall bs = length (filter (\<lambda>b. P b \<and> bk_action b = action \<and> recent wall (bk_wall b)) bs)"

definition budget_allows :: "string \<Rightarrow> string \<Rightarrow> string \<Rightarrow> rat \<Rightarrow> booking list \<Rightarrow> bool" where
  "budget_allows program pool action wall bs \<longleftrightarrow>
     (if action = RESTART
      then restarts_in (\<lambda>b. bk_program b = program) action wall bs < PROGRAM_BUDGET \<and>
           restarts_in (\<lambda>b. bk_pool b = pool) action wall bs < POOL_BUDGET
      else restarts_in (\<lambda>b. bk_program b = program) action wall bs < FATAL_PROGRAM_BUDGET)"

lemma free_at_None_iff:
  assumes "\<not> (\<exists>u. lg_exhausted_until l = Some u \<and> wall < u)"
  shows "free_at program pool action shadow wall l = None \<longleftrightarrow>
    budget_allows program pool action wall (bookings_of l shadow)"
  using assms
  by (auto simp: free_at_def budget_allows_def restarts_in_def limit_free_at_def Let_def conj_ac split: option.splits)

text \<open>
  C35. \<^verbatim>\<open>free_at\<close> answers for the budgets. When it gives no time, fewer than two restarts of the program and
  fewer than three of its pool (fewer than two starts, for a start) are booked in the last hour. When it gives a
  time, and no booking lies in the future, that time is exact: as long as nothing more is booked, the budget refuses the action at every
  moment before it and allows it from then on. A ledger that did not parse allows nothing for an hour.
\<close>

theorem free_at_exact:
  assumes "\<forall>b \<in> set (bookings_of l shadow). bk_wall b \<le> now" "lg_exhausted_until l = None" "now \<le> u"
  shows "(budget_allows program pool action u (bookings_of l shadow) \<longleftrightarrow>
      (case free_at program pool action shadow now l of None \<Rightarrow> True | Some t \<Rightarrow> t \<le> u)) \<and>
    free_at program pool action shadow u (exhausted_ledger wall) =
      (if u < wall + CORRUPT_LEDGER_S then Some (wall + CORRUPT_LEDGER_S) else None)"
proof (rule conjI)
  show "budget_allows program pool action u (bookings_of l shadow) \<longleftrightarrow>
      (case free_at program pool action shadow now l of None \<Rightarrow> True | Some t \<Rightarrow> t \<le> u)"
    using free_at_later [OF assms] free_at_None_iff [of l u] assms(2) by (simp split: option.split)
  show "free_at program pool action shadow u (exhausted_ledger wall) =
      (if u < wall + CORRUPT_LEDGER_S then Some (wall + CORRUPT_LEDGER_S) else None)"
    by (simp add: free_at_def exhausted_ledger_def empty_ledger_def bookings_of_def limit_free_at_def later_of_def
        PROGRAM_BUDGET_def POOL_BUDGET_def FATAL_PROGRAM_BUDGET_def)
qed

theorem free_at_exact_witness:
  "let b = (\<lambda>w. \<lparr>bk_wall = w, bk_program = ''ws'', bk_label = ''cmsContestWebServer 0'', bk_pool = SERVICES_POOL,
             bk_action = RESTART, bk_rule = ''R1'', bk_would = False, bk_pid = Some 77\<rparr>);
       l = empty_ledger\<lparr>lg_real := [b 500, b 100]\<rparr>
   in free_at ''ws'' SERVICES_POOL RESTART False 600 l = Some 3700 \<and>
      \<not> budget_allows ''ws'' SERVICES_POOL RESTART 3699 (bookings_of l False) \<and>
      budget_allows ''ws'' SERVICES_POOL RESTART 3700 (bookings_of l False)"
proof -
  define b where "b = (\<lambda>w. \<lparr>bk_wall = w, bk_program = ''ws'', bk_label = ''cmsContestWebServer 0'', bk_pool = SERVICES_POOL,
             bk_action = RESTART, bk_rule = ''R1'', bk_would = False, bk_pid = Some 77\<rparr>)"
  define l where "l = empty_ledger\<lparr>lg_real := [b 500, b 100]\<rparr>"
  have free: "free_at ''ws'' SERVICES_POOL RESTART False 600 l = Some 3700"
    by (simp add: free_at_def l_def b_def empty_ledger_def bookings_of_def limit_free_at_def later_of_def recent_def
        age_def BUDGET_WINDOW_S_def PROGRAM_BUDGET_def POOL_BUDGET_def)
  have old: "\<forall>x \<in> set (bookings_of l False). bk_wall x \<le> 600" and fresh: "lg_exhausted_until l = None"
    by (auto simp: l_def b_def empty_ledger_def bookings_of_def)
  have "budget_allows ''ws'' SERVICES_POOL RESTART u (bookings_of l False) \<longleftrightarrow> 3700 \<le> u" if "600 \<le> u" for u
    using free_at_exact [OF old fresh that, of "''ws''" SERVICES_POOL RESTART] free by simp
  then show ?thesis using free unfolding Let_def b_def [symmetric] l_def [symmetric] by simp
qed

end
