(* ===== verification/WatchdogPolicy.thy ===== *)
theory WatchdogPolicy
  imports WatchdogLedger
begin

text \<open>
  The policy of the watchdog, from \<^verbatim>\<open>cms/watchdog/policy.py\<close>: \<^verbatim>\<open>decide\<close> turns the observation of one
  cycle into alerts, restarts and starts. A cycle is the state that carries over, extended by what
  \<^verbatim>\<open>_Cycle.__init__\<close> adds to it. The answers of \<^verbatim>\<open>health()\<close> and \<^verbatim>\<open>workers_status()\<close> are arbitrary JSON
  values; an exception of a cycle is a value.

  An alert is modelled by its key, level and holds, without its text; a reason that is a text is
  modelled by whether it is empty. The statistics of the hourly summary and the history kept for the evidence,
  which no condition reads, are left out.
\<close>

section \<open>Model\<close>

subsection \<open>Constants\<close>

definition STARVED_LAG_S :: rat where "STARVED_LAG_S = 5"
definition PAUSE_S :: rat where "PAUSE_S = 30"
definition WINDOW_SIZE :: nat where "WINDOW_SIZE = 6"
definition MISSES_TO_TRIP :: nat where "MISSES_TO_TRIP = 5"
definition MISSES_TO_WARN :: nat where "MISSES_TO_WARN = 3"
definition SECTION_TRIP_S :: rat where "SECTION_TRIP_S = 180"
definition SECTION_WARN_S :: rat where "SECTION_WARN_S = 90"
definition ES_IDLE_TRIP_S :: rat where "ES_IDLE_TRIP_S = 60"
definition ES_IDLE_WARN_S :: rat where "ES_IDLE_WARN_S = 30"
definition ES_CPU_LOOKBACK_S :: rat where "ES_CPU_LOOKBACK_S = 60"
definition ES_CPU_MIN_S :: rat where "ES_CPU_MIN_S = 1"
definition ES_CPU_KEEP_S :: rat where "ES_CPU_KEEP_S = 90"
definition ES_SECTION_PREFIX :: string where "ES_SECTION_PREFIX = ''post_finish_lock:''"
definition INVALIDATION_SECTION :: string where
  "INVALIDATION_SECTION = ''post_finish_lock:_invalidate_submission_sync''"
definition WORKER_DISABLED_TRIP_S :: rat where "WORKER_DISABLED_TRIP_S = 180"
definition WORKER_UNCONNECTED_TRIP_S :: rat where "WORKER_UNCONNECTED_TRIP_S = 300"
definition ES_UP_FOR_WORKERS_S :: rat where "ES_UP_FOR_WORKERS_S = 120"
definition RANKING_MISSES_TO_ALERT :: nat where "RANKING_MISSES_TO_ALERT = 3"
definition FATAL_GREEN_CYCLES :: nat where "FATAL_GREEN_CYCLES = 2"
definition FATAL_RED_LOOKBACK_S :: rat where "FATAL_RED_LOOKBACK_S = 15"
definition GREEN_BEFORE_RESTART_S :: rat where "GREEN_BEFORE_RESTART_S = 120"
definition LOCK_WAIT_S :: rat where "LOCK_WAIT_S = 30"
definition GLOBAL_FAILING_FRACTION :: rat where "GLOBAL_FAILING_FRACTION = 1 / 3"
definition GRACE_S :: rat where "GRACE_S = 120"
definition DID_IT_HELP_S :: rat where "DID_IT_HELP_S = 120"
definition PASSES_TO_RESOLVE :: int where "PASSES_TO_RESOLVE = 2"
definition ALERT_REPEAT_S :: rat where "ALERT_REPEAT_S = 300"
definition SUMMARY_PERIOD_S :: rat where "SUMMARY_PERIOD_S = 3600"

definition KIND_CLASS :: "(string, string) dict" where
  "KIND_CLASS =
     [(''LogService'', ''infra''), (''ResourceService'', ''infra''), (''EvaluationService'', ''core''),
      (''ScoringService'', ''core''), (''ProxyService'', ''core''), (''ContestWebServer'', ''web''),
      (''AdminWebServer'', ''web''), (''Worker'', ''workers'')]"

definition CLASS_ORDER :: "string list" where "CLASS_ORDER = [''infra'', ''core'', ''web'', ''workers'']"
definition HTTP_KINDS :: "string list" where "HTTP_KINDS = [''ContestWebServer'', ''AdminWebServer'']"
definition RPC_RULE_KINDS :: "string list" where
  "RPC_RULE_KINDS = [''LogService'', ''ResourceService'', ''EvaluationService'', ''ScoringService'', ''ProxyService'']"
definition HEALTH_KINDS :: "string list" where "HEALTH_KINDS = HTTP_KINDS @ RPC_RULE_KINDS"
definition HOLDS :: "string list" where
  "HOLDS = [''H1'', ''H2'', ''H3'', ''H4'', ''H5'', ''H6'', ''H7'', ''H8'', ''H9'']"
definition URGENT_HOLDS :: "string list" where "URGENT_HOLDS = [''H3'', ''H7'']"
definition GATE_ANSWERED_REASONS :: "string list" where
  "GATE_ANSWERED_REASONS = [''refused'', ''too many clients'', ''authentication'']"

type_synonym alert_key = "string \<times> string"

definition WORKERS_KEY :: alert_key where "WORKERS_KEY = (''workers'', ''R4'')"
definition FATAL_KEY :: alert_key where "FATAL_KEY = (''-'', ''R5'')"
definition FATAL_LEFT_KEY :: alert_key where "FATAL_LEFT_KEY = (''-'', ''R5 left to you'')"
definition ALERT :: string where "ALERT = ''alert''"
definition OBSERVE :: string where "OBSERVE = ''observe''"
definition ENFORCE :: string where "ENFORCE = ''enforce''"


subsection \<open>What a cycle sees\<close>

record program_facts =
  pf_name :: string
  pf_kind :: "string option"
  pf_shard :: "int option"
  pf_state :: string
  pf_pid :: "int option"
  pf_start_wall :: "rat option"

definition managed :: "program_facts \<Rightarrow> bool" where
  "managed p \<longleftrightarrow> (case pf_kind p of None \<Rightarrow> False | Some k \<Rightarrow> k \<in> set (dict_keys KIND_CLASS)) \<and> pf_shard p \<noteq> None"

text \<open>The class, only asked of a managed program.\<close>

definition klass :: "program_facts \<Rightarrow> string" where
  "klass p = the (dict_get KIND_CLASS (the (pf_kind p)))"

definition label :: "program_facts \<Rightarrow> string" where
  "label p =
     ''cms'' @ (case pf_kind p of None \<Rightarrow> ''None'' | Some k \<Rightarrow> k) @ '' '' @
     (case pf_shard p of None \<Rightarrow> ''None'' | Some i \<Rightarrow> str_int i)"

record probe =
  pr_ok :: bool
  pr_latency_s :: "rat option"
  pr_error :: string

text \<open>The columns of a row of the database snapshot that the conditions read; an age that is no finite number is \<open>None\<close>.\<close>

record backend =
  be_application_name :: "string option"
  be_state :: "string option"
  be_wait_event_type :: "string option"
  be_wait_event :: "string option"
  be_query_age_s :: "rat option"

record gate =
  ga_green :: bool
  ga_reason :: string
  ga_backends :: "backend list"

record observation =
  ob_lag_s :: rat
  ob_since_previous_s :: "rat option"
  ob_supervisor_ok :: bool
  ob_programs :: "program_facts list"
  ob_gate :: gate
  ob_http :: "(string, probe) dict"
  ob_rpc :: "(string, probe) dict"
  ob_health :: "(string, json) dict"
  ob_workers :: "json option"
  ob_rankings :: "(string, probe) dict"
  ob_holder_cpu :: "(int \<times> rat) option"
  ob_in_flight :: bool

record decision =
  dc_action :: string
  dc_level :: string
  dc_key :: alert_key
  dc_program :: string
  dc_programs :: "string list"
  dc_rule :: string
  dc_would :: bool
  dc_shadow :: bool
  dc_holds :: "string list"

definition new_decision :: "string \<Rightarrow> decision" where
  "new_decision action =
     \<lparr>dc_action = action, dc_level = ''WARNING'', dc_key = (''-'', ''''), dc_program = '''', dc_programs = [], dc_rule = '''',
      dc_would = False, dc_shadow = False, dc_holds = []\<rparr>"


subsection \<open>What carries over\<close>

record program_state =
  ps_pid :: "int option"
  ps_window :: "bool list"
  ps_last_action_mono :: "rat option"
  ps_restarted_mono :: "rat option"
  ps_restarted_pid :: "int option"

definition new_program_state :: program_state where
  "new_program_state =
     \<lparr>ps_pid = None, ps_window = [], ps_last_action_mono = None, ps_restarted_mono = None, ps_restarted_pid = None\<rparr>"

text \<open>Appending to a \<^verbatim>\<open>deque\<close> with \<^verbatim>\<open>maxlen=WINDOW_SIZE\<close>.\<close>

definition window_append :: "bool list \<Rightarrow> bool \<Rightarrow> bool list" where
  "window_append w x = drop (Suc (length w) - WINDOW_SIZE) (w @ [x])"

record policy_state =
  po_mode :: string
  po_restart_classes :: "string list"
  po_ledger :: ledger
  po_programs :: "(string, program_state) dict"
  po_started_mono :: "rat option"
  po_green_since_mono :: "rat option"
  po_green_cycles :: nat
  po_holder_samples :: "(rat \<times> int \<times> rat) list"
  po_ranking_misses :: "(string, nat) dict"
  po_alert_sent :: "(alert_key, rat) dict"
  po_held_headline :: "(alert_key, string) dict"
  po_open_alerts :: "(alert_key, decision) dict"
  po_summary_mono :: "rat option"
  po_held_announced :: "(alert_key, string list) dict"
  po_workers_quiet :: nat
  po_fatal_left :: "string list"

definition new_policy_state :: "string \<Rightarrow> string list \<Rightarrow> ledger \<Rightarrow> policy_state" where
  "new_policy_state mode classes l =
     \<lparr>po_mode = mode, po_restart_classes = classes, po_ledger = l, po_programs = [], po_started_mono = None,
      po_green_since_mono = None, po_green_cycles = 0, po_holder_samples = [], po_ranking_misses = [], po_alert_sent = [],
      po_held_headline = [], po_open_alerts = [], po_summary_mono = None, po_held_announced = [], po_workers_quiet = 0,
      po_fatal_left = []\<rparr>"

definition shadow_for :: "string \<Rightarrow> 'a policy_state_scheme \<Rightarrow> bool" where
  "shadow_for k st \<longleftrightarrow> po_mode st = ENFORCE \<and> k \<notin> set (po_restart_classes st)"

record trip =
  tr_program :: program_facts
  tr_rule :: string

record cycle = policy_state +
  cy_obs :: observation
  cy_mono :: rat
  cy_wall :: rat
  cy_decisions :: "decision list"
  cy_acted :: bool
  cy_starved :: bool
  cy_running :: "program_facts list"
  cy_trips :: "trip list"
  cy_warnings :: "trip list"
  cy_failing :: "string list"
  cy_half :: "string list"
  cy_unjudged :: "string list"
  cy_unconnected :: "string list"

definition new_cycle :: "policy_state \<Rightarrow> observation \<Rightarrow> rat \<Rightarrow> rat \<Rightarrow> cycle" where
  "new_cycle st obs now wall =
     policy_state.extend st
       \<lparr>cy_obs = obs, cy_mono = now, cy_wall = wall, cy_decisions = [], cy_acted = False,
        cy_starved = (STARVED_LAG_S < ob_lag_s obs),
        cy_running = filter (\<lambda>p. managed p \<and> pf_state p = ''RUNNING'') (ob_programs obs),
        cy_trips = [], cy_warnings = [], cy_failing = [], cy_half = [], cy_unjudged = [], cy_unconnected = []\<rparr>"


subsection \<open>Sections of a health answer\<close>

record busy_section =
  sc_what :: string
  sc_tid :: "int option"
  sc_age_s :: rat
  sc_idle_s :: rat
  sc_statements :: "json option"

definition json_key :: "string \<Rightarrow> (string, json) dict \<Rightarrow> json" where
  "json_key k d = (case dict_get d k of None \<Rightarrow> JNull | Some v \<Rightarrow> v)"

fun num_val :: "json \<Rightarrow> rat" where
  "num_val (JInt i) = of_int i"
| "num_val (JFloat r) = r"
| "num_val _ = 0"

definition read_section :: "json \<Rightarrow> busy_section option" where
  "read_section entry =
     (case entry of
        JDict d \<Rightarrow>
          (case json_key ''what'' d of
             JStr what \<Rightarrow>
               if is_number (json_key ''age_s'' d) \<and> is_number (json_key ''idle_s'' d)
               then Some \<lparr>sc_what = what, sc_tid = (case json_key ''tid'' d of JInt i \<Rightarrow> Some i | _ \<Rightarrow> None),
                          sc_age_s = num_val (json_key ''age_s'' d), sc_idle_s = num_val (json_key ''idle_s'' d),
                          sc_statements = (let s = json_key ''statements'' d in if is_number s then Some s else None)\<rparr>
               else None
           | _ \<Rightarrow> None)
      | _ \<Rightarrow> None)"

definition busy_sections :: "json option \<Rightarrow> busy_section list" where
  "busy_sections payload =
     (case payload of
        Some (JDict d) \<Rightarrow>
          (case json_key ''busy'' d of
             JList busy \<Rightarrow> sort_key (\<lambda>s. - sc_age_s s) (List.map_filter read_section busy)
           | _ \<Rightarrow> [])
      | _ \<Rightarrow> [])"



subsection \<open>Alerts\<close>

definition alert_of :: "alert_key \<Rightarrow> string \<Rightarrow> string list \<Rightarrow> decision" where
  "alert_of key level holds = (new_decision ALERT)\<lparr>dc_level := level, dc_key := key, dc_holds := holds\<rparr>"

definition emit :: "decision \<Rightarrow> cycle \<Rightarrow> cycle" where
  "emit d c = c\<lparr>cy_decisions := cy_decisions c @ [d]\<rparr>"

text \<open>\<^verbatim>\<open>_alert\<close>.\<close>

definition send_alert :: "alert_key \<Rightarrow> string \<Rightarrow> bool \<Rightarrow> string list \<Rightarrow> bool \<Rightarrow> cycle \<Rightarrow> cycle" where
  "send_alert key level change holds keep_open c =
     (let d = alert_of key level holds;
          c1 = (if keep_open then c\<lparr>po_open_alerts := dict_set key d (po_open_alerts c)\<rparr> else c)
      in if change \<or> (case dict_get (po_alert_sent c1) key of None \<Rightarrow> True | Some t \<Rightarrow> ALERT_REPEAT_S \<le> cy_mono c1 - t)
         then emit d (c1\<lparr>po_alert_sent := dict_set key (cy_mono c1) (po_alert_sent c1)\<rparr>)
         else c1)"

definition forget_keys :: "(alert_key \<Rightarrow> bool) \<Rightarrow> (alert_key, 'v) dict \<Rightarrow> (alert_key, 'v) dict" where
  "forget_keys P d = filter (\<lambda>(k, _). \<not> P k) d"

definition close_keys :: "(alert_key \<Rightarrow> bool) \<Rightarrow> cycle \<Rightarrow> cycle" where
  "close_keys P c =
     c\<lparr>po_open_alerts := forget_keys P (po_open_alerts c), po_alert_sent := forget_keys P (po_alert_sent c),
       po_held_headline := forget_keys P (po_held_headline c), po_held_announced := forget_keys P (po_held_announced c)\<rparr>"

definition resolve_key :: "alert_key \<Rightarrow> cycle \<Rightarrow> cycle" where
  "resolve_key key c = emit (alert_of key ''WARNING'' []) (close_keys (\<lambda>k. k = key) c)"

definition close_alerts :: "string \<Rightarrow> cycle \<Rightarrow> cycle" where
  "close_alerts name c = close_keys (\<lambda>k. fst k = name) c"

definition resolve_program :: "string \<Rightarrow> cycle \<Rightarrow> cycle" where
  "resolve_program name c = emit (alert_of (name, ''resolved'') ''WARNING'' []) (close_alerts name c)"

definition forget_episodes :: "string \<Rightarrow> cycle \<Rightarrow> cycle" where
  "forget_episodes name c =
     c\<lparr>po_held_headline := forget_keys (\<lambda>k. fst k = name) (po_held_headline c),
       po_held_announced := forget_keys (\<lambda>k. fst k = name) (po_held_announced c)\<rparr>"

definition end_episode :: "alert_key \<Rightarrow> cycle \<Rightarrow> cycle" where
  "end_episode key c = close_keys (\<lambda>k. k = key) c"


subsection \<open>Bookkeeping\<close>

definition clear_windows :: "cycle \<Rightarrow> cycle" where
  "clear_windows c = c\<lparr>po_programs := map (\<lambda>(name, ps). (name, ps\<lparr>ps_window := []\<rparr>)) (po_programs c)\<rparr>"

definition red_open :: "ledger \<Rightarrow> bool" where
  "red_open l \<longleftrightarrow> lg_red l \<noteq> [] \<and> snd (last (lg_red l)) = None"

definition track_gate :: "cycle \<Rightarrow> cycle" where
  "track_gate c =
     (let g = ob_gate (cy_obs c); l = po_ledger c; key = (''-'', ''gate'') in
      if cy_starved c \<and> (ga_green g \<or> ga_reason g \<notin> set GATE_ANSWERED_REASONS) then c
      else if \<not> ga_green g then
        send_alert key ''ERROR'' (\<not> red_open l) [] True
          (c\<lparr>po_green_since_mono := None, po_green_cycles := 0,
             po_ledger := (if red_open l then l else l\<lparr>lg_red := lg_red l @ [(cy_wall c, None)]\<rparr>)\<rparr>)
      else if red_open l then
        resolve_key key
          ((clear_windows (c\<lparr>po_ledger := l\<lparr>lg_red := butlast (lg_red l) @ [(fst (last (lg_red l)), Some (cy_wall c))]\<rparr>\<rparr>))
             \<lparr>po_green_since_mono := Some (cy_mono c), po_green_cycles := 1\<rparr>)
      else if po_green_since_mono c = None then
        c\<lparr>po_green_since_mono := Some (cy_mono c - GREEN_BEFORE_RESTART_S), po_green_cycles := 1\<rparr>
      else c\<lparr>po_green_cycles := po_green_cycles c + 1\<rparr>)"

definition track_pause :: "cycle \<Rightarrow> cycle" where
  "track_pause c =
     (case ob_since_previous_s (cy_obs c) of
        None \<Rightarrow> c
      | Some gap \<Rightarrow>
          if PAUSE_S + STARVED_LAG_S < gap
          then emit (alert_of (''-'', ''pause'') ''WARNING'' []) (clear_windows c) else c)"

definition kind_in :: "program_facts \<Rightarrow> string list \<Rightarrow> bool" where
  "kind_in p kinds \<longleftrightarrow> (case pf_kind p of None \<Rightarrow> False | Some k \<Rightarrow> k \<in> set kinds)"

definition liveness_probe :: "observation \<Rightarrow> program_facts \<Rightarrow> probe option" where
  "liveness_probe obs p =
     (if kind_in p HTTP_KINDS then dict_get (ob_http obs) (pf_name p)
      else if kind_in p RPC_RULE_KINDS then dict_get (ob_rpc obs) (pf_name p)
      else None)"

definition track_program :: "cycle \<Rightarrow> program_facts \<Rightarrow> cycle" where
  "track_program c p =
     (let ps = (case dict_get (po_programs c) (pf_name p) of None \<Rightarrow> new_program_state | Some ps \<Rightarrow> ps);
          fresh = (ps_pid ps \<noteq> None \<and> ps_pid ps \<noteq> pf_pid p);
          c1 = (if fresh then forget_episodes (pf_name p) c else c);
          window = (if fresh then [] else ps_window ps);
          window' = (case liveness_probe (cy_obs c) p of
              None \<Rightarrow> window
            | Some probe \<Rightarrow> if cy_starved c then window else window_append window (\<not> pr_ok probe))
      in c1\<lparr>po_programs := dict_set (pf_name p) (ps\<lparr>ps_pid := pf_pid p, ps_window := window'\<rparr>) (po_programs c1)\<rparr>)"

definition track_programs :: "cycle \<Rightarrow> cycle" where
  "track_programs c = foldl track_program c (cy_running c)"

definition record_holder_cpu :: "cycle \<Rightarrow> cycle" where
  "record_holder_cpu c =
     c\<lparr>po_holder_samples :=
         filter (\<lambda>sample. cy_mono c - fst sample \<le> ES_CPU_KEEP_S) (po_holder_samples c) @
         (case ob_holder_cpu (cy_obs c) of None \<Rightarrow> [] | Some (tid, cpu_s) \<Rightarrow> [(cy_mono c, tid, cpu_s)])\<rparr>"

definition check_pid :: "cycle \<Rightarrow> program_facts \<Rightarrow> cycle" where
  "check_pid c p =
     (case dict_get (ob_health (cy_obs c)) (pf_name p) of
        Some (JDict d) \<Rightarrow>
          (case json_key ''pid'' d of
             JInt pid \<Rightarrow>
               if pf_pid p \<noteq> None \<and> pf_pid p \<noteq> Some pid
               then send_alert (pf_name p, ''pid'') ''WARNING'' False [] False c else c
           | _ \<Rightarrow> c)
      | _ \<Rightarrow> c)"

definition check_pids :: "cycle \<Rightarrow> cycle" where
  "check_pids c = foldl check_pid c (cy_running c)"


subsection \<open>R1 and R2: liveness\<close>

definition add_failing :: "string \<Rightarrow> cycle \<Rightarrow> cycle" where
  "add_failing name c = c\<lparr>cy_failing := List.insert name (cy_failing c)\<rparr>"

definition add_half :: "string \<Rightarrow> cycle \<Rightarrow> cycle" where
  "add_half name c = c\<lparr>cy_half := List.insert name (cy_half c)\<rparr>"

definition add_unjudged :: "string \<Rightarrow> cycle \<Rightarrow> cycle" where
  "add_unjudged name c = c\<lparr>cy_unjudged := List.insert name (cy_unjudged c)\<rparr>"

definition add_trip :: "program_facts \<Rightarrow> string \<Rightarrow> cycle \<Rightarrow> cycle" where
  "add_trip p rule c = c\<lparr>cy_trips := cy_trips c @ [\<lparr>tr_program = p, tr_rule = rule\<rparr>]\<rparr>"

definition add_warning :: "program_facts \<Rightarrow> string \<Rightarrow> cycle \<Rightarrow> cycle" where
  "add_warning p rule c = c\<lparr>cy_warnings := cy_warnings c @ [\<lparr>tr_program = p, tr_rule = rule\<rparr>]\<rparr>"

definition misses :: "bool list \<Rightarrow> nat" where
  "misses window = length (filter id window)"

definition liveness_trip :: "string \<Rightarrow> cycle \<Rightarrow> program_facts \<Rightarrow> cycle res" where
  "liveness_trip rule c p =
     (let missed_now = (case liveness_probe (cy_obs c) p of None \<Rightarrow> False | Some probe \<Rightarrow> \<not> pr_ok probe);
          c1 = (if missed_now then add_failing (pf_name p) c else c)
      in res_bind (lookup (po_programs c1) (pf_name p)) (\<lambda>ps.
         let m = misses (ps_window ps);
             c2 = (if MISSES_TO_WARN \<le> m then add_half (pf_name p) c1 else c1)
         in Inr (if MISSES_TO_TRIP \<le> m \<and> missed_now then add_trip p rule c2
                 else if MISSES_TO_WARN \<le> m then add_warning p rule c2
                 else c2)))"

definition liveness_trips :: "cycle \<Rightarrow> cycle res" where
  "liveness_trips c =
     res_fold (\<lambda>c p.
       if kind_in p HTTP_KINDS then liveness_trip ''R1'' c p
       else if kind_in p RPC_RULE_KINDS then liveness_trip ''R2'' c p
       else Inr c) c (cy_running c)"



subsection \<open>R3: sections\<close>

text \<open>\<^verbatim>\<open>max(old, key=lambda sample: sample[0])\<close>: the first of the largest.\<close>

definition newest_sample :: "(rat \<times> int \<times> rat) \<Rightarrow> (rat \<times> int \<times> rat) list \<Rightarrow> rat \<times> int \<times> rat" where
  "newest_sample s old = foldl (\<lambda>best sample. if fst best < fst sample then sample else best) s old"

definition holder_idle :: "cycle \<Rightarrow> int option \<Rightarrow> bool" where
  "holder_idle c tid =
     (case (tid, ob_holder_cpu (cy_obs c)) of
        (Some t, Some (current_tid, cpu_s)) \<Rightarrow>
          current_tid = t \<and>
          (case filter (\<lambda>(mono_s, tid', _). tid' = t \<and> ES_CPU_LOOKBACK_S \<le> cy_mono c - mono_s) (po_holder_samples c) of
             [] \<Rightarrow> False
           | s # old \<Rightarrow> cpu_s - snd (snd (newest_sample s old)) < ES_CPU_MIN_S)
      | _ \<Rightarrow> False)"

definition es_statement_running :: "cycle \<Rightarrow> program_facts \<Rightarrow> bool" where
  "es_statement_running c p \<longleftrightarrow>
     \<not> ga_green (ob_gate (cy_obs c)) \<or>
     list_ex (\<lambda>b. be_application_name b = Some (label p) \<and> be_state b = Some ''active'' \<and>
                  be_wait_event_type b \<noteq> Some ''Lock'' \<and> be_wait_event b \<noteq> Some ''ClientWrite'')
       (ga_backends (ob_gate (cy_obs c)))"

definition starts_with :: "string \<Rightarrow> string \<Rightarrow> bool" where
  "starts_with s start \<longleftrightarrow> take (length start) s = start"

definition es_section :: "program_facts \<Rightarrow> busy_section \<Rightarrow> cycle \<Rightarrow> cycle" where
  "es_section p s c =
     (if \<not> starts_with (sc_what s) ES_SECTION_PREFIX then c
      else if sc_what s = INVALIDATION_SECTION then
        (if SECTION_TRIP_S < sc_age_s s
         then send_alert (pf_name p, ''re-evaluation'') ''WARNING'' False [] False c else c)
      else if sc_age_s s \<le> SECTION_WARN_S \<or> sc_idle_s s < ES_IDLE_WARN_S then c
      else
        let c1 = add_half (pf_name p) c
        in if SECTION_TRIP_S < sc_age_s s \<and> ES_IDLE_TRIP_S \<le> sc_idle_s s \<and> holder_idle c1 (sc_tid s) \<and>
              \<not> es_statement_running c1 p
           then add_trip p ''R3'' c1 else add_warning p ''R3'' c1)"

definition max_list :: "rat list \<Rightarrow> rat" where
  "max_list xs = foldl max (hd xs) (tl xs)"

definition ss_section :: "program_facts \<Rightarrow> busy_section list \<Rightarrow> cycle \<Rightarrow> cycle" where
  "ss_section p sections c =
     (let ages = map sc_age_s (filter (\<lambda>s. sc_what s = ''score'') sections)
      in if ages = [] \<or> max_list ages \<le> SECTION_WARN_S then c
         else if SECTION_TRIP_S < max_list ages then add_trip p ''R3'' (add_half (pf_name p) c)
         else add_warning p ''R3'' (add_half (pf_name p) c))"

definition ps_section :: "program_facts \<Rightarrow> busy_section list \<Rightarrow> cycle \<Rightarrow> cycle" where
  "ps_section p sections c =
     (let idles = map sc_idle_s (filter (\<lambda>s. sc_what s = ''send'') sections);
          c1 = add_half (pf_name p) c;
          rankings = ob_rankings (cy_obs c)
      in if idles = [] \<or> max_list idles \<le> SECTION_WARN_S then c
         else if SECTION_TRIP_S < max_list idles then
           (if rankings \<noteq> [] \<and> list_all (\<lambda>(_, probe). pr_ok probe) rankings then add_trip p ''R3'' c1
            else add_warning p ''R3'' (add_unjudged (pf_name p) c1))
         else add_warning p ''R3'' c1)"

definition section_trip :: "cycle \<Rightarrow> program_facts \<Rightarrow> cycle" where
  "section_trip c p =
     (case busy_sections (dict_get (ob_health (cy_obs c)) (pf_name p)) of
        [] \<Rightarrow> c
      | s # ss \<Rightarrow>
          if pf_kind p = Some ''EvaluationService'' then es_section p s c
          else if pf_kind p = Some ''ScoringService'' then ss_section p (s # ss) c
          else if pf_kind p = Some ''ProxyService'' then ps_section p (s # ss) c
          else c)"

definition section_trips :: "cycle \<Rightarrow> cycle" where
  "section_trips c = foldl section_trip c (cy_running c)"


subsection \<open>R4: Workers\<close>

definition is_true :: "json \<Rightarrow> bool" where "is_true v \<longleftrightarrow> v = JBool True"

definition disabled_too_long :: "cycle \<Rightarrow> program_facts \<Rightarrow> (string, json) dict \<Rightarrow> bool" where
  "disabled_too_long c p status =
     (let disabled_at = json_key ''disabled_at'' status
      in is_true (json_key ''disabled_by_timeout'' status) \<and> is_number disabled_at \<and>
         (case pf_start_wall p of None \<Rightarrow> False | Some start \<Rightarrow> start < num_val disabled_at) \<and>
         WORKER_DISABLED_TRIP_S \<le> age (cy_wall c) (num_val disabled_at))"

definition never_connected :: "cycle \<Rightarrow> program_facts \<Rightarrow> (string, json) dict \<Rightarrow>
    (string \<times> (string, json) dict) list \<Rightarrow> json \<Rightarrow> bool" where
  "never_connected c p status sts es_uptime =
     (let disabled_at = json_key ''disabled_at'' status
      in \<not> (is_true (json_key ''disabled_by_timeout'' status) \<and> is_number disabled_at \<and>
             age (cy_wall c) (num_val disabled_at) < WORKER_DISABLED_TRIP_S) \<and>
         json_key ''connected'' status = JBool False \<and>
         list_ex (\<lambda>(shard, other). Some shard \<noteq> map_option str_int (pf_shard p) \<and> is_true (json_key ''connected'' other)) sts \<and>
         is_number es_uptime \<and>
         (case pf_start_wall p of None \<Rightarrow> False | Some start \<Rightarrow> WORKER_UNCONNECTED_TRIP_S \<le> age (cy_wall c) start))"

definition judge_worker :: "(string \<times> (string, json) dict) list \<Rightarrow> json \<Rightarrow> cycle \<Rightarrow> program_facts \<Rightarrow> cycle" where
  "judge_worker sts es_uptime c p =
     (if pf_kind p \<noteq> Some ''Worker'' then c
      else
        case Option.bind (pf_shard p) (\<lambda>i. dict_get sts (str_int i)) of
          None \<Rightarrow> add_unjudged (pf_name p) c
        | Some status \<Rightarrow>
            if disabled_too_long c p status \<or> never_connected c p status sts es_uptime
            then add_trip p ''R4'' (add_failing (pf_name p) c)
            else if \<not> is_true (json_key ''connected'' status) \<or> is_true (json_key ''disabled_by_timeout'' status)
            then (add_unjudged (pf_name p) c)\<lparr>cy_unconnected := List.insert (pf_name p) (cy_unconnected c)\<rparr>
            else c)"

definition workers_unjudged :: "cycle \<Rightarrow> cycle" where
  "workers_unjudged c = foldl (\<lambda>c p. if pf_kind p = Some ''Worker'' then add_unjudged (pf_name p) c else c) c (cy_running c)"

definition worker_statuses :: "(string, json) dict \<Rightarrow> (string \<times> (string, json) dict) list" where
  "worker_statuses workers =
     List.map_filter (\<lambda>(shard, v). case v of JDict d \<Rightarrow> Some (shard, d) | _ \<Rightarrow> None) workers"

definition worker_trips :: "cycle \<Rightarrow> cycle" where
  "worker_trips c =
     (case (find (\<lambda>p. pf_kind p = Some ''EvaluationService'') (cy_running c), ob_workers (cy_obs c)) of
        (Some es, Some (JDict workers)) \<Rightarrow>
          if \<not> (case dict_get (ob_rpc (cy_obs c)) (pf_name es) of None \<Rightarrow> False | Some probe \<Rightarrow> pr_ok probe)
          then workers_unjudged c
          else
            let es_uptime = (case dict_get (ob_health (cy_obs c)) (pf_name es) of
                  Some (JDict d) \<Rightarrow> json_key ''uptime_s'' d | _ \<Rightarrow> JNull)
            in if is_number es_uptime \<and> num_val es_uptime < ES_UP_FOR_WORKERS_S then workers_unjudged c
               else foldl (judge_worker (worker_statuses workers) es_uptime) c (cy_running c)
      | _ \<Rightarrow> workers_unjudged c)"



subsection \<open>Alerts that lead to no action\<close>

definition ranking_alert :: "cycle \<Rightarrow> string \<times> probe \<Rightarrow> cycle" where
  "ranking_alert c entry =
     (let (address, probe) = entry;
          previous = (case dict_get (po_ranking_misses c) address of None \<Rightarrow> 0 | Some n \<Rightarrow> n);
          n = (if pr_ok probe then 0 else previous + 1);
          key = (''ranking '' @ address, ''ranking'');
          c1 = c\<lparr>po_ranking_misses := dict_set address n (po_ranking_misses c)\<rparr>
      in if RANKING_MISSES_TO_ALERT \<le> n then send_alert key ''WARNING'' (n = RANKING_MISSES_TO_ALERT) [] True c1
         else if pr_ok probe \<and> RANKING_MISSES_TO_ALERT \<le> previous then resolve_key key c1
         else c1)"

definition ranking_alerts :: "cycle \<Rightarrow> cycle" where
  "ranking_alerts c = foldl ranking_alert c (ob_rankings (cy_obs c))"

definition absent_alerts :: "cycle \<Rightarrow> cycle" where
  "absent_alerts c =
     foldl (\<lambda>c p. if managed p \<and> pf_state p = ''ABSENT''
                  then send_alert (pf_name p, ''absent'') ''WARNING'' False [] False c else c) c (ob_programs (cy_obs c))"

text \<open>\<^verbatim>\<open>{program.name: program for program in self.obs.programs}\<close>: of two with one name the last counts.\<close>

definition by_name :: "cycle \<Rightarrow> string \<Rightarrow> program_facts option" where
  "by_name c name = dict_get (rev (map (\<lambda>p. (pf_name p, p)) (ob_programs (cy_obs c)))) name"

definition tripped :: "cycle \<Rightarrow> string list" where
  "tripped c = map (\<lambda>t. pf_name (tr_program t)) (cy_trips c)"

definition help_line :: "cycle \<Rightarrow> string \<Rightarrow> cycle" where
  "help_line c name =
     (let ps = (case dict_get (po_programs c) name of None \<Rightarrow> new_program_state | Some ps \<Rightarrow> ps) in
      case ps_restarted_mono ps of
        None \<Rightarrow> c
      | Some restarted \<Rightarrow>
          if name \<in> set (cy_unjudged c) - set (cy_unconnected c) then c
          else
            let answers = (case by_name c name of
                  None \<Rightarrow> False
                | Some p \<Rightarrow> pf_state p = ''RUNNING'' \<and> pf_pid p \<noteq> ps_restarted_pid ps \<and> name \<notin> set (cy_failing c) \<and>
                    name \<notin> set (tripped c) \<and> name \<notin> set (cy_unconnected c))
            in if answers \<or> DID_IT_HELP_S \<le> cy_mono c - restarted
               then emit (alert_of (name, ''help'') ''WARNING'' [])
                 (c\<lparr>po_programs := dict_set name (ps\<lparr>ps_restarted_mono := None\<rparr>) (po_programs c)\<rparr>)
               else c)"

definition did_it_help :: "cycle \<Rightarrow> cycle" where
  "did_it_help c = foldl help_line c (dict_keys (po_programs c))"


subsection \<open>Holds\<close>

text \<open>\<^verbatim>\<open>_held_alert\<close>.\<close>

definition held_alert :: "alert_key \<Rightarrow> string list \<Rightarrow> bool \<Rightarrow> cycle \<Rightarrow> cycle" where
  "held_alert key codes opened c =
     (let headline = hd codes;
          previous = dict_get (po_held_headline c) key;
          announced = (case dict_get (po_held_announced c) key of None \<Rightarrow> [] | Some xs \<Rightarrow> xs);
          urgent = (headline \<in> set URGENT_HOLDS \<and> headline \<notin> set announced);
          c1 = c\<lparr>po_held_headline := dict_set key headline (po_held_headline c)\<rparr>;
          c2 = (if headline \<in> set URGENT_HOLDS
                then c1\<lparr>po_held_announced := dict_set key (List.insert headline announced) (po_held_announced c1)\<rparr> else c1)
      in send_alert key ''WARNING'' (opened \<or> previous = None \<or> urgent) codes True c2)"

text \<open>The headline of a group, and the other holds of any of its members in the order of \<^verbatim>\<open>HOLDS\<close>.\<close>

definition other_codes :: "string \<Rightarrow> string list list \<Rightarrow> string list" where
  "other_codes headline codes = filter (\<lambda>code. code \<in> set (concat codes) \<and> code \<noteq> headline) HOLDS"

definition held_starts :: "string list list \<Rightarrow> cycle \<Rightarrow> cycle" where
  "held_starts held c =
     (if held = [] then end_episode FATAL_KEY c
      else
        let headline = (case find (\<lambda>code. list_all (\<lambda>mine. code \<in> set mine) held) HOLDS of
              Some code \<Rightarrow> code
            | None \<Rightarrow> hd (filter (\<lambda>code. code \<in> set (concat held)) HOLDS))
        in held_alert FATAL_KEY (headline # other_codes headline held) False c)"

definition left_to_you :: "program_facts list \<Rightarrow> cycle \<Rightarrow> cycle" where
  "left_to_you left c =
     (let joined = list_ex (\<lambda>p. pf_name p \<notin> set (po_fatal_left c)) left;
          c1 = c\<lparr>po_fatal_left := remdups (map pf_name left)\<rparr>
      in if left = []
         then c1\<lparr>po_open_alerts := dict_del FATAL_LEFT_KEY (po_open_alerts c1),
                  po_alert_sent := dict_del FATAL_LEFT_KEY (po_alert_sent c1)\<rparr>
         else send_alert FATAL_LEFT_KEY ''ERROR'' joined [] True c1)"

definition lock_wait :: "cycle \<Rightarrow> bool" where
  "lock_wait c \<longleftrightarrow>
     ga_green (ob_gate (cy_obs c)) \<and>
     list_ex (\<lambda>b. starts_with (case be_application_name b of None \<Rightarrow> '''' | Some a \<Rightarrow> a) ''cms'' \<and>
                  be_wait_event_type b = Some ''Lock'' \<and>
                  (case be_query_age_s b of None \<Rightarrow> False | Some a \<Rightarrow> LOCK_WAIT_S < a)) (ga_backends (ob_gate (cy_obs c)))"

definition over_budget :: "cycle \<Rightarrow> program_facts \<Rightarrow> bool" where
  "over_budget c p \<longleftrightarrow>
     PROGRAM_BUDGET \<le> ledger_count (pf_name p) RESTART (shadow_for (klass p) c) (cy_wall c) (po_ledger c)"

definition correlation :: "cycle \<Rightarrow> program_facts \<Rightarrow> bool" where
  "correlation c p =
     (if pf_kind p = Some ''Worker'' then
        2 \<le> length (remdups (map (\<lambda>t. label (tr_program t))
          (filter (\<lambda>t. pf_kind (tr_program t) = Some ''Worker'' \<and> \<not> over_budget c (tr_program t)) (cy_trips c))))
      else
        2 \<le> length (filter (\<lambda>q. pf_kind q \<noteq> Some ''Worker'' \<and> klass q = klass p \<and> pf_name q \<in> set (cy_half c) \<and>
                               \<not> over_budget c q) (cy_running c)))"

definition global_failure :: "cycle \<Rightarrow> bool" where
  "global_failure c =
     (let http = ob_http (cy_obs c); rpc = ob_rpc (cy_obs c);
          probed = filter (\<lambda>p. kind_in p HEALTH_KINDS \<and> (dict_get http (pf_name p) \<noteq> None \<or> dict_get rpc (pf_name p) \<noteq> None))
            (cy_running c);
          failed = filter (\<lambda>p. list_ex (\<lambda>probes. case dict_get probes (pf_name p) of None \<Rightarrow> False | Some probe \<Rightarrow> \<not> pr_ok probe)
            [http, rpc]) probed
      in probed \<noteq> [] \<and> GLOBAL_FAILING_FRACTION * of_nat (length probed) < of_nat (length failed))"

text \<open>\<^verbatim>\<open>self.mono - self.state.started_mono\<close>: without a start there is no difference.\<close>

definition since_start :: "cycle \<Rightarrow> rat res" where
  "since_start c = (case po_started_mono c of None \<Rightarrow> Inl TypeError | Some t \<Rightarrow> Inr (cy_mono c - t))"

definition in_grace :: "cycle \<Rightarrow> program_facts \<Rightarrow> bool res" where
  "in_grace c p =
     res_bind (since_start c) (\<lambda>s. Inr
       (s < GRACE_S \<or>
        (case pf_start_wall p of None \<Rightarrow> False | Some start \<Rightarrow> age (cy_wall c) start < GRACE_S) \<or>
        (case Option.bind (dict_get (po_programs c) (pf_name p)) ps_last_action_mono of
           None \<Rightarrow> False | Some t \<Rightarrow> cy_mono c - t < GRACE_S)))"

definition over_limit :: "cycle \<Rightarrow> program_facts \<Rightarrow> string \<Rightarrow> bool \<Rightarrow> bool" where
  "over_limit c p action shadow \<longleftrightarrow>
     free_at (pf_name p) (pool_of (klass p)) action shadow (cy_wall c) (po_ledger c) \<noteq> None"

definition gate_hold :: "cycle \<Rightarrow> bool res" where
  "gate_hold c =
     (if \<not> ga_green (ob_gate (cy_obs c)) then Inr True
      else case po_green_since_mono c of None \<Rightarrow> Inl TypeError | Some t \<Rightarrow> Inr (cy_mono c - t < GREEN_BEFORE_RESTART_S))"

definition codes_of :: "(string \<times> bool) list \<Rightarrow> string list" where
  "codes_of xs = map fst (filter snd xs)"

definition holds :: "cycle \<Rightarrow> program_facts \<Rightarrow> bool \<Rightarrow> string list res" where
  "holds c p shadow =
     res_bind (gate_hold c) (\<lambda>h2.
     res_bind (in_grace c p) (\<lambda>h6. Inr
       (codes_of [(''H1'', \<not> ob_supervisor_ok (cy_obs c)), (''H2'', h2), (''H3'', lock_wait c), (''H4'', correlation c p),
         (''H5'', global_failure c), (''H6'', h6), (''H7'', over_limit c p RESTART shadow),
         (''H8'', cy_acted c \<or> ob_in_flight (cy_obs c))])))"



subsection \<open>R5: programs that an outage left FATAL\<close>

definition class_index :: "string \<Rightarrow> nat" where
  "class_index k = length (takeWhile (\<lambda>x. x \<noteq> k) CLASS_ORDER)"

definition open_incident :: "string \<Rightarrow> string \<Rightarrow> cycle \<Rightarrow> cycle" where
  "open_incident name rule c =
     (let l = po_ledger c
      in if dict_get (lg_incidents l) name = None
         then c\<lparr>po_ledger := l\<lparr>lg_incidents :=
                  dict_set name \<lparr>in_rule = rule, in_opened = cy_wall c, in_passes = 0\<rparr> (lg_incidents l)\<rparr>\<rparr>
         else c)"

definition fatal_programs :: "cycle \<Rightarrow> program_facts list" where
  "fatal_programs c =
     sort_key (\<lambda>p. (class_index (klass p), pf_name p)) (filter (\<lambda>p. managed p \<and> pf_state p = ''FATAL'') (ob_programs (cy_obs c)))"

definition eligible :: "cycle \<Rightarrow> program_facts \<Rightarrow> bool" where
  "eligible c p =
     (case pf_start_wall p of None \<Rightarrow> False | Some start \<Rightarrow> red_since (start - FATAL_RED_LOOKBACK_S) (po_ledger c))"

definition start_holds :: "cycle \<Rightarrow> rat \<Rightarrow> program_facts \<Rightarrow> string list" where
  "start_holds c since p =
     codes_of [(''H1'', \<not> ob_supervisor_ok (cy_obs c)), (''H6'', since < GRACE_S),
       (''H7'', over_limit c p START (shadow_for (klass p) c)), (''H8'', cy_acted c \<or> ob_in_flight (cy_obs c))]"

definition book_start :: "bool \<Rightarrow> bool \<Rightarrow> cycle \<Rightarrow> program_facts \<Rightarrow> cycle" where
  "book_start shadow would c p =
     forget_episodes (pf_name p)
       (c\<lparr>po_ledger := book \<lparr>bk_wall = cy_wall c, bk_program = pf_name p, bk_label = label p, bk_pool = pool_of (klass p),
            bk_action = START, bk_rule = ''R5'', bk_would = would, bk_pid = None\<rparr> shadow (po_ledger c)\<rparr>)"

definition start_batch :: "bool \<Rightarrow> program_facts list \<Rightarrow> cycle \<Rightarrow> cycle" where
  "start_batch shadow batch c =
     (if batch = [] then c
      else
        let would = (po_mode c = OBSERVE \<or> shadow)
        in emit ((new_decision START)\<lparr>dc_key := FATAL_KEY, dc_programs := map pf_name batch, dc_rule := ''R5'',
                   dc_would := would, dc_shadow := shadow\<rparr>)
             ((foldl (book_start shadow would) c batch)\<lparr>cy_acted := True\<rparr>))"

definition fatal_starts :: "cycle \<Rightarrow> cycle res" where
  "fatal_starts c =
     (let fatal = fatal_programs c;
          candidates = filter (eligible c) fatal;
          c1 = left_to_you (filter (\<lambda>p. p \<notin> set candidates) fatal) c
      in if candidates = [] then Inr (end_episode FATAL_KEY c1)
         else if \<not> ga_green (ob_gate (cy_obs c1)) \<or> po_green_cycles c1 < FATAL_GREEN_CYCLES then Inr c1
         else res_bind (since_start c1) (\<lambda>since.
           let c2 = foldl (\<lambda>c p. open_incident (pf_name p) ''R5'' c) c1 candidates;
               held = filter (\<lambda>xs. xs \<noteq> []) (map (start_holds c1 since) candidates);
               free = filter (\<lambda>p. start_holds c1 since p = []) candidates
           in Inr (start_batch True (filter (\<lambda>p. shadow_for (klass p) c1) free)
                (start_batch False (filter (\<lambda>p. \<not> shadow_for (klass p) c1) free) (held_starts held c2)))))"


subsection \<open>Actions\<close>

text \<open>\<^verbatim>\<open>_early_warnings\<close>: the line quotes the holds, so that it computes them.\<close>

definition early_warnings :: "cycle \<Rightarrow> cycle res" where
  "early_warnings c =
     res_fold (\<lambda>c w.
       res_bind (holds c (tr_program w) (shadow_for (klass (tr_program w)) c)) (\<lambda>_.
         Inr (send_alert (pf_name (tr_program w), tr_rule w @ '' warning'') ''WARNING'' False [] False c))) c (cy_warnings c)"

definition restart :: "trip \<Rightarrow> bool \<Rightarrow> cycle \<Rightarrow> cycle res" where
  "restart t shadow c =
     (let p = tr_program t;
          would = (po_mode c = OBSERVE \<or> shadow);
          c1 = c\<lparr>po_ledger := book \<lparr>bk_wall = cy_wall c, bk_program = pf_name p, bk_label = label p, bk_pool = pool_of (klass p),
                   bk_action = RESTART, bk_rule = tr_rule t, bk_would = would, bk_pid = pf_pid p\<rparr> shadow (po_ledger c),
                 cy_acted := True\<rparr>
      in res_bind (lookup (po_programs c1) (pf_name p)) (\<lambda>ps.
         let ps1 = ps\<lparr>ps_last_action_mono := Some (cy_mono c1)\<rparr>;
             ps2 = (if would then ps1 else ps1\<lparr>ps_restarted_mono := Some (cy_mono c1), ps_restarted_pid := pf_pid p\<rparr>);
             key = (pf_name p, tr_rule t);
             c2 = forget_episodes (pf_name p) (c1\<lparr>po_programs := dict_set (pf_name p) ps2 (po_programs c1)\<rparr>)
         in Inr (emit ((new_decision RESTART)\<lparr>dc_key := key, dc_program := pf_name p, dc_rule := tr_rule t, dc_would := would,
                    dc_shadow := shadow\<rparr>)
              (c2\<lparr>po_alert_sent := dict_set key (cy_mono c2) (po_alert_sent c2)\<rparr>))))"

record held_trip =
  ht_trip :: trip
  ht_codes :: "string list"
  ht_opened :: bool

text \<open>\<^verbatim>\<open>_held\<close>.\<close>

definition hold_trip :: "cycle \<Rightarrow> held_trip \<Rightarrow> cycle" where
  "hold_trip c h = held_alert (pf_name (tr_program (ht_trip h)), tr_rule (ht_trip h)) (ht_codes h) (ht_opened h) c"

definition add_held :: "(string, held_trip list) dict \<Rightarrow> held_trip \<Rightarrow> (string, held_trip list) dict" where
  "add_held d h =
     (let code = hd (ht_codes h)
      in dict_set code ((case dict_get d code of None \<Rightarrow> [] | Some hs \<Rightarrow> hs) @ [h]) d)"

definition held_workers :: "held_trip list \<Rightarrow> cycle \<Rightarrow> bool \<times> cycle" where
  "held_workers held c =
     (let by_headline = foldl add_held [] held;
          headline = find (\<lambda>code. 2 \<le> length (case dict_get by_headline code of None \<Rightarrow> [] | Some hs \<Rightarrow> hs)) HOLDS;
          c1 = foldl hold_trip c (concat (map snd (filter (\<lambda>(code, _). Some code \<noteq> headline) by_headline)))
      in case headline of
           None \<Rightarrow> (False, c1)
         | Some code \<Rightarrow>
             (True, held_alert WORKERS_KEY
                (code # other_codes code (map ht_codes (the (dict_get by_headline code)))) False c1))"

definition track_workers_episode :: "bool \<Rightarrow> cycle \<Rightarrow> cycle" where
  "track_workers_episode grouped c =
     (if grouped \<or> dict_get (po_held_headline c) WORKERS_KEY = None then c\<lparr>po_workers_quiet := 0\<rparr>
      else
        let workers = map pf_name (filter (\<lambda>p. pf_kind p = Some ''Worker'') (cy_running c))
        in if workers \<noteq> [] \<and> set workers \<subseteq> set (cy_unjudged c) then c
           else if PASSES_TO_RESOLVE \<le> int (po_workers_quiet c) + 1
           then end_episode WORKERS_KEY (c\<lparr>po_workers_quiet := 0\<rparr>)
           else c\<lparr>po_workers_quiet := po_workers_quiet c + 1\<rparr>)"

definition act_on_trip :: "cycle \<times> held_trip list \<Rightarrow> trip \<Rightarrow> (cycle \<times> held_trip list) res" where
  "act_on_trip s t =
     (let (c, held) = s;
          p = tr_program t;
          opened = (dict_get (lg_incidents (po_ledger c)) (pf_name p) = None);
          c1 = open_incident (pf_name p) (tr_rule t) c;
          shadow = shadow_for (klass p) c1
      in res_bind (holds c1 p shadow) (\<lambda>codes.
         if codes \<noteq> [] \<and> pf_kind p = Some ''Worker'' then Inr (c1, held @ [\<lparr>ht_trip = t, ht_codes = codes, ht_opened = opened\<rparr>])
         else if codes \<noteq> [] then Inr (hold_trip c1 \<lparr>ht_trip = t, ht_codes = codes, ht_opened = opened\<rparr>, held)
         else res_bind (restart t shadow c1) (\<lambda>c2. Inr (c2, held))))"

definition act_on_trips :: "cycle \<Rightarrow> cycle res" where
  "act_on_trips c =
     res_bind (early_warnings c) (\<lambda>c1.
     res_bind (res_fold act_on_trip (c1, []) (cy_trips c1)) (\<lambda>(c2, held).
       let (grouped, c3) = held_workers held c2 in Inr (track_workers_episode grouped c3)))"


subsection \<open>Incidents and the cycle\<close>

definition count_pass :: "cycle \<Rightarrow> (string, incident) dict \<times> program_facts list \<Rightarrow> string \<times> incident \<Rightarrow>
    (string, incident) dict \<times> program_facts list" where
  "count_pass c s entry =
     (let (incidents, resolved) = s; (name, i) = entry in
      case by_name c name of
        None \<Rightarrow> s
      | Some p \<Rightarrow>
          if pf_state p \<noteq> ''RUNNING'' then s
          else if name \<in> set (tripped c) \<or> name \<in> set (cy_failing c) then (dict_set name (i\<lparr>in_passes := 0\<rparr>) incidents, resolved)
          else if name \<in> set (cy_unjudged c) then s
          else if PASSES_TO_RESOLVE \<le> in_passes i + 1 then (dict_del name incidents, resolved @ [p])
          else (dict_set name (i\<lparr>in_passes := in_passes i + 1\<rparr>) incidents, resolved))"

definition resolve_workers :: "program_facts list \<Rightarrow> cycle \<Rightarrow> cycle" where
  "resolve_workers workers c =
     emit (alert_of (''workers'', ''resolved'') ''WARNING'' [])
       (foldl (\<lambda>c p. close_alerts (pf_name p) c) c (sort_key (\<lambda>p. the (pf_shard p)) workers))"


definition update_incidents :: "cycle \<Rightarrow> cycle" where
  "update_incidents c =
     (let (incidents, resolved) = foldl (count_pass c) (lg_incidents (po_ledger c), []) (lg_incidents (po_ledger c));
          c1 = c\<lparr>po_ledger := (po_ledger c)\<lparr>lg_incidents := incidents\<rparr>\<rparr>;
          workers = filter (\<lambda>p. pf_kind p = Some ''Worker'') resolved;
          together = (2 \<le> length workers);
          c2 = foldl (\<lambda>c p. if together \<and> pf_kind p = Some ''Worker'' then c else resolve_program (pf_name p) c) c1 resolved
      in if together then resolve_workers workers c2 else c2)"

definition summary :: "cycle \<Rightarrow> cycle res" where
  "summary c =
     (case po_summary_mono c of
        None \<Rightarrow> Inl TypeError
      | Some t \<Rightarrow>
          if cy_mono c - t < SUMMARY_PERIOD_S then Inr c
          else Inr ((emit (alert_of (''-'', ''summary'') ''INFO'' []) c)\<lparr>po_summary_mono := Some (cy_mono c)\<rparr>))"

text \<open>\<^verbatim>\<open>run\<close>: what every cycle does, and what only a cycle that is not starved does.\<close>

definition cycle_begin :: "cycle \<Rightarrow> cycle" where
  "cycle_begin c =
     (let c1 = c\<lparr>po_started_mono := (case po_started_mono c of None \<Rightarrow> Some (cy_mono c) | Some t \<Rightarrow> Some t),
                 po_summary_mono := (case po_summary_mono c of None \<Rightarrow> Some (cy_mono c) | Some t \<Rightarrow> Some t),
                 po_ledger := prune (cy_wall c) (po_ledger c)\<rparr>
      in record_holder_cpu (track_programs (track_pause (track_gate c1))))"

definition cycle_judge :: "cycle \<Rightarrow> cycle res" where
  "cycle_judge c =
     res_bind (liveness_trips (check_pids c)) (\<lambda>c1.
       Inr (did_it_help (absent_alerts (ranking_alerts (worker_trips (section_trips c1))))))"

definition cycle_run :: "cycle \<Rightarrow> cycle res" where
  "cycle_run c =
     (let c1 = cycle_begin c in
      if cy_starved c1 then summary c1
      else
        res_bind (cycle_judge c1) (\<lambda>c2.
        res_bind (fatal_starts c2) (\<lambda>c3.
        res_bind (act_on_trips c3) (\<lambda>c4.
          summary (update_incidents c4)))))"

definition decide :: "policy_state \<Rightarrow> observation \<Rightarrow> rat \<Rightarrow> rat \<Rightarrow> (policy_state \<times> decision list) res" where
  "decide st obs now wall =
     res_bind (cycle_run (new_cycle st obs now wall)) (\<lambda>c. Inr (policy_state.truncate c, cy_decisions c))"



section \<open>What the phases leave alone\<close>

text \<open>
  Everything that a decision to act depends on besides the trips: the alerts of a cycle change none of it.
\<close>

definition actions :: "decision list \<Rightarrow> decision list" where
  "actions ds = filter (\<lambda>d. dc_action d \<noteq> ALERT) ds"

definition ledger_frame :: "ledger \<Rightarrow> booking list \<times> booking list \<times> (rat \<times> rat option) list \<times> rat option" where
  "ledger_frame l = (lg_real l, lg_shadow l, lg_red l, lg_exhausted_until l)"

definition windows :: "(string, program_state) dict \<Rightarrow> string \<Rightarrow> bool list option" where
  "windows programs name = map_option ps_window (dict_get programs name)"

definition state_frame where
  "state_frame c =
     (po_mode c, po_restart_classes c, ledger_frame (po_ledger c), po_started_mono c, po_green_since_mono c,
      po_green_cycles c, po_summary_mono c, windows (po_programs c))"

definition cycle_frame where
  "cycle_frame c = (cy_obs c, cy_mono c, cy_wall c, cy_acted c, cy_starved c, cy_running c, actions (cy_decisions c))"

definition frame where
  "frame c = (state_frame c, cycle_frame c)"

lemmas frame_defs = frame_def state_frame_def cycle_frame_def ledger_frame_def

lemma frameD:
  assumes "frame c' = frame c"
  shows "po_mode c' = po_mode c" "po_restart_classes c' = po_restart_classes c" "lg_real (po_ledger c') = lg_real (po_ledger c)"
    "lg_shadow (po_ledger c') = lg_shadow (po_ledger c)" "lg_red (po_ledger c') = lg_red (po_ledger c)"
    "lg_exhausted_until (po_ledger c') = lg_exhausted_until (po_ledger c)"
    "po_started_mono c' = po_started_mono c" "po_green_since_mono c' = po_green_since_mono c" "po_green_cycles c' = po_green_cycles c"
    "po_summary_mono c' = po_summary_mono c"
    "windows (po_programs c') = windows (po_programs c)"
    "cy_obs c' = cy_obs c" "cy_mono c' = cy_mono c" "cy_wall c' = cy_wall c" "cy_acted c' = cy_acted c" "cy_starved c' = cy_starved c"
    "cy_running c' = cy_running c" "actions (cy_decisions c') = actions (cy_decisions c)"
  using assms by (auto simp: frame_defs)

lemma frame_foldl:
  assumes "\<And>c x. x \<in> set xs \<Longrightarrow> frame (f c x) = frame c"
  shows "frame (foldl f c xs) = frame c"
  using assms by (induction xs arbitrary: c) simp_all

lemma actions_simps [simp]:
  "actions [] = []" "actions (xs @ ys) = actions xs @ actions ys"
  "actions (d # ds) = (if dc_action d = ALERT then actions ds else d # actions ds)"
  by (simp_all add: actions_def)

lemma dc_action_alert_of [simp]: "dc_action (alert_of key level codes) = ALERT"
  by (simp add: alert_of_def new_decision_def)

lemma frame_emit_alert [simp]: "frame (emit (alert_of key level codes) c) = frame c"
  by (simp add: frame_defs emit_def)

lemma frame_send_alert [simp]: "frame (send_alert key level change codes keep_open c) = frame c"
  by (simp add: send_alert_def frame_defs emit_def Let_def)

lemma frame_close_keys [simp]: "frame (close_keys P c) = frame c"
  by (simp add: close_keys_def frame_defs)

lemma frame_resolve_key [simp]: "frame (resolve_key key c) = frame c"
  by (simp add: resolve_key_def)

lemma frame_resolve_program [simp]: "frame (resolve_program name c) = frame c"
  by (simp add: resolve_program_def close_alerts_def)

lemma frame_forget_episodes [simp]: "frame (forget_episodes name c) = frame c"
  by (simp add: forget_episodes_def frame_defs)

lemma frame_end_episode [simp]: "frame (end_episode key c) = frame c"
  by (simp add: end_episode_def)

lemma frame_add [simp]:
  "frame (add_failing name c) = frame c" "frame (add_half name c) = frame c" "frame (add_unjudged name c) = frame c"
  "frame (add_trip p rule c) = frame c" "frame (add_warning p rule c) = frame c"
  "frame (c\<lparr>cy_unconnected := xs\<rparr>) = frame c"
  by (simp_all add: add_failing_def add_half_def add_unjudged_def add_trip_def add_warning_def frame_defs)

lemma frame_check_pids [simp]: "frame (check_pids c) = frame c"
  unfolding check_pids_def
  by (rule frame_foldl) (simp add: check_pid_def split: option.split json.split)

lemma frame_sections [simp]:
  "frame (es_section p s c) = frame c" "frame (ss_section p ss c) = frame c" "frame (ps_section p ss c) = frame c"
  by (simp_all add: es_section_def ss_section_def ps_section_def Let_def)

lemma frame_section_trips [simp]: "frame (section_trips c) = frame c"
  unfolding section_trips_def
  by (rule frame_foldl) (simp add: section_trip_def split: list.split)

lemma frame_workers_unjudged [simp]: "frame (workers_unjudged c) = frame c"
  unfolding workers_unjudged_def by (rule frame_foldl) simp

lemma frame_judge_worker [simp]: "frame (judge_worker sts uptime c p) = frame c"
  by (simp add: judge_worker_def split: option.split)

lemma frame_worker_trips [simp]: "frame (worker_trips c) = frame c"
  by (auto simp: worker_trips_def Let_def intro: frame_foldl split: option.split json.split)

lemma frame_ranking_alerts [simp]: "frame (ranking_alerts c) = frame c"
proof -
  have "frame (c\<lparr>po_ranking_misses := m\<rparr>) = frame c" for c :: cycle and m
    by (simp add: frame_defs)
  then show ?thesis
    unfolding ranking_alerts_def by (intro frame_foldl) (auto simp: ranking_alert_def Let_def split: prod.split)
qed

lemma frame_absent_alerts [simp]: "frame (absent_alerts c) = frame c"
  unfolding absent_alerts_def by (rule frame_foldl) simp

text \<open>Storing an entry with the window it had.\<close>

lemma frame_set_program:
  assumes "dict_get (po_programs c) name = Some ps" "ps_window ps' = ps_window ps"
  shows "frame (c\<lparr>po_programs := dict_set name ps' (po_programs c)\<rparr>) = frame c"
proof -
  have "windows (dict_set name ps' (po_programs c)) = windows (po_programs c)"
    using assms by (auto simp: windows_def fun_eq_iff)
  then show ?thesis by (simp add: frame_defs)
qed

lemma frame_help_line: "frame (help_line c name) = frame c"
proof (cases "dict_get (po_programs c) name")
  case None
  then show ?thesis by (simp add: help_line_def new_program_state_def)
next
  case (Some ps)
  then show ?thesis by (simp add: help_line_def Let_def frame_set_program [OF Some] split: option.split)
qed

lemma frame_did_it_help [simp]: "frame (did_it_help c) = frame c"
  unfolding did_it_help_def by (rule frame_foldl) (rule frame_help_line)

lemma frame_held_alert [simp]: "frame (held_alert key codes opened c) = frame c"
proof -
  have "frame (c\<lparr>po_held_headline := m\<rparr>) = frame c" "frame (c\<lparr>po_held_announced := m'\<rparr>) = frame c" for c :: cycle and m m'
    by (simp_all add: frame_defs)
  then show ?thesis by (simp add: held_alert_def Let_def)
qed

lemma frame_held_starts [simp]: "frame (held_starts held c) = frame c"
  by (simp add: held_starts_def Let_def)

lemma frame_left_to_you [simp]: "frame (left_to_you left c) = frame c"
proof -
  have "frame (c\<lparr>po_fatal_left := xs\<rparr>) = frame c" "frame (c\<lparr>po_open_alerts := m, po_alert_sent := m'\<rparr>) = frame c"
    for c :: cycle and xs m m'
    by (simp_all add: frame_defs)
  then show ?thesis by (simp add: left_to_you_def Let_def)
qed

lemma frame_open_incident [simp]: "frame (open_incident name rule c) = frame c"
  by (simp add: open_incident_def frame_defs Let_def)

lemma frame_hold_trip [simp]: "frame (hold_trip c h) = frame c"
  by (simp add: hold_trip_def)

lemma frame_held_workers [simp]: "frame (snd (held_workers held c)) = frame c"
  by (auto simp: held_workers_def Let_def intro: frame_foldl split: option.split)

lemma frame_track_workers_episode [simp]: "frame (track_workers_episode grouped c) = frame c"
proof -
  have "frame (c\<lparr>po_workers_quiet := n\<rparr>) = frame c" for c :: cycle and n by (simp add: frame_defs)
  then show ?thesis by (simp add: track_workers_episode_def Let_def)
qed

lemma frame_set_incidents [simp]: "frame (c\<lparr>po_ledger := (po_ledger c)\<lparr>lg_incidents := m\<rparr>\<rparr>) = frame c"
  by (simp add: frame_defs)

lemma frame_resolutions [simp]:
  "frame (foldl (\<lambda>c p. close_alerts (pf_name p) c) c xs) = frame c"
  "frame (foldl (\<lambda>c p. if b \<and> pf_kind p = Some ''Worker'' then c else resolve_program (pf_name p) c) c xs) = frame c"
  by (rule frame_foldl; simp add: close_alerts_def)+

lemma frame_update_incidents [simp]: "frame (update_incidents c) = frame c"
proof -
  obtain incidents resolved where
    "foldl (count_pass c) (lg_incidents (po_ledger c), []) (lg_incidents (po_ledger c)) = (incidents, resolved)"
    by fastforce
  then show ?thesis by (simp only: update_incidents_def resolve_workers_def Let_def prod.case if_distrib [of frame]
      frame_emit_alert frame_resolutions frame_set_incidents if_cancel)
qed



section \<open>Trips\<close>

text \<open>
  A trip concerns a running program; by R1 and R2 it needs five misses among the known results of the window and a
  miss in this cycle.
\<close>

definition missed :: "observation \<Rightarrow> program_facts \<Rightarrow> bool" where
  "missed obs p = (case liveness_probe obs p of None \<Rightarrow> False | Some probe \<Rightarrow> \<not> pr_ok probe)"

definition trip_ok :: "observation \<Rightarrow> program_facts list \<Rightarrow> (string \<Rightarrow> bool list option) \<Rightarrow> trip \<Rightarrow> bool" where
  "trip_ok obs running win t \<longleftrightarrow>
     tr_program t \<in> set running \<and> tr_rule t \<in> {''R1'', ''R2'', ''R3'', ''R4''} \<and>
     (tr_rule t \<in> {''R1'', ''R2''} \<longrightarrow>
        missed obs (tr_program t) \<and>
        (case win (pf_name (tr_program t)) of None \<Rightarrow> False | Some w \<Rightarrow> MISSES_TO_TRIP \<le> misses w))"

definition trips_ok :: "cycle \<Rightarrow> bool" where
  "trips_ok c \<longleftrightarrow> (\<forall>t \<in> set (cy_trips c). trip_ok (cy_obs c) (cy_running c) (windows (po_programs c)) t)"

lemma trips_ok_frame:
  assumes f: "frame c' = frame c" and t: "cy_trips c' = cy_trips c"
  shows "trips_ok c' = trips_ok c"
  by (simp add: trips_ok_def frameD [OF f] t)

lemma trips_ok_add_trip:
  "trips_ok c \<Longrightarrow> trip_ok (cy_obs c) (cy_running c) (windows (po_programs c)) \<lparr>tr_program = p, tr_rule = rule\<rparr> \<Longrightarrow>
   trips_ok (add_trip p rule c)"
  by (auto simp: trips_ok_def add_trip_def)

lemma cy_trips_simps [simp]:
  "cy_trips (emit d c) = cy_trips c" "cy_trips (send_alert key level change codes keep_open c) = cy_trips c"
  "cy_trips (close_keys P c) = cy_trips c" "cy_trips (resolve_key key c) = cy_trips c"
  "cy_trips (forget_episodes name c) = cy_trips c" "cy_trips (end_episode key c) = cy_trips c"
  "cy_trips (add_failing name c) = cy_trips c" "cy_trips (add_half name c) = cy_trips c"
  "cy_trips (add_unjudged name c) = cy_trips c" "cy_trips (add_warning p rule c) = cy_trips c"
  "cy_trips (check_pid c p) = cy_trips c" "cy_trips (ranking_alert c entry) = cy_trips c"
  "cy_trips (help_line c name) = cy_trips c" "cy_trips (held_alert key codes opened c) = cy_trips c"
  "cy_trips (held_starts held c) = cy_trips c" "cy_trips (left_to_you left c) = cy_trips c"
  "cy_trips (open_incident name rule c) = cy_trips c" "cy_trips (book_start shadow would c p) = cy_trips c"
  by (simp_all add: emit_def send_alert_def close_keys_def resolve_key_def forget_episodes_def end_episode_def add_failing_def
      add_half_def add_unjudged_def add_warning_def check_pid_def ranking_alert_def help_line_def held_alert_def held_starts_def
      left_to_you_def open_incident_def book_start_def Let_def split: option.split json.split prod.split)

lemma cy_trips_foldl: "(\<And>c x. cy_trips (f c x) = cy_trips c) \<Longrightarrow> cy_trips (foldl f c xs) = cy_trips c"
  by (induction xs arbitrary: c) simp_all

lemma trips_ok_simps [simp]:
  "trips_ok (add_failing name c) = trips_ok c" "trips_ok (add_half name c) = trips_ok c" "trips_ok (add_unjudged name c) = trips_ok c"
  "trips_ok (add_warning p rule c) = trips_ok c" "trips_ok (send_alert key level change codes keep_open c) = trips_ok c"
  by (rule trips_ok_frame; simp)+

lemma trips_ok_foldl:
  assumes "trips_ok c" "\<And>c x. x \<in> set xs \<Longrightarrow> trips_ok c \<Longrightarrow> frame c = F \<Longrightarrow> trips_ok (f c x)" "\<And>c x. frame (f c x) = frame c" "frame c = F"
  shows "trips_ok (foldl f c xs)"
  using assms by (induction xs arbitrary: c) auto

lemma section_trips_ok:
  assumes "trips_ok c"
  shows "trips_ok (section_trips c)"
proof -
  have "trips_ok (section_trip c' p)" if p: "p \<in> set (cy_running c)" and ok: "trips_ok c'" and f: "frame c' = frame c" for c' p
  proof -
    have "trip_ok (cy_obs c') (cy_running c') (windows (po_programs c')) \<lparr>tr_program = p, tr_rule = ''R3''\<rparr>"
      using p frameD(17) [OF f] by (simp add: trip_ok_def)
    then have "trips_ok (add_trip p ''R3'' (add_half (pf_name p) c'))"
      using ok by (intro trips_ok_add_trip) (simp_all add: frameD [OF frame_add(2)])
    then have "trips_ok (es_section p s c')" "trips_ok (ss_section p ss c')" "trips_ok (ps_section p ss c')" for s ss
      using ok by (simp_all add: es_section_def ss_section_def ps_section_def Let_def)
    then show ?thesis using ok by (simp add: section_trip_def split: list.split)
  qed
  then show ?thesis
    unfolding section_trips_def
    by (intro trips_ok_foldl [where F = "frame c"]) (use assms in \<open>auto simp: section_trip_def split: list.split\<close>)
qed


lemma worker_trips_ok:
  assumes "trips_ok c"
  shows "trips_ok (worker_trips c)"
proof -
  have "trips_ok (judge_worker sts uptime c' p)" if p: "p \<in> set (cy_running c)" and ok: "trips_ok c'" and f: "frame c' = frame c"
    for c' p sts uptime
  proof -
    have "trip_ok (cy_obs c') (cy_running c') (windows (po_programs c')) \<lparr>tr_program = p, tr_rule = ''R4''\<rparr>"
      using p frameD(17) [OF f] by (simp add: trip_ok_def)
    then have "trips_ok (add_trip p ''R4'' (add_failing (pf_name p) c'))"
      using ok by (intro trips_ok_add_trip) (simp_all add: frameD [OF frame_add(1)])
    moreover have "trips_ok (c'\<lparr>cy_unconnected := xs\<rparr>) = trips_ok c'" for c' :: cycle and xs
      by (rule trips_ok_frame) simp_all
    ultimately show ?thesis using ok by (simp add: judge_worker_def split: option.split)
  qed
  then have "trips_ok (foldl (judge_worker sts uptime) c (cy_running c))" for sts uptime
    by (intro trips_ok_foldl [where F = "frame c"]) (use assms in auto)
  moreover have "trips_ok (workers_unjudged c)"
    using assms unfolding workers_unjudged_def by (intro trips_ok_foldl [where F = "frame c"]) auto
  ultimately show ?thesis by (simp add: worker_trips_def Let_def split: option.split json.split)
qed

text \<open>Every running program has an entry.\<close>

definition known :: "cycle \<Rightarrow> bool" where
  "known c \<longleftrightarrow> (\<forall>p \<in> set (cy_running c). windows (po_programs c) (pf_name p) \<noteq> None)"

lemma known_frame:
  assumes "frame c' = frame c"
  shows "known c' = known c"
  by (simp add: known_def frameD [OF assms])

lemma lookup_known:
  assumes "known c" "p \<in> set (cy_running c)"
  shows "\<exists>ps. lookup (po_programs c) (pf_name p) = Inr ps \<and> windows (po_programs c) (pf_name p) = Some (ps_window ps)"
  using assms by (auto simp: known_def windows_def lookup_def)

lemma liveness_trip_ok:
  assumes "known c" "trips_ok c" "p \<in> set (cy_running c)" "rule \<in> {''R1'', ''R2''}"
  shows "\<exists>c'. liveness_trip rule c p = Inr c' \<and> frame c' = frame c \<and> trips_ok c'"
proof -
  obtain ps where ps: "lookup (po_programs c) (pf_name p) = Inr ps" "windows (po_programs c) (pf_name p) = Some (ps_window ps)"
    using lookup_known assms(1,3) by blast
  define c1 where "c1 = (if missed (cy_obs c) p then add_failing (pf_name p) c else c)"
  define c2 where "c2 = (if MISSES_TO_WARN \<le> misses (ps_window ps) then add_half (pf_name p) c1 else c1)"
  have c2: "frame c2 = frame c" "trips_ok c2" using assms(2) by (simp_all add: c1_def c2_def)
  have "po_programs c1 = po_programs c" by (simp add: c1_def add_failing_def)
  then have result: "liveness_trip rule c p = Inr
      (if MISSES_TO_TRIP \<le> misses (ps_window ps) \<and> missed (cy_obs c) p then add_trip p rule c2
       else if MISSES_TO_WARN \<le> misses (ps_window ps) then add_warning p rule c2 else c2)"
    using ps(1) by (simp only: liveness_trip_def Let_def missed_def [symmetric] c1_def [symmetric] c2_def [symmetric] res_bind.simps)
  have "trips_ok (add_trip p rule c2)" if "MISSES_TO_TRIP \<le> misses (ps_window ps) \<and> missed (cy_obs c) p"
    using that assms(3,4) ps(2) c2 by (intro trips_ok_add_trip) (auto simp: trip_ok_def frameD [OF c2(1)])
  then show ?thesis using result c2 by simp
qed

lemma liveness_trips_ok:
  assumes "known c" "trips_ok c"
  shows "\<exists>c'. liveness_trips c = Inr c' \<and> frame c' = frame c \<and> trips_ok c'"
  unfolding liveness_trips_def
proof (rule res_fold_index [where I = "\<lambda>_ c'. frame c' = frame c \<and> trips_ok c'"])
  fix k c'
  assume k: "k < length (cy_running c)" and c': "frame c' = frame c \<and> trips_ok c'"
  then have "cy_running c ! k \<in> set (cy_running c')" "known c'" "trips_ok c'"
    using assms(1) by (auto simp: known_frame [of c' c] frameD(17) [of c' c])
  then show "\<exists>s'. (if kind_in (cy_running c ! k) HTTP_KINDS then liveness_trip ''R1'' c' (cy_running c ! k)
      else if kind_in (cy_running c ! k) RPC_RULE_KINDS then liveness_trip ''R2'' c' (cy_running c ! k) else Inr c') = Inr s' \<and>
      frame s' = frame c \<and> trips_ok s'"
    using liveness_trip_ok [of c' "cy_running c ! k" "''R1''"] liveness_trip_ok [of c' "cy_running c ! k" "''R2''"] c' by auto
qed (use assms in simp)

lemma cycle_judge_ok:
  assumes "known c" "cy_trips c = []"
  shows "\<exists>c'. cycle_judge c = Inr c' \<and> frame c' = frame c \<and> trips_ok c'"
proof -
  have "cy_trips (check_pids c) = []" using assms(2) by (simp add: check_pids_def cy_trips_foldl)
  then obtain c1 where c1: "liveness_trips (check_pids c) = Inr c1" "frame c1 = frame c" "trips_ok c1"
    using liveness_trips_ok [of "check_pids c"] assms(1) known_frame [OF frame_check_pids] by (auto simp: trips_ok_def)
  have "trips_ok (worker_trips (section_trips c1))" using c1(3) by (intro worker_trips_ok section_trips_ok)
  moreover have "trips_ok (did_it_help (absent_alerts (ranking_alerts c'))) = trips_ok c'" for c'
    by (rule trips_ok_frame) (simp, simp add: did_it_help_def absent_alerts_def ranking_alerts_def cy_trips_foldl)
  ultimately show ?thesis using c1 by (simp add: cycle_judge_def)
qed



section \<open>The beginning of a cycle\<close>

definition core where
  "core c = (po_mode c, po_restart_classes c, lg_real (po_ledger c), lg_shadow (po_ledger c), lg_exhausted_until (po_ledger c),
     po_started_mono c, po_summary_mono c, cycle_frame c, cy_trips c)"

lemmas core_defs = core_def cycle_frame_def

lemma core_frame:
  assumes f: "frame c' = frame c" and t: "cy_trips c' = cy_trips c"
  shows "core c' = core c"
  by (simp add: core_defs frameD [OF f] t)

lemma core_set_simps [simp]:
  "core (c\<lparr>po_programs := m\<rparr>) = core c" "core (c\<lparr>po_holder_samples := xs\<rparr>) = core c"
  "core (c\<lparr>po_green_since_mono := g\<rparr>) = core c" "core (c\<lparr>po_green_cycles := n\<rparr>) = core c"
  "core (c\<lparr>po_ledger := (po_ledger c)\<lparr>lg_red := r\<rparr>\<rparr>) = core c"
  "core (c\<lparr>po_green_since_mono := g, po_green_cycles := n, po_ledger := (po_ledger c)\<lparr>lg_red := r\<rparr>\<rparr>) = core c"
  "core (c\<lparr>po_green_since_mono := g, po_green_cycles := n, po_ledger := po_ledger c\<rparr>) = core c"
  by (simp_all add: core_defs)

lemma core_alert_simps [simp]:
  "core (emit (alert_of key level codes) c) = core c" "core (send_alert key level change codes keep_open c) = core c"
  "core (resolve_key key c) = core c" "core (forget_episodes name c) = core c"
  by (rule core_frame; simp)+

lemma core_clear_windows [simp]: "core (clear_windows c) = core c"
  by (simp add: clear_windows_def)

lemma core_track_gate [simp]: "core (track_gate c) = core c"
  by (simp add: track_gate_def Let_def)

lemma core_track_pause [simp]: "core (track_pause c) = core c"
  by (simp add: track_pause_def split: option.split)

lemma core_track_program [simp]: "core (track_program c p) = core c"
  by (simp add: track_program_def Let_def)

lemma core_track_programs [simp]: "core (track_programs c) = core c"
proof -
  have "core (foldl track_program c ps) = core c" for ps by (induction ps arbitrary: c) simp_all
  then show ?thesis by (simp add: track_programs_def)
qed

lemma core_record_holder_cpu [simp]: "core (record_holder_cpu c) = core c"
  by (simp add: record_holder_cpu_def)

lemma track_programs_known: "known (track_programs c)"
proof -
  have grows: "windows (po_programs c) n \<noteq> None \<or> n = pf_name p \<Longrightarrow> windows (po_programs (track_program c p)) n \<noteq> None" for c p n
    by (auto simp: track_program_def windows_def Let_def forget_episodes_def)
  have keeps: "windows (po_programs c) n \<noteq> None \<Longrightarrow> windows (po_programs (foldl track_program c ps)) n \<noteq> None" for c ps n
  proof (induction ps arbitrary: c)
    case (Cons p ps)
    then show ?case using grows [of c n p] Cons.IH [of "track_program c p"] by simp
  qed simp
  have "\<forall>p \<in> set ps. windows (po_programs (foldl track_program c ps)) (pf_name p) \<noteq> None" for ps
  proof (induction ps arbitrary: c)
    case (Cons p ps)
    then show ?case using grows [of c "pf_name p" p] keeps [of "track_program c p" "pf_name p" ps] by simp
  qed simp
  moreover have "cy_running (track_programs c) = cy_running c"
    using core_track_programs [of c] by (simp add: core_defs)
  ultimately show ?thesis by (simp add: known_def track_programs_def)
qed

lemma green_since_track_programs [simp]:
  "po_green_since_mono (track_programs c) = po_green_since_mono c" "po_green_cycles (track_programs c) = po_green_cycles c"
  "lg_red (po_ledger (track_programs c)) = lg_red (po_ledger c)"
proof -
  have one: "po_green_since_mono (track_program c p) = po_green_since_mono c" "po_green_cycles (track_program c p) = po_green_cycles c"
    "lg_red (po_ledger (track_program c p)) = lg_red (po_ledger c)" for c p
    by (simp_all add: track_program_def Let_def forget_episodes_def)
  have "po_green_since_mono (foldl track_program c ps) = po_green_since_mono c \<and> po_green_cycles (foldl track_program c ps) = po_green_cycles c
    \<and> lg_red (po_ledger (foldl track_program c ps)) = lg_red (po_ledger c)" for ps
    by (induction ps arbitrary: c) (simp_all add: one)
  then show "po_green_since_mono (track_programs c) = po_green_since_mono c" "po_green_cycles (track_programs c) = po_green_cycles c"
    "lg_red (po_ledger (track_programs c)) = lg_red (po_ledger c)"
    by (simp_all add: track_programs_def)
qed

lemma track_gate_green:
  "\<not> cy_starved c \<Longrightarrow> ga_green (ob_gate (cy_obs c)) \<Longrightarrow> po_green_since_mono (track_gate c) \<noteq> None"
  by (simp add: track_gate_def Let_def resolve_key_def emit_def close_keys_def)

lemma cycle_begin_ok:
  fixes st obs now wall
  defines "c \<equiv> cycle_begin (new_cycle st obs now wall)"
  shows "po_mode c = po_mode st" "po_restart_classes c = po_restart_classes st"
    "lg_real (po_ledger c) = lg_real (prune wall (po_ledger st))" "lg_shadow (po_ledger c) = lg_shadow (prune wall (po_ledger st))"
    "lg_exhausted_until (po_ledger c) = lg_exhausted_until (prune wall (po_ledger st))"
    "po_started_mono c = Some (case po_started_mono st of None \<Rightarrow> now | Some t \<Rightarrow> t)" "po_summary_mono c \<noteq> None"
    "cy_obs c = obs" "cy_mono c = now" "cy_wall c = wall" "\<not> cy_acted c" "cy_starved c \<longleftrightarrow> STARVED_LAG_S < ob_lag_s obs"
    "cy_running c = filter (\<lambda>p. managed p \<and> pf_state p = ''RUNNING'') (ob_programs obs)"
    "actions (cy_decisions c) = []" "cy_trips c = []" "known c"
    "\<not> cy_starved c \<Longrightarrow> ga_green (ob_gate obs) \<Longrightarrow> po_green_since_mono c \<noteq> None"
proof -
  define c0 where "c0 = new_cycle st obs now wall"
  define c1 where "c1 = c0\<lparr>po_started_mono := (case po_started_mono c0 of None \<Rightarrow> Some (cy_mono c0) | Some t \<Rightarrow> Some t),
                 po_summary_mono := (case po_summary_mono c0 of None \<Rightarrow> Some (cy_mono c0) | Some t \<Rightarrow> Some t),
                 po_ledger := prune (cy_wall c0) (po_ledger c0)\<rparr>"
  have c: "c = record_holder_cpu (track_programs (track_pause (track_gate c1)))"
    by (simp only: c_def cycle_begin_def Let_def c1_def c0_def)
  have core: "core c = core c1" by (simp add: c)
  show "po_mode c = po_mode st" "po_restart_classes c = po_restart_classes st"
    "lg_real (po_ledger c) = lg_real (prune wall (po_ledger st))" "lg_shadow (po_ledger c) = lg_shadow (prune wall (po_ledger st))"
    "lg_exhausted_until (po_ledger c) = lg_exhausted_until (prune wall (po_ledger st))"
    "po_started_mono c = Some (case po_started_mono st of None \<Rightarrow> now | Some t \<Rightarrow> t)" "po_summary_mono c \<noteq> None"
    "cy_obs c = obs" "cy_mono c = now" "cy_wall c = wall" "\<not> cy_acted c" "cy_starved c \<longleftrightarrow> STARVED_LAG_S < ob_lag_s obs"
    "cy_running c = filter (\<lambda>p. managed p \<and> pf_state p = ''RUNNING'') (ob_programs obs)"
    "actions (cy_decisions c) = []" "cy_trips c = []"
    using core by (auto simp: core_defs c1_def c0_def new_cycle_def policy_state.defs split: option.splits)
  have "known (record_holder_cpu c') = known c'" for c'
    by (simp add: known_def record_holder_cpu_def)
  then show "known c" by (simp add: c track_programs_known)
  assume "\<not> cy_starved c" "ga_green (ob_gate obs)"
  moreover have "cy_starved c1 = cy_starved c" "cy_obs c1 = cy_obs c" "cy_obs c = obs"
    using core by (simp_all add: core_defs) (simp add: c1_def c0_def new_cycle_def policy_state.defs)
  ultimately have "po_green_since_mono (track_gate c1) \<noteq> None" by (intro track_gate_green) simp_all
  then show "po_green_since_mono c \<noteq> None"
    by (simp add: c record_holder_cpu_def track_pause_def clear_windows_def emit_def split: option.split)
qed



section \<open>Actions and bookings\<close>

text \<open>
  What a part of a cycle does to the ledger: every decision to act comes with its bookings, in the ledger that the decision
  names. The rest of the frame stays.
\<close>

definition rest_frame where
  "rest_frame c = (po_mode c, po_restart_classes c, lg_red (po_ledger c), lg_exhausted_until (po_ledger c), po_started_mono c,
     po_green_since_mono c, po_green_cycles c, po_summary_mono c, windows (po_programs c), cy_obs c, cy_mono c, cy_wall c,
     cy_starved c, cy_running c)"

type_synonym act = "decision \<times> booking list"

definition acts_as :: "cycle \<Rightarrow> cycle \<Rightarrow> act list \<Rightarrow> bool" where
  "acts_as c c' xs \<longleftrightarrow>
     rest_frame c' = rest_frame c \<and> (cy_acted c' \<longleftrightarrow> cy_acted c \<or> xs \<noteq> []) \<and>
     actions (cy_decisions c') = actions (cy_decisions c) @ map fst xs \<and>
     (\<forall>sh. bookings_of (po_ledger c') sh = bookings_of (po_ledger c) sh @ concat (map snd (filter (\<lambda>x. dc_shadow (fst x) = sh) xs)))"

lemma acts_as_frame:
  assumes "frame c' = frame c"
  shows "acts_as c c' []"
  by (simp add: acts_as_def rest_frame_def bookings_of_def frameD [OF assms])

lemma acts_as_Nil_iff: "acts_as c c' [] \<longleftrightarrow> frame c' = frame c"
proof
  assume "acts_as c c' []"
  then have "rest_frame c' = rest_frame c" "cy_acted c' = cy_acted c" "actions (cy_decisions c') = actions (cy_decisions c)"
    "bookings_of (po_ledger c') True = bookings_of (po_ledger c) True" "bookings_of (po_ledger c') False = bookings_of (po_ledger c) False"
    by (auto simp: acts_as_def)
  then show "frame c' = frame c" by (simp add: frame_defs rest_frame_def bookings_of_def)
qed (rule acts_as_frame)

lemma acts_as_trans: "acts_as c1 c2 xs \<Longrightarrow> acts_as c2 c3 ys \<Longrightarrow> acts_as c1 c3 (xs @ ys)"
  by (auto simp: acts_as_def)

lemma rest_frameD:
  assumes "rest_frame c' = rest_frame c"
  shows "po_mode c' = po_mode c" "po_restart_classes c' = po_restart_classes c" "lg_red (po_ledger c') = lg_red (po_ledger c)"
    "lg_exhausted_until (po_ledger c') = lg_exhausted_until (po_ledger c)"
    "po_started_mono c' = po_started_mono c" "po_green_since_mono c' = po_green_since_mono c" "po_green_cycles c' = po_green_cycles c"
    "po_summary_mono c' = po_summary_mono c" "windows (po_programs c') = windows (po_programs c)"
    "cy_obs c' = cy_obs c" "cy_mono c' = cy_mono c" "cy_wall c' = cy_wall c" "cy_starved c' = cy_starved c" "cy_running c' = cy_running c"
  using assms by (simp_all add: rest_frame_def)

definition act_booking :: "cycle \<Rightarrow> string \<Rightarrow> string \<Rightarrow> bool \<Rightarrow> int option \<Rightarrow> program_facts \<Rightarrow> booking" where
  "act_booking c action rule would pid p =
     \<lparr>bk_wall = cy_wall c, bk_program = pf_name p, bk_label = label p, bk_pool = pool_of (klass p), bk_action = action,
      bk_rule = rule, bk_would = would, bk_pid = pid\<rparr>"

definition start_act :: "cycle \<Rightarrow> bool \<Rightarrow> program_facts list \<Rightarrow> act" where
  "start_act c shadow batch =
     (let would = (po_mode c = OBSERVE \<or> shadow)
      in ((new_decision START)\<lparr>dc_key := FATAL_KEY, dc_programs := map pf_name batch, dc_rule := ''R5'', dc_would := would,
            dc_shadow := shadow\<rparr>, map (act_booking c START ''R5'' would None) batch))"

definition restart_act :: "cycle \<Rightarrow> trip \<Rightarrow> act" where
  "restart_act c t =
     (let p = tr_program t; shadow = shadow_for (klass p) c; would = (po_mode c = OBSERVE \<or> shadow)
      in ((new_decision RESTART)\<lparr>dc_key := (pf_name p, tr_rule t), dc_program := pf_name p, dc_rule := tr_rule t,
            dc_would := would, dc_shadow := shadow\<rparr>, [act_booking c RESTART (tr_rule t) would (pf_pid p) p]))"

lemma action_names [simp]: "START \<noteq> ALERT" "RESTART \<noteq> ALERT" "RESTART \<noteq> START" "START \<noteq> RESTART"
  by (simp_all add: START_def RESTART_def ALERT_def)

lemma dc_action_new [simp]: "dc_action (new_decision a) = a"
  by (simp add: new_decision_def)

lemma book_starts:
  "rest_frame (foldl (book_start sh would) c batch) = rest_frame c \<and> cy_acted (foldl (book_start sh would) c batch) = cy_acted c \<and>
   cy_decisions (foldl (book_start sh would) c batch) = cy_decisions c \<and>
   (\<forall>sh'. bookings_of (po_ledger (foldl (book_start sh would) c batch)) sh' =
     bookings_of (po_ledger c) sh' @ (if sh' = sh then map (act_booking c START ''R5'' would None) batch else []))"
proof (induction batch arbitrary: c)
  case (Cons p batch)
  define c1 where "c1 = book_start sh would c p"
  have c1: "rest_frame c1 = rest_frame c" "cy_acted c1 = cy_acted c" "cy_decisions c1 = cy_decisions c"
    "bookings_of (po_ledger c1) sh' = bookings_of (po_ledger c) sh' @ (if sh' = sh then [act_booking c START ''R5'' would None p] else [])"
    for sh'
    by (auto simp: c1_def book_start_def forget_episodes_def rest_frame_def book_def bookings_of_def act_booking_def)
  have "act_booking c1 = act_booking c" by (simp add: fun_eq_iff act_booking_def rest_frameD [OF c1(1)])
  then show ?case using Cons.IH [of c1] c1 by (auto simp flip: c1_def)
qed simp

lemma acts_as_start_batch:
  "acts_as c (start_batch sh batch c) (if batch = [] then [] else [start_act c sh batch])"
proof (cases "batch = []")
  case True
  then show ?thesis by (simp add: start_batch_def acts_as_frame)
next
  case False
  define c1 where "c1 = foldl (book_start sh (po_mode c = OBSERVE \<or> sh)) c batch"
  define d where "d = fst (start_act c sh batch)"
  have d: "dc_action d = START" "dc_shadow d = sh" by (simp_all add: d_def start_act_def Let_def)
  have batch: "start_batch sh batch c = emit d (c1\<lparr>cy_acted := True\<rparr>)"
    using False by (simp add: start_batch_def start_act_def Let_def c1_def d_def)
  have "rest_frame (start_batch sh batch c) = rest_frame c1"
    by (simp add: batch emit_def rest_frame_def)
  moreover have "snd (start_act c sh batch) = map (act_booking c START ''R5'' (po_mode c = OBSERVE \<or> sh) None) batch"
    by (simp add: start_act_def Let_def)
  ultimately show ?thesis
    using False d book_starts [of sh "po_mode c = OBSERVE \<or> sh" c batch, folded c1_def]
    by (auto simp: acts_as_def batch emit_def simp flip: d_def)
qed

lemma acts_as_restart:
  assumes "known c" "tr_program t \<in> set (cy_running c)"
  shows "\<exists>c'. restart t (shadow_for (klass (tr_program t)) c) c = Inr c' \<and> acts_as c c' [restart_act c t] \<and> cy_trips c' = cy_trips c"
proof -
  obtain ps where ps: "lookup (po_programs c) (pf_name (tr_program t)) = Inr ps"
    using lookup_known [OF assms] by blast
  then have "windows (dict_set (pf_name (tr_program t)) ps' (po_programs c)) = windows (po_programs c)" if "ps_window ps' = ps_window ps" for ps'
    using that by (auto simp: windows_def fun_eq_iff lookup_def split: option.splits)
  then show ?thesis
    using ps by (cases "shadow_for (klass (tr_program t)) c")
      (simp_all add: restart_def Let_def acts_as_def restart_act_def rest_frame_def emit_def forget_episodes_def book_def
        bookings_of_def act_booking_def)
qed



section \<open>When a cycle acts\<close>

definition past_grace :: "cycle \<Rightarrow> bool" where
  "past_grace c \<longleftrightarrow> (case po_started_mono c of None \<Rightarrow> False | Some t \<Rightarrow> GRACE_S \<le> cy_mono c - t)"

definition may_act :: "cycle \<Rightarrow> bool" where
  "may_act c \<longleftrightarrow> ga_green (ob_gate (cy_obs c)) \<and> ob_supervisor_ok (cy_obs c) \<and> \<not> ob_in_flight (cy_obs c) \<and> \<not> cy_acted c \<and> past_grace c"

definition may_start :: "cycle \<Rightarrow> program_facts \<Rightarrow> bool" where
  "may_start c p \<longleftrightarrow> may_act c \<and> p \<in> set (ob_programs (cy_obs c)) \<and> managed p \<and> pf_state p = ''FATAL'' \<and> eligible c p \<and>
     FATAL_GREEN_CYCLES \<le> po_green_cycles c \<and> \<not> over_limit c p START (shadow_for (klass p) c)"

definition may_restart :: "cycle \<Rightarrow> trip \<Rightarrow> bool" where
  "may_restart c t \<longleftrightarrow> may_act c \<and> trip_ok (cy_obs c) (cy_running c) (windows (po_programs c)) t \<and>
     (case po_green_since_mono c of None \<Rightarrow> False | Some g \<Rightarrow> GREEN_BEFORE_RESTART_S \<le> cy_mono c - g) \<and>
     \<not> lock_wait c \<and> \<not> global_failure c \<and>
     (case pf_start_wall (tr_program t) of None \<Rightarrow> True | Some w \<Rightarrow> GRACE_S \<le> age (cy_wall c) w) \<and>
     \<not> over_limit c (tr_program t) RESTART (shadow_for (klass (tr_program t)) c)"

lemma shadow_for_frame:
  assumes "rest_frame c' = rest_frame c"
  shows "shadow_for k c' = shadow_for k c"
  by (simp add: shadow_for_def rest_frameD [OF assms])

lemma rest_frame_frame: "frame c' = frame c \<Longrightarrow> rest_frame c' = rest_frame c"
  by (auto simp: rest_frame_def frame_defs)

lemma over_limit_frame:
  assumes "frame c' = frame c"
  shows "over_limit c' p action sh = over_limit c p action sh"
  by (simp add: over_limit_def free_at_def bookings_of_def frameD [OF assms] Let_def)

lemma eligible_frame:
  assumes "frame c' = frame c"
  shows "eligible c' p = eligible c p"
  by (simp add: eligible_def red_since_def frameD [OF assms] split: option.split)

lemma may_act_frame:
  assumes "frame c' = frame c"
  shows "may_act c' = may_act c"
  by (simp add: may_act_def past_grace_def frameD [OF assms] split: option.split)

lemma may_restart_frame:
  assumes "frame c' = frame c"
  shows "may_restart c' t = may_restart c t"
  by (simp add: may_restart_def may_act_frame [OF assms] over_limit_frame [OF assms] lock_wait_def global_failure_def
      shadow_for_frame [OF rest_frame_frame [OF assms]] frameD [OF assms] cong: option.case_cong)

lemma start_act_frame:
  assumes "rest_frame c' = rest_frame c"
  shows "start_act c' = start_act c"
  by (simp add: fun_eq_iff start_act_def act_booking_def rest_frameD [OF assms] Let_def)

lemma restart_act_frame:
  assumes "rest_frame c' = rest_frame c"
  shows "restart_act c' = restart_act c"
  by (simp add: fun_eq_iff restart_act_def act_booking_def rest_frameD [OF assms] shadow_for_def Let_def)

lemma codes_of_Nil: "codes_of xs = [] \<longleftrightarrow> (\<forall>x \<in> set xs. \<not> snd x)"
  by (auto simp: codes_of_def filter_empty_conv)

text \<open>R5.\<close>

definition start_acts :: "cycle \<Rightarrow> program_facts list \<Rightarrow> program_facts list \<Rightarrow> act list" where
  "start_acts c batch shadow_batch =
     (if batch = [] then [] else [start_act c False batch]) @ (if shadow_batch = [] then [] else [start_act c True shadow_batch])"

lemma acts_as_start_acts:
  assumes "frame c2 = frame c"
  shows "acts_as c (start_batch True sb (start_batch False rb c2)) (start_acts c rb sb)"
proof -
  have 1: "acts_as c (start_batch False rb c2) (if rb = [] then [] else [start_act c False rb])"
    using acts_as_trans [OF acts_as_frame [OF assms] acts_as_start_batch [of c2 False rb]]
      start_act_frame [OF rest_frame_frame [OF assms]] by (simp split: if_splits)
  then have "rest_frame (start_batch False rb c2) = rest_frame c" by (simp add: acts_as_def)
  then have "start_act (start_batch False rb c2) = start_act c" by (rule start_act_frame)
  then show ?thesis using acts_as_trans [OF 1 acts_as_start_batch [of _ True sb]] by (simp only: start_acts_def)
qed

lemma cy_trips_start_batch [simp]: "cy_trips (start_batch sh batch c) = cy_trips c"
  by (simp add: start_batch_def Let_def cy_trips_foldl)

lemma fatal_starts_ok:
  assumes "po_started_mono c \<noteq> None"
  shows "\<exists>c' rb sb. fatal_starts c = Inr c' \<and> cy_trips c' = cy_trips c \<and> acts_as c c' (start_acts c rb sb) \<and>
    (\<forall>p \<in> set rb. may_start c p \<and> \<not> shadow_for (klass p) c) \<and> (\<forall>p \<in> set sb. may_start c p \<and> shadow_for (klass p) c)"
proof -
  define cands where "cands = filter (eligible c) (fatal_programs c)"
  define c1 where "c1 = left_to_you (filter (\<lambda>p. p \<notin> set cands) (fatal_programs c)) c"
  have c1: "frame c1 = frame c" "cy_trips c1 = cy_trips c" by (simp_all add: c1_def)
  show ?thesis
  proof (cases "cands = [] \<or> \<not> ga_green (ob_gate (cy_obs c1)) \<or> po_green_cycles c1 < FATAL_GREEN_CYCLES")
    case True
    then have "fatal_starts c = Inr (if cands = [] then end_episode FATAL_KEY c1 else c1)"
      by (auto simp: fatal_starts_def Let_def c1_def cands_def [symmetric])
    moreover have "acts_as c (if cands = [] then end_episode FATAL_KEY c1 else c1) (start_acts c [] [])"
      using c1 by (auto simp: start_acts_def intro!: acts_as_frame)
    ultimately show ?thesis using c1(2) by (intro exI [of _ "if cands = [] then end_episode FATAL_KEY c1 else c1"] exI [of _ "[]"]) auto
  next
    case False
    obtain t where t: "po_started_mono c1 = Some t" using assms c1(1) by (auto simp: frameD(7) [OF c1(1)])
    define since where "since = cy_mono c1 - t"
    define free where "free = filter (\<lambda>p. start_holds c1 since p = []) cands"
    define c2 where "c2 = held_starts (filter (\<lambda>xs. xs \<noteq> []) (map (start_holds c1 since) cands))
        (foldl (\<lambda>c p. open_incident (pf_name p) ''R5'' c) c1 cands)"
    have "frame (foldl (\<lambda>c p. open_incident (pf_name p) ''R5'' c) c1 cands) = frame c1" by (rule frame_foldl) simp
    then have c2: "frame c2 = frame c" "cy_trips c2 = cy_trips c" using c1 by (simp_all add: c2_def cy_trips_foldl)
    have "fatal_starts c = Inr (start_batch True (filter (\<lambda>p. shadow_for (klass p) c1) free)
        (start_batch False (filter (\<lambda>p. \<not> shadow_for (klass p) c1) free) c2))"
      using False t by (auto simp: fatal_starts_def Let_def cands_def [symmetric] c1_def [symmetric] since_start_def
          since_def [symmetric] free_def [symmetric] c2_def [symmetric] simp del: filter_filter)
    moreover have "may_start c p" if "p \<in> set free" for p
      using that False t shadow_for_frame [OF rest_frame_frame [OF c1(1)]]
      by (auto simp: free_def cands_def may_start_def may_act_def past_grace_def fatal_programs_def start_holds_def codes_of_Nil
          since_def over_limit_frame [OF c1(1)] frameD [OF c1(1)])
    ultimately show ?thesis
      using acts_as_start_acts [OF c2(1)] c2(2) shadow_for_frame [OF rest_frame_frame [OF c1(1)]] by fastforce
  qed
qed


text \<open>What the restarts need of the state: R1 to R4 act on it.\<close>

definition ready :: "cycle \<Rightarrow> bool" where
  "ready c \<longleftrightarrow> known c \<and> po_started_mono c \<noteq> None \<and> po_summary_mono c \<noteq> None \<and>
     (ga_green (ob_gate (cy_obs c)) \<longrightarrow> po_green_since_mono c \<noteq> None)"

lemma ready_frame:
  assumes "rest_frame c' = rest_frame c"
  shows "ready c' = ready c"
  by (simp add: ready_def known_def rest_frameD [OF assms])

lemma holds_total: "ready c \<Longrightarrow> \<exists>codes. holds c p sh = Inr codes"
  by (auto simp: ready_def holds_def gate_hold_def in_grace_def since_start_def)

lemma holds_Nil:
  assumes "holds c p (shadow_for (klass p) c) = Inr []" "trip_ok (cy_obs c) (cy_running c) (windows (po_programs c)) t" "tr_program t = p"
  shows "may_restart c t"
  using assms
  by (auto simp: holds_def gate_hold_def in_grace_def since_start_def codes_of_Nil may_restart_def may_act_def past_grace_def
      split: option.splits if_splits)

lemma early_warnings_ok:
  assumes "ready c"
  shows "\<exists>c'. early_warnings c = Inr c' \<and> frame c' = frame c \<and> cy_trips c' = cy_trips c"
  unfolding early_warnings_def
proof (rule res_fold_index [where I = "\<lambda>_ c'. frame c' = frame c \<and> cy_trips c' = cy_trips c"])
  fix k :: nat and c' :: cycle
  let ?w = "cy_warnings c ! k"
  assume "k < length (cy_warnings c)" and c': "frame c' = frame c \<and> cy_trips c' = cy_trips c"
  then obtain codes where "holds c' (tr_program ?w) (shadow_for (klass (tr_program ?w)) c') = Inr codes"
    using assms ready_frame [OF rest_frame_frame, of c' c] holds_total by blast
  then show "\<exists>s'. res_bind (holds c' (tr_program ?w) (shadow_for (klass (tr_program ?w)) c'))
      (\<lambda>_. Inr (send_alert (pf_name (tr_program ?w), tr_rule ?w @ '' warning'') ''WARNING'' False [] False c')) = Inr s' \<and>
      frame s' = frame c \<and> cy_trips s' = cy_trips c"
    using c' by simp
qed simp

lemma act_on_trip_ok:
  assumes "ready c" "trip_ok (cy_obs c) (cy_running c) (windows (po_programs c)) t"
  shows "\<exists>c' held'. act_on_trip (c, held) t = Inr (c', held') \<and>
    (frame c' = frame c \<or> may_restart c t \<and> acts_as c c' [restart_act c t])"
proof -
  define p where "p = tr_program t"
  define c1 where "c1 = open_incident (pf_name p) (tr_rule t) c"
  have c1: "frame c1 = frame c" by (simp add: c1_def)
  note rest = rest_frame_frame [OF c1]
  have ready: "ready c1" using assms(1) ready_frame [OF rest] by simp
  have ok: "trip_ok (cy_obs c1) (cy_running c1) (windows (po_programs c1)) t" using assms(2) by (simp add: frameD [OF c1])
  obtain codes where codes: "holds c1 p (shadow_for (klass p) c1) = Inr codes" using holds_total [OF ready] by blast
  show ?thesis
  proof (cases "codes = []")
    case True
    obtain c2 where c2: "restart t (shadow_for (klass p) c1) c1 = Inr c2" "acts_as c1 c2 [restart_act c1 t]"
      using acts_as_restart [of c1 t] ready ok by (auto simp: ready_def trip_ok_def p_def)
    have "may_restart c1 t" using holds_Nil [OF _ ok] codes True by (simp add: p_def)
    then have "may_restart c t" using may_restart_frame [OF c1] by simp
    moreover have "acts_as c c2 [restart_act c t]"
      using acts_as_trans [OF acts_as_frame [OF c1] c2(2)] restart_act_frame [OF rest] by simp
    ultimately show ?thesis using codes True c2 by (simp add: act_on_trip_def Let_def p_def c1_def)
  next
    case False
    then show ?thesis using codes by (simp add: act_on_trip_def Let_def p_def c1_def)
  qed
qed

lemma act_fold_ok:
  assumes "ready c" "\<forall>t \<in> set ts. trip_ok (cy_obs c) (cy_running c) (windows (po_programs c)) t"
  shows "\<exists>c' held'. res_fold act_on_trip (c, held) ts = Inr (c', held') \<and>
    (frame c' = frame c \<or> (\<exists>t \<in> set ts. may_restart c t \<and> acts_as c c' [restart_act c t]))"
  using assms
proof (induction ts arbitrary: c held)
  case (Cons t ts)
  then obtain c1 held1 where step: "act_on_trip (c, held) t = Inr (c1, held1)"
    "frame c1 = frame c \<or> may_restart c t \<and> acts_as c c1 [restart_act c t]"
    using act_on_trip_ok [of c t held] by auto
  then have rest: "rest_frame c1 = rest_frame c" using rest_frame_frame by (auto simp: acts_as_def)
  have "ready c1" "\<forall>t \<in> set ts. trip_ok (cy_obs c1) (cy_running c1) (windows (po_programs c1)) t"
    using Cons.prems ready_frame [OF rest] by (simp_all add: rest_frameD [OF rest])
  from Cons.IH [OF this, of held1] obtain c2 held2 where later: "res_fold act_on_trip (c1, held1) ts = Inr (c2, held2)"
    "frame c2 = frame c1 \<or> (\<exists>t \<in> set ts. may_restart c1 t \<and> acts_as c1 c2 [restart_act c1 t])"
    by blast
  have "frame c2 = frame c \<or> (\<exists>t \<in> set (t # ts). may_restart c t \<and> acts_as c c2 [restart_act c t])"
  proof (cases "frame c1 = frame c")
    case True
    from acts_as_frame [OF this] have "acts_as c c2 [restart_act c t]" if "acts_as c1 c2 [restart_act c1 t]" for t
      using acts_as_trans that restart_act_frame [OF rest] by fastforce
    then show ?thesis using later(2) may_restart_frame [OF True] True by auto
  next
    case False
    then have "may_restart c t" and acts: "acts_as c c1 [restart_act c t]" using step(2) by auto
    moreover from acts have "\<not> may_restart c1 t'" for t' by (simp add: acts_as_def may_restart_def may_act_def)
    ultimately show ?thesis using later(2) acts_as_trans [OF acts acts_as_frame] by fastforce
  qed
  then show ?case using step(1) later(1) by auto
qed simp

lemma act_on_trips_ok:
  assumes "ready c" "trips_ok c"
  shows "\<exists>c'. act_on_trips c = Inr c' \<and>
    (frame c' = frame c \<or> (\<exists>t. may_restart c t \<and> acts_as c c' [restart_act c t]))"
proof -
  obtain c1 where c1: "early_warnings c = Inr c1" "frame c1 = frame c" "cy_trips c1 = cy_trips c"
    using early_warnings_ok [OF assms(1)] by blast
  note rest = rest_frame_frame [OF c1(2)]
  have "ready c1" "\<forall>t \<in> set (cy_trips c1). trip_ok (cy_obs c1) (cy_running c1) (windows (po_programs c1)) t"
    using assms c1(3) ready_frame [OF rest] by (simp_all add: trips_ok_def frameD [OF c1(2)])
  from act_fold_ok [OF this, of "[]"] obtain c2 held where c2: "res_fold act_on_trip (c1, []) (cy_trips c1) = Inr (c2, held)"
    "frame c2 = frame c1 \<or> (\<exists>t. may_restart c1 t \<and> acts_as c1 c2 [restart_act c1 t])"
    by blast
  define c3 where "c3 = track_workers_episode (fst (held_workers held c2)) (snd (held_workers held c2))"
  have c3: "frame c3 = frame c2" by (simp add: c3_def)
  have "act_on_trips c = Inr c3"
    using c1(1) c2(1) by (simp add: act_on_trips_def c3_def split: prod.split)
  moreover have "frame c3 = frame c \<or> (\<exists>t. may_restart c t \<and> acts_as c c3 [restart_act c t])"
    using c2(2)
  proof
    assume "\<exists>t. may_restart c1 t \<and> acts_as c1 c2 [restart_act c1 t]"
    then obtain t where "may_restart c1 t" "acts_as c1 c2 [restart_act c1 t]" by blast
    then have "may_restart c t" "acts_as c c3 [restart_act c t]"
      using may_restart_frame [OF c1(2)] restart_act_frame [OF rest]
        acts_as_trans [OF acts_as_trans [OF acts_as_frame [OF c1(2)]] acts_as_frame [OF c3]] by fastforce+
    then show ?thesis by blast
  qed (use c1(2) c3 in simp)
  ultimately show ?thesis by blast
qed



section \<open>The whole cycle\<close>

abbreviation (input) begun :: "policy_state \<Rightarrow> observation \<Rightarrow> rat \<Rightarrow> rat \<Rightarrow> cycle" where
  "begun st obs now wall \<equiv> cycle_begin (new_cycle st obs now wall)"

definition acts_ok :: "cycle \<Rightarrow> act list \<Rightarrow> bool" where
  "acts_ok c xs \<longleftrightarrow>
     xs = [] \<or> \<not> cy_starved c \<and>
       ((\<exists>t. may_restart c t \<and> xs = [restart_act c t]) \<or>
        (\<exists>rb sb. xs = start_acts c rb sb \<and> (\<forall>p \<in> set rb. may_start c p \<and> \<not> shadow_for (klass p) c) \<and>
           (\<forall>p \<in> set sb. may_start c p \<and> shadow_for (klass p) c)))"

lemma summary_ok:
  assumes "po_summary_mono c \<noteq> None"
  shows "\<exists>c'. summary c = Inr c' \<and> (\<forall>b. acts_as b c xs \<longrightarrow>
    actions (cy_decisions c') = actions (cy_decisions b) @ map fst xs \<and> po_ledger c' = po_ledger c \<and>
    po_mode c' = po_mode b \<and> po_restart_classes c' = po_restart_classes b \<and> po_started_mono c' = po_started_mono b \<and>
    windows (po_programs c') = windows (po_programs b))"
  using assms by (auto simp: summary_def emit_def acts_as_def rest_frame_def)

lemma cycle_run_ok:
  fixes st obs now wall
  defines "b \<equiv> begun st obs now wall"
  shows "\<exists>c' xs. cycle_run (new_cycle st obs now wall) = Inr c' \<and> acts_ok b xs \<and>
    actions (cy_decisions c') = map fst xs \<and>
    (\<forall>sh. bookings_of (po_ledger c') sh =
       bookings_of (prune wall (po_ledger st)) sh @ concat (map snd (filter (\<lambda>x. dc_shadow (fst x) = sh) xs))) \<and>
    po_mode c' = po_mode st \<and> po_restart_classes c' = po_restart_classes st \<and> po_started_mono c' = po_started_mono b \<and>
    windows (po_programs c') = windows (po_programs b)"
proof -
  have "\<exists>c1 xs. (if cy_starved b then Inr b else res_bind (cycle_judge b) (\<lambda>c2. res_bind (fatal_starts c2) (\<lambda>c3.
      res_bind (act_on_trips c3) (\<lambda>c4. Inr (update_incidents c4))))) = Inr c1 \<and> acts_as b c1 xs \<and> acts_ok b xs"
  proof (cases "cy_starved b")
    case True
    then show ?thesis by (auto simp: acts_ok_def intro!: exI [of _ "[]"] acts_as_frame)
  next
    case False
    have ready: "ready b" using False cycle_begin_ok [of st obs now wall] by (simp add: b_def ready_def)
    obtain c2 where c2: "cycle_judge b = Inr c2" "frame c2 = frame b" "trips_ok c2"
      using cycle_judge_ok [of b] ready cycle_begin_ok(15) [of st obs now wall] by (auto simp: b_def ready_def)
    note rest2 = rest_frame_frame [OF c2(2)]
    obtain c3 rb sb where c3: "fatal_starts c2 = Inr c3" "cy_trips c3 = cy_trips c2" "acts_as c2 c3 (start_acts c2 rb sb)"
      "\<forall>p \<in> set rb. may_start c2 p \<and> \<not> shadow_for (klass p) c2" "\<forall>p \<in> set sb. may_start c2 p \<and> shadow_for (klass p) c2"
      using fatal_starts_ok [of c2] ready by (auto simp: ready_def frameD [OF c2(2)])
    have may_start: "may_start c2 = may_start b"
      by (simp add: fun_eq_iff may_start_def may_act_frame [OF c2(2)] eligible_frame [OF c2(2)] over_limit_frame [OF c2(2)]
          shadow_for_frame [OF rest2] frameD [OF c2(2)])
    have starts: "acts_as b c3 (start_acts b rb sb)"
      using acts_as_trans [OF acts_as_frame [OF c2(2)] c3(3)] start_act_frame [OF rest2] by (simp only: start_acts_def append.simps)
    then have rest3: "rest_frame c3 = rest_frame b" by (simp add: acts_as_def)
    have "ready c3" "trips_ok c3"
      using ready ready_frame [OF rest3] c2(3) c3(2) by (simp_all add: trips_ok_def rest_frameD [OF rest3] frameD [OF c2(2)])
    from act_on_trips_ok [OF this] obtain c4 where c4: "act_on_trips c3 = Inr c4"
      "frame c4 = frame c3 \<or> (\<exists>t. may_restart c3 t \<and> acts_as c3 c4 [restart_act c3 t])"
      by blast
    have "\<exists>xs. acts_as b c4 xs \<and> acts_ok b xs"
    proof (cases "frame c4 = frame c3")
      case True
      then show ?thesis
        using acts_as_trans [OF starts acts_as_frame [OF True]] False c3(4,5) may_start shadow_for_frame [OF rest2]
        by (auto simp: acts_ok_def)
    next
      case not_same: False
      then obtain t where t: "may_restart c3 t" "acts_as c3 c4 [restart_act c3 t]" using c4(2) by blast
      then have "\<not> cy_acted c3" by (simp add: may_restart_def may_act_def)
      then have "start_acts b rb sb = []" using starts by (simp add: acts_as_def)
      then have same: "frame c3 = frame b" using starts by (simp add: acts_as_Nil_iff)
      have "may_restart b t" using t(1) may_restart_frame [OF same] by simp
      moreover have "acts_as b c4 [restart_act b t]"
        using acts_as_trans [OF acts_as_frame [OF same] t(2)] restart_act_frame [OF rest3] by simp
      ultimately
      show ?thesis using False by (auto simp: acts_ok_def)
    qed
    then obtain xs where "acts_as b c4 xs" "acts_ok b xs" by blast
    moreover have "acts_as c4 (update_incidents c4) []" by (rule acts_as_frame) simp
    ultimately have "acts_as b (update_incidents c4) xs" "acts_ok b xs" using acts_as_trans by fastforce+
    then show ?thesis using False c2(1) c3(1) c4(1) by auto
  qed
  then obtain c1 xs where c1: "(if cy_starved b then Inr b else res_bind (cycle_judge b) (\<lambda>c2. res_bind (fatal_starts c2) (\<lambda>c3.
      res_bind (act_on_trips c3) (\<lambda>c4. Inr (update_incidents c4))))) = Inr c1" "acts_as b c1 xs" "acts_ok b xs"
    by blast
  have run: "cycle_run (new_cycle st obs now wall) = summary c1"
    using c1(1) unfolding cycle_run_def Let_def b_def by (auto split: if_splits)
  have "po_summary_mono c1 \<noteq> None" using c1(2) cycle_begin_ok(7) [of st obs now wall] by (simp add: acts_as_def rest_frame_def b_def)
  from summary_ok [OF this, of xs] obtain c' where c': "summary c1 = Inr c'"
    "actions (cy_decisions c') = actions (cy_decisions b) @ map fst xs" "po_ledger c' = po_ledger c1" "po_mode c' = po_mode b"
    "po_restart_classes c' = po_restart_classes b" "po_started_mono c' = po_started_mono b"
    "windows (po_programs c') = windows (po_programs b)"
    using c1(2) by blast
  moreover have "bookings_of (po_ledger c1) sh =
      bookings_of (prune wall (po_ledger st)) sh @ concat (map snd (filter (\<lambda>x. dc_shadow (fst x) = sh) xs))" for sh
    using c1(2) cycle_begin_ok(3,4) [of st obs now wall] by (simp add: acts_as_def bookings_of_def b_def)
  ultimately show ?thesis
    using run c1(3) cycle_begin_ok(1,2,14) [of st obs now wall] by (auto simp: b_def)
qed



section \<open>Properties of the policy\<close>

lemma truncate_fields [simp]:
  "po_mode (policy_state.truncate c) = po_mode c" "po_restart_classes (policy_state.truncate c) = po_restart_classes c"
  "po_ledger (policy_state.truncate c) = po_ledger c" "po_programs (policy_state.truncate c) = po_programs c"
  "po_started_mono (policy_state.truncate c) = po_started_mono c"
  by (simp_all add: policy_state.defs)

lemma decide_ok:
  "\<exists>st' ds xs. decide st obs now wall = Inr (st', ds) \<and> acts_ok (begun st obs now wall) xs \<and> actions ds = map fst xs \<and>
    (\<forall>sh. bookings_of (po_ledger st') sh =
       bookings_of (prune wall (po_ledger st)) sh @ concat (map snd (filter (\<lambda>x. dc_shadow (fst x) = sh) xs))) \<and>
    po_mode st' = po_mode st \<and> po_restart_classes st' = po_restart_classes st \<and>
    windows (po_programs st') = windows (po_programs (begun st obs now wall))"
  using cycle_run_ok [of st obs now wall] by (fastforce simp: decide_def)


lemma shadow_for_begun [simp]: "shadow_for k (begun st obs now wall) = shadow_for k st"
  by (simp add: shadow_for_def cycle_begin_ok)

lemma may_act_begun:
  assumes "may_act (begun st obs now wall)"
  shows "ga_green (ob_gate obs) \<and> ob_supervisor_ok obs \<and> \<not> ob_in_flight obs \<and> (\<exists>t. po_started_mono st = Some t \<and> GRACE_S \<le> now - t)"
  using assms by (auto simp: may_act_def past_grace_def cycle_begin_ok GRACE_S_def split: option.splits)

lemma holds_begun:
  "lock_wait (begun st obs now wall) = lock_wait (new_cycle st obs now wall)"
  "global_failure (begun st obs now wall) = global_failure (new_cycle st obs now wall)"
  unfolding lock_wait_def global_failure_def cycle_begin_ok by (simp_all add: new_cycle_def policy_state.defs)

lemma set_start_acts:
  "x \<in> set (start_acts c rb sb) \<Longrightarrow> (x = start_act c False rb \<and> rb \<noteq> []) \<or> (x = start_act c True sb \<and> sb \<noteq> [])"
  by (auto simp: start_acts_def split: if_splits)

text \<open>
  C37. When the watchdog acts it is safe to. In a cycle with an action the cycle was not late, the database answered,
  supervisord answered, no earlier action was still running and the watchdog's own grace was over; the action is a dry run
  in observe mode and for a class that may not be restarted. A restart is the only action of its cycle, its program is one the
  process source reports as running, no session waits on a lock, no third of the programs fails, and by the liveness rules it had
  five misses in its window and failed its probe in this very cycle. Any other action starts programs that are reported
  FATAL, and no restart goes with it.
\<close>

theorem decide_actions_safe:
  assumes "decide st obs now wall = Inr (st', ds)" "d \<in> set ds" "dc_action d \<noteq> ALERT"
  shows "ob_lag_s obs \<le> STARVED_LAG_S \<and> ga_green (ob_gate obs) \<and> ob_supervisor_ok obs \<and> \<not> ob_in_flight obs \<and>
    (\<exists>t. po_started_mono st = Some t \<and> GRACE_S \<le> now - t) \<and> (dc_would d \<longleftrightarrow> po_mode st = OBSERVE \<or> dc_shadow d) \<and>
    (if dc_action d = RESTART
     then actions ds = [d] \<and> \<not> lock_wait (new_cycle st obs now wall) \<and> \<not> global_failure (new_cycle st obs now wall) \<and>
       (\<exists>p \<in> set (ob_programs obs). pf_name p = dc_program d \<and> managed p \<and> pf_state p = ''RUNNING'' \<and>
          dc_shadow d = shadow_for (klass p) st \<and>
          (dc_rule d \<in> {''R1'', ''R2''} \<longrightarrow>
             missed obs p \<and> (\<exists>w. windows (po_programs st') (pf_name p) = Some w \<and> MISSES_TO_TRIP \<le> misses w)))
     else dc_action d = START \<and> (\<forall>a \<in> set (actions ds). dc_action a = START) \<and>
       (\<forall>name \<in> set (dc_programs d). \<exists>p \<in> set (ob_programs obs).
          pf_name p = name \<and> managed p \<and> pf_state p = ''FATAL'' \<and> dc_shadow d = shadow_for (klass p) st))"
proof -
  define b where "b = begun st obs now wall"
  obtain xs where xs: "acts_ok b xs" "actions ds = map fst xs" "windows (po_programs st') = windows (po_programs b)"
    using decide_ok [of st obs now wall] assms(1) by (auto simp: b_def)
  have "d \<in> set (actions ds)" using assms(2,3) by (simp add: actions_def)
  then have d: "d \<in> fst ` set xs" using xs(2) by simp
  note begun = cycle_begin_ok [of st obs now wall, folded b_def] shadow_for_begun [of _ st obs now wall, folded b_def]
    holds_begun [of st obs now wall, folded b_def]
  from d have "xs \<noteq> []" by auto
  then have fresh: "ob_lag_s obs \<le> STARVED_LAG_S" using xs(1) begun(12) by (auto simp: acts_ok_def)
  from \<open>xs \<noteq> []\<close> xs(1) consider (restart) t where "may_restart b t" "xs = [restart_act b t]"
    | (start) rb sb where "xs = start_acts b rb sb" "\<forall>p \<in> set rb. may_start b p \<and> \<not> shadow_for (klass p) b"
        "\<forall>p \<in> set sb. may_start b p \<and> shadow_for (klass p) b"
    unfolding acts_ok_def by blast
  then show ?thesis
  proof cases
    case restart
    have "may_act b" using restart(1) by (simp add: may_restart_def)
    note act = may_act_begun [OF this [unfolded b_def]]
    have "tr_program t \<in> set (ob_programs obs)" "managed (tr_program t)" "pf_state (tr_program t) = ''RUNNING''"
      using restart(1) begun(13) by (auto simp: may_restart_def trip_ok_def)
    moreover have "dc_rule d \<in> {''R1'', ''R2''} \<longrightarrow> missed obs (tr_program t) \<and>
        (\<exists>w. windows (po_programs st') (pf_name (tr_program t)) = Some w \<and> MISSES_TO_TRIP \<le> misses w)"
      using restart d begun(8) xs(3) by (auto simp: may_restart_def trip_ok_def restart_act_def Let_def split: option.splits)
    moreover have "d = fst (restart_act b t)" using d restart(2) by simp
    moreover have "\<not> lock_wait b" "\<not> global_failure b" using restart(1) by (simp_all add: may_restart_def)
    ultimately show ?thesis
      using act fresh xs(2) restart(2) begun(1,18,19,20) by (auto simp: restart_act_def Let_def)
  next
    case start
    from d obtain sh batch where batch: "d = fst (start_act b sh batch)" "batch \<noteq> []"
      "\<forall>p \<in> set batch. may_start b p \<and> shadow_for (klass p) b = sh"
      using start by (auto dest!: set_start_acts)
    then have "may_act b" by (cases batch) (auto simp: may_start_def)
    note act = may_act_begun [OF this [unfolded b_def]]
    have "\<forall>a \<in> set (actions ds). dc_action a = START"
      using xs(2) start(1) by (auto simp: start_act_def Let_def dest!: set_start_acts)
    then show ?thesis
      using act fresh batch begun(1,8,18) by (auto simp: start_act_def Let_def may_start_def)
  qed
qed



section \<open>The budgets over time\<close>

text \<open>The cycles of the watchdog, one after the other, and every decision with the time of its cycle.\<close>

primrec run_policy :: "policy_state \<Rightarrow> (observation \<times> rat \<times> rat) list \<Rightarrow> (policy_state \<times> (rat \<times> decision) list) res" where
  "run_policy st [] = Inr (st, [])"
| "run_policy st (x # xs) =
     (case x of (obs, now, wall) \<Rightarrow>
        res_bind (decide st obs now wall) (\<lambda>(st', ds).
        res_bind (run_policy st' xs) (\<lambda>(st'', hist). Inr (st'', map (Pair wall) ds @ hist))))"

definition recent_booked :: "(booking \<Rightarrow> bool) \<Rightarrow> rat \<Rightarrow> booking list \<Rightarrow> nat" where
  "recent_booked booked w bs = length (filter (\<lambda>b. booked b \<and> recent w (bk_wall b)) bs)"

definition in_window :: "(decision \<Rightarrow> bool) \<Rightarrow> rat \<Rightarrow> (rat \<times> decision) list \<Rightarrow> nat" where
  "in_window counted t hist = length (filter (\<lambda>(w, d). counted d \<and> t - BUDGET_WINDOW_S < w \<and> w \<le> t) hist)"

definition recent_counted :: "(decision \<Rightarrow> bool) \<Rightarrow> rat \<Rightarrow> (rat \<times> decision) list \<Rightarrow> nat" where
  "recent_counted counted w hist = length (filter (\<lambda>(v, d). counted d \<and> recent w v) hist)"

lemma length_filter_mono: "(\<And>x. x \<in> set xs \<Longrightarrow> P x \<Longrightarrow> Q x) \<Longrightarrow> length (filter P xs) \<le> length (filter Q xs)"
  by (induction xs) (auto simp: le_SucI)

lemma filter_Pair:
  "length (filter (\<lambda>(v, d). counted d \<and> P v) (map (Pair wall) ds)) = (if P wall then length (filter counted ds) else 0)"
  by (induction ds) auto

lemma in_window_append:
  "in_window counted t (hist @ map (Pair wall) ds) =
     in_window counted t hist + (if t - BUDGET_WINDOW_S < wall \<and> wall \<le> t then length (filter counted ds) else 0)"
  using filter_Pair [of counted "\<lambda>w. t - BUDGET_WINDOW_S < w \<and> w \<le> t"] by (simp add: in_window_def)

lemma recent_counted_append:
  "recent_counted counted w (hist @ map (Pair wall) ds) =
     recent_counted counted w hist + (if recent w wall then length (filter counted ds) else 0)"
  using filter_Pair [of counted "recent w"] by (simp add: recent_counted_def)

text \<open>
  What keeps a budget: a cycle books what it counts, and counts something only once and only while fewer than \<open>limit\<close>
  recent bookings are there.
\<close>

locale cycle_budget =
  fixes counted :: "decision \<Rightarrow> bool" and booked :: "booking \<Rightarrow> bool" and shadow :: bool and limit :: nat
    and seen :: "observation \<Rightarrow> bool"
  assumes cycle_books: "decide st obs now wall = Inr (st', ds) \<Longrightarrow> seen obs \<Longrightarrow> wall \<le> w \<Longrightarrow>
      (if recent w wall then length (filter counted ds) else 0) + recent_booked booked w (bookings_of (po_ledger st) shadow)
        \<le> recent_booked booked w (bookings_of (po_ledger st') shadow)"
    and cycle_allowed: "decide st obs now wall = Inr (st', ds) \<Longrightarrow> seen obs \<Longrightarrow> filter counted ds \<noteq> [] \<Longrightarrow>
      length (filter counted ds) = 1 \<and> recent_booked booked wall (bookings_of (po_ledger st) shadow) < limit"
begin

definition kept :: "rat \<Rightarrow> (rat \<times> decision) list \<Rightarrow> policy_state \<Rightarrow> bool" where
  "kept w0 hist st \<longleftrightarrow> (\<forall>(w, d) \<in> set hist. w \<le> w0) \<and>
     (\<forall>w \<ge> w0. recent_counted counted w hist \<le> recent_booked booked w (bookings_of (po_ledger st) shadow)) \<and>
     (\<forall>t. in_window counted t hist \<le> limit)"

lemma window_recent:
  assumes "\<forall>(w, d) \<in> set hist. w \<le> wall" "wall \<le> t"
  shows "in_window counted t hist \<le> recent_counted counted wall hist"
  unfolding in_window_def recent_counted_def
proof (rule length_filter_mono)
  fix e
  assume "e \<in> set hist" "case e of (w, d) \<Rightarrow> counted d \<and> t - BUDGET_WINDOW_S < w \<and> w \<le> t"
  then show "case e of (v, d) \<Rightarrow> counted d \<and> recent wall v"
    using assms by (auto simp: recent_iff)
qed

lemma kept_cycle:
  assumes "kept w0 hist st" "decide st obs now wall = Inr (st', ds)" "seen obs" "w0 \<le> wall"
  shows "kept wall (hist @ map (Pair wall) ds) st'"
proof -
  have old: "\<forall>(w, d) \<in> set hist. w \<le> wall" using assms(1,4) by (force simp: kept_def)
  have "in_window counted t (hist @ map (Pair wall) ds) \<le> limit" for t
  proof (cases "filter counted ds = [] \<or> \<not> wall \<le> t")
    case True
    then show ?thesis using assms(1) by (auto simp: in_window_append kept_def)
  next
    case False
    then have new: "length (filter counted ds) = 1" "recent_booked booked wall (bookings_of (po_ledger st) shadow) < limit"
      using cycle_allowed [OF assms(2,3)] by simp_all
    have "in_window counted t hist \<le> recent_counted counted wall hist" using window_recent [OF old] False by simp
    also have "\<dots> \<le> recent_booked booked wall (bookings_of (po_ledger st) shadow)" using assms(1,4) by (simp add: kept_def)
    finally show ?thesis using new by (simp add: in_window_append)
  qed
  moreover have "recent_counted counted w (hist @ map (Pair wall) ds) \<le> recent_booked booked w (bookings_of (po_ledger st') shadow)"
    if "wall \<le> w" for w
  proof -
    have "recent_counted counted w hist \<le> recent_booked booked w (bookings_of (po_ledger st) shadow)"
      using assms(1,4) that by (simp add: kept_def)
    then show ?thesis using cycle_books [OF assms(2,3) that] by (simp add: recent_counted_append split: if_splits)
  qed
  ultimately show ?thesis using old by (auto simp: kept_def)
qed

theorem run_budget:
  assumes "run_policy st cycles = Inr (st', hist)" "\<forall>(obs, now, wall) \<in> set cycles. seen obs"
    "sorted (map (\<lambda>(obs, now, wall). wall) cycles)"
  shows "in_window counted t hist \<le> limit"
proof -
  have "in_window counted t (hist0 @ hist) \<le> limit"
    if "kept w0 hist0 st" "run_policy st cycles = Inr (st', hist)" "\<forall>(obs, now, wall) \<in> set cycles. seen obs"
      "sorted (map (\<lambda>(obs, now, wall). wall) cycles)" "\<forall>(obs, now, wall) \<in> set cycles. w0 \<le> wall" for w0 hist0
    using that
  proof (induction cycles arbitrary: w0 hist0 st hist)
    case Nil
    then show ?case by (auto simp: kept_def)
  next
    case (Cons x cycles)
    obtain obs now wall where x: "x = (obs, now, wall)" by (cases x)
    obtain st1 ds hist1 where step: "decide st obs now wall = Inr (st1, ds)" "run_policy st1 cycles = Inr (st', hist1)"
      "hist = map (Pair wall) ds @ hist1"
      using Cons.prems(2) x by auto
    have "kept wall (hist0 @ map (Pair wall) ds) st1" using kept_cycle [OF Cons.prems(1) step(1)] Cons.prems(3,5) x by auto
    from Cons.IH [OF this step(2)] show ?case using Cons.prems(3,4) step(3) x by fastforce
  qed
  moreover have "kept (case cycles of [] \<Rightarrow> 0 | (obs, now, wall) # _ \<Rightarrow> wall) [] st"
    by (auto simp: kept_def in_window_def recent_counted_def)
  moreover have "\<forall>(obs, now, wall) \<in> set cycles. (case cycles of [] \<Rightarrow> 0 | (obs, now, wall) # _ \<Rightarrow> wall) \<le> wall"
    using assms(3) by (cases cycles) auto
  ultimately show ?thesis using assms by fastforce
qed

end

text \<open>The bookings of a cycle.\<close>

lemma age_mono: "wall \<le> w \<Longrightarrow> age wall v \<le> age w v"
  by (simp add: age_def max.coboundedI2)

lemma recent_booked_prune:
  assumes "wall \<le> w"
  shows "recent_booked booked w (bookings_of (prune wall l) sh) = recent_booked booked w (bookings_of l sh)"
proof -
  have "recent w v \<Longrightarrow> recent wall v" for v using age_mono [OF assms, of v] by (simp add: recent_def)
  then show ?thesis by (auto simp: recent_booked_def bookings_of_def prune_def intro!: arg_cong [where f = length] filter_cong)
qed


lemma recent_booked_append [simp]:
  "recent_booked booked w (xs @ ys) = recent_booked booked w xs + recent_booked booked w ys"
  by (simp add: recent_booked_def)

lemma filter_actions: "(\<And>d. counted d \<Longrightarrow> dc_action d \<noteq> ALERT) \<Longrightarrow> filter counted ds = filter counted (actions ds)"
  by (auto simp: actions_def intro!: filter_cong)

text \<open>Every decision that counts has a booking of this cycle that counts.\<close>

lemma booked_acts:
  assumes "\<forall>x \<in> set xs. counted (fst x) \<longrightarrow> dc_shadow (fst x) = sh \<and> (\<exists>b \<in> set (snd x). booked b \<and> bk_wall b = wall)" "recent w wall"
  shows "length (filter counted (map fst xs)) \<le> recent_booked booked w (concat (map snd (filter (\<lambda>x. dc_shadow (fst x) = sh) xs)))"
  using assms(1)
proof (induction xs)
  case (Cons x xs)
  have "1 \<le> recent_booked booked w (snd x)" if counted: "counted (fst x)"
  proof -
    obtain b where "b \<in> set (snd x)" "booked b" "bk_wall b = wall" using counted Cons.prems by auto
    then have "filter (\<lambda>b. booked b \<and> recent w (bk_wall b)) (snd x) \<noteq> []" using assms(2) by (auto simp: filter_empty_conv)
    then show ?thesis by (simp add: recent_booked_def Suc_le_eq)
  qed
  then show ?case using Cons by auto
qed simp

lemma decide_books:
  assumes d: "decide st obs now wall = Inr (st', ds)" and w: "wall \<le> w"
    and counts: "\<And>d. counted d \<Longrightarrow> dc_action d \<noteq> ALERT"
    and acts: "\<And>xs x. acts_ok (begun st obs now wall) xs \<Longrightarrow> x \<in> set xs \<Longrightarrow> counted (fst x) \<Longrightarrow>
      dc_shadow (fst x) = sh \<and> (\<exists>b \<in> set (snd x). booked b \<and> bk_wall b = wall)"
  shows "(if recent w wall then length (filter counted ds) else 0) + recent_booked booked w (bookings_of (po_ledger st) sh)
    \<le> recent_booked booked w (bookings_of (po_ledger st') sh)"
proof -
  obtain xs where xs: "acts_ok (begun st obs now wall) xs" "actions ds = map fst xs" "bookings_of (po_ledger st') sh =
      bookings_of (prune wall (po_ledger st)) sh @ concat (map snd (filter (\<lambda>x. dc_shadow (fst x) = sh) xs))"
    using decide_ok [of st obs now wall] d by auto
  have "filter counted ds = filter counted (map fst xs)" using filter_actions [OF counts] xs(2) by metis
  moreover have "length (filter counted (map fst xs)) \<le> recent_booked booked w (concat (map snd (filter (\<lambda>x. dc_shadow (fst x) = sh) xs)))"
    if "recent w wall"
    by (rule booked_acts [where wall = wall]) (use acts [OF xs(1)] that in auto)
  ultimately show ?thesis using xs(3) recent_booked_prune [OF w] by simp
qed

lemma free_at_None: "free_at program pool action shadow wall l = None \<Longrightarrow> budget_allows program pool action wall (bookings_of l shadow)"
proof -
  assume free: "free_at program pool action shadow wall l = None"
  then have "\<not> (\<exists>u. lg_exhausted_until l = Some u \<and> wall < u)" by (auto simp: free_at_def)
  then show ?thesis using free free_at_None_iff by blast
qed

lemma within_budget:
  assumes "\<not> over_limit (begun st obs now wall) p action sh"
  shows "budget_allows (pf_name p) (pool_of (klass p)) action wall (bookings_of (po_ledger st) sh)"
proof -
  have "restarts_in P a wall (bookings_of (po_ledger (begun st obs now wall)) sh) = restarts_in P a wall (bookings_of (po_ledger st) sh)" for P a
    using recent_booked_prune [of wall wall "\<lambda>b. P b \<and> bk_action b = a" "po_ledger st" sh]
    by (cases sh) (simp_all add: restarts_in_def recent_booked_def bookings_of_def cycle_begin_ok conj_assoc)
  then have "budget_allows program pool action wall (bookings_of (po_ledger (begun st obs now wall)) sh) =
      budget_allows program pool action wall (bookings_of (po_ledger st) sh)" for program pool
    by (simp only: budget_allows_def)
  then show ?thesis
    using assms free_at_None [of "pf_name p" "pool_of (klass p)" action sh wall "po_ledger (begun st obs now wall)"]
    by (simp add: over_limit_def cycle_begin_ok)
qed

definition is_restart_of :: "string \<Rightarrow> bool \<Rightarrow> decision \<Rightarrow> bool" where
  "is_restart_of program sh d \<longleftrightarrow> dc_action d = RESTART \<and> dc_program d = program \<and> dc_shadow d = sh"

definition is_restart_in :: "(string \<Rightarrow> string) \<Rightarrow> string \<Rightarrow> bool \<Rightarrow> decision \<Rightarrow> bool" where
  "is_restart_in pool q sh d \<longleftrightarrow> dc_action d = RESTART \<and> pool (dc_program d) = q \<and> dc_shadow d = sh"

definition is_start_of :: "string \<Rightarrow> bool \<Rightarrow> decision \<Rightarrow> bool" where
  "is_start_of program sh d \<longleftrightarrow> dc_action d = START \<and> program \<in> set (dc_programs d) \<and> dc_shadow d = sh"

definition pools_known :: "(string \<Rightarrow> string) \<Rightarrow> observation \<Rightarrow> bool" where
  "pools_known pool obs \<longleftrightarrow> (\<forall>p \<in> set (ob_programs obs). managed p \<longrightarrow> pool (pf_name p) = pool_of (klass p))"

lemma restart_cases:
  assumes "acts_ok (begun st obs now wall) xs" "x \<in> set xs" "dc_action (fst x) = RESTART"
  obtains t where "xs = [x]" "x = restart_act (begun st obs now wall) t" "tr_program t \<in> set (ob_programs obs)" "managed (tr_program t)"
    "budget_allows (pf_name (tr_program t)) (pool_of (klass (tr_program t))) RESTART wall (bookings_of (po_ledger st) (dc_shadow (fst x)))"
proof -
  let ?b = "begun st obs now wall"
  consider (restart) t where "may_restart ?b t" "xs = [restart_act ?b t]" | (start) rb sb where "xs = start_acts ?b rb sb"
    using assms(1,2) unfolding acts_ok_def by auto
  then show thesis
  proof cases
    case restart
    then have x: "x = restart_act ?b t" using assms(2) by simp
    have "tr_program t \<in> set (cy_running ?b)" "\<not> over_limit ?b (tr_program t) RESTART (shadow_for (klass (tr_program t)) ?b)"
      using restart(1) by (simp_all add: may_restart_def trip_ok_def)
    then show thesis
      using that [of t] restart(2) x within_budget [of st obs now wall "tr_program t" RESTART]
      by (simp add: cycle_begin_ok restart_act_def Let_def)
  next
    case start
    then show thesis using assms(2,3) by (auto simp: start_act_def Let_def dest!: set_start_acts)
  qed
qed


lemma start_cases:
  assumes "acts_ok (begun st obs now wall) xs" "x \<in> set xs" "dc_action (fst x) = START"
  obtains batch where "x = start_act (begun st obs now wall) (dc_shadow (fst x)) batch" "filter (\<lambda>y. dc_shadow (fst y) = dc_shadow (fst x)) xs = [x]"
    "\<And>p. p \<in> set batch \<Longrightarrow> budget_allows (pf_name p) (pool_of (klass p)) START wall (bookings_of (po_ledger st) (dc_shadow (fst x)))"
proof -
  let ?b = "begun st obs now wall"
  have sh: "dc_shadow (fst (start_act ?b s batch)) = s" for s batch by (simp add: start_act_def Let_def)
  consider (restart) t where "xs = [restart_act ?b t]"
    | (start) rb sb where "xs = start_acts ?b rb sb" "\<forall>p \<in> set rb. may_start ?b p \<and> \<not> shadow_for (klass p) ?b"
        "\<forall>p \<in> set sb. may_start ?b p \<and> shadow_for (klass p) ?b"
    using assms(1,2) unfolding acts_ok_def by auto
  then show thesis
  proof cases
    case restart
    then show thesis using assms(2,3) by (simp add: restart_act_def Let_def)
  next
    case start
    define batch where "batch = (if dc_shadow (fst x) then sb else rb)"
    have "x = start_act ?b (dc_shadow (fst x)) batch" "filter (\<lambda>y. dc_shadow (fst y) = dc_shadow (fst x)) xs = [x]"
      using assms(2) start(1) by (auto simp: start_acts_def batch_def sh split: if_splits)
    moreover have "\<not> over_limit ?b p START (dc_shadow (fst x))" if "p \<in> set batch" for p
      using that start(2,3) by (cases "dc_shadow (fst x)") (auto simp: batch_def may_start_def)
    ultimately show thesis using that within_budget by blast
  qed
qed

lemma length_counted:
  assumes "actions ds = map fst xs" "\<And>d. counted d \<Longrightarrow> dc_action d \<noteq> ALERT" "filter (\<lambda>x. P (fst x)) xs = [x]" "counted (fst x)"
    "\<And>d. counted d \<Longrightarrow> P d"
  shows "length (filter counted ds) = 1"
proof -
  have "filter counted ds = filter counted (map fst xs)" using filter_actions [OF assms(2)] assms(1) by metis
  also have "\<dots> = map fst (filter (\<lambda>x. counted (fst x)) (filter (\<lambda>x. P (fst x)) xs))"
    using assms(5) by (auto simp: filter_map o_def intro!: arg_cong [where f = "map fst"] filter_cong)
  finally show ?thesis using assms(3,4) by simp
qed

lemma counted_act:
  assumes "decide st obs now wall = Inr (st', ds)" "filter counted ds \<noteq> []" "\<And>d. counted d \<Longrightarrow> dc_action d \<noteq> ALERT"
  obtains xs x where "acts_ok (begun st obs now wall) xs" "actions ds = map fst xs" "x \<in> set xs" "counted (fst x)"
proof -
  obtain xs where xs: "acts_ok (begun st obs now wall) xs" "actions ds = map fst xs"
    using decide_ok [of st obs now wall] assms(1) by auto
  from assms(2) obtain d where "d \<in> set ds" "counted d" by (auto simp: filter_empty_conv)
  then have "d \<in> set (actions ds)" using assms(3) by (simp add: actions_def)
  then show thesis using that xs \<open>counted d\<close> by auto
qed

lemma one_restart:
  assumes "decide st obs now wall = Inr (st', ds)" "filter counted ds \<noteq> []"
    "\<And>d. counted d \<Longrightarrow> dc_action d = RESTART \<and> dc_shadow d = sh"
  obtains t where "length (filter counted ds) = 1" "counted (fst (restart_act (begun st obs now wall) t))"
    "tr_program t \<in> set (ob_programs obs)" "managed (tr_program t)"
    "budget_allows (pf_name (tr_program t)) (pool_of (klass (tr_program t))) RESTART wall (bookings_of (po_ledger st) sh)"
proof -
  have acts: "\<And>d. counted d \<Longrightarrow> dc_action d \<noteq> ALERT" using assms(3) by fastforce
  obtain xs x where xs: "acts_ok (begun st obs now wall) xs" "actions ds = map fst xs" "x \<in> set xs" "counted (fst x)"
    by (rule counted_act [OF assms(1,2) acts])
  then have act: "dc_action (fst x) = RESTART" and sh: "dc_shadow (fst x) = sh" using assms(3) by auto
  obtain t where t: "xs = [x]" "x = restart_act (begun st obs now wall) t" "tr_program t \<in> set (ob_programs obs)"
    "managed (tr_program t)"
    "budget_allows (pf_name (tr_program t)) (pool_of (klass (tr_program t))) RESTART wall (bookings_of (po_ledger st) sh)"
    by (rule restart_cases [OF xs(1,3) act, unfolded sh])
  have "length (filter counted ds) = 1"
    by (rule length_counted [OF xs(2) acts, where P = "\<lambda>_. True" and x = x]) (use t(1) xs(4) in auto)
  then show thesis using that t(2-5) xs(4) by blast
qed

lemma restart_booked:
  assumes "acts_ok (begun st obs now wall) xs" "x \<in> set xs" "dc_action (fst x) = RESTART"
  shows "\<exists>b \<in> set (snd x). bk_action b = RESTART \<and> bk_wall b = wall \<and> bk_program b = dc_program (fst x) \<and>
    (pools_known pool obs \<longrightarrow> bk_pool b = pool (dc_program (fst x)))"
proof (rule restart_cases [OF assms])
  fix t
  assume "x = restart_act (begun st obs now wall) t" "tr_program t \<in> set (ob_programs obs)" "managed (tr_program t)"
  then show ?thesis by (auto simp: restart_act_def act_booking_def cycle_begin_ok pools_known_def Let_def)
qed

text \<open>The three budgets: restarts of a program, restarts in a pool, starts of a program.\<close>

interpretation program_restarts: cycle_budget "is_restart_of program sh" "\<lambda>b. bk_action b = RESTART \<and> bk_program b = program" sh
    PROGRAM_BUDGET "\<lambda>_. True" for program sh
proof (unfold_locales, goal_cases)
  case (1 st obs now wall st' ds w)
  have "\<exists>b \<in> set (snd x). (bk_action b = RESTART \<and> bk_program b = program) \<and> bk_wall b = wall"
    if "acts_ok (begun st obs now wall) xs" "x \<in> set xs" "is_restart_of program sh (fst x)" for xs x
    using restart_booked [OF that(1,2)] that(3) by (auto simp: is_restart_of_def)
  then show ?case by (intro decide_books [OF 1(1,3)]) (auto simp: is_restart_of_def)
next
  case (2 st obs now wall st' ds)
  show ?case
  proof (rule one_restart [OF 2(1,3), of sh])
    fix t
    assume "length (filter (is_restart_of program sh) ds) = 1" "is_restart_of program sh (fst (restart_act (begun st obs now wall) t))"
      "budget_allows (pf_name (tr_program t)) (pool_of (klass (tr_program t))) RESTART wall (bookings_of (po_ledger st) sh)"
    then show ?case
      by (auto simp: is_restart_of_def restart_act_def Let_def budget_allows_def restarts_in_def recent_booked_def conj_ac)
  qed (simp add: is_restart_of_def)
qed

interpretation pool_restarts: cycle_budget "is_restart_in pool q sh" "\<lambda>b. bk_action b = RESTART \<and> bk_pool b = q" sh
    POOL_BUDGET "pools_known pool" for pool q sh
proof (unfold_locales, goal_cases)
  case (1 st obs now wall st' ds w)
  have "\<exists>b \<in> set (snd x). (bk_action b = RESTART \<and> bk_pool b = q) \<and> bk_wall b = wall"
    if "acts_ok (begun st obs now wall) xs" "x \<in> set xs" "is_restart_in pool q sh (fst x)" for xs x
    using restart_booked [OF that(1,2), of pool] that(3) 1(2) by (auto simp: is_restart_in_def)
  then show ?case by (intro decide_books [OF 1(1,3)]) (auto simp: is_restart_in_def)
next
  case (2 st obs now wall st' ds)
  show ?case
  proof (rule one_restart [OF 2(1,3), of sh])
    fix t
    assume "length (filter (is_restart_in pool q sh) ds) = 1" "is_restart_in pool q sh (fst (restart_act (begun st obs now wall) t))"
      "tr_program t \<in> set (ob_programs obs)" "managed (tr_program t)"
      "budget_allows (pf_name (tr_program t)) (pool_of (klass (tr_program t))) RESTART wall (bookings_of (po_ledger st) sh)"
    then show ?case
      using 2(2) by (auto simp: is_restart_in_def restart_act_def pools_known_def Let_def budget_allows_def restarts_in_def
          recent_booked_def conj_ac)
  qed (simp add: is_restart_in_def)
qed

interpretation program_starts: cycle_budget "is_start_of program sh" "\<lambda>b. bk_action b = START \<and> bk_program b = program" sh
    FATAL_PROGRAM_BUDGET "\<lambda>_. True" for program sh
proof (unfold_locales, goal_cases)
  case (1 st obs now wall st' ds w)
  have "\<exists>b \<in> set (snd x). (bk_action b = START \<and> bk_program b = program) \<and> bk_wall b = wall"
    if x: "acts_ok (begun st obs now wall) xs" "x \<in> set xs" "is_start_of program sh (fst x)" for xs x
  proof -
    have "dc_action (fst x) = START" using x(3) by (simp add: is_start_of_def)
    from start_cases [OF x(1,2) this] obtain s batch where "x = start_act (begun st obs now wall) s batch" by blast
    then show ?thesis using x(3) by (auto simp: is_start_of_def start_act_def act_booking_def cycle_begin_ok Let_def)
  qed
  then show ?case
    by (intro decide_books [OF 1(1,3)]) (auto simp: is_start_of_def)
next
  case (2 st obs now wall st' ds)
  obtain xs x where xs: "acts_ok (begun st obs now wall) xs" "actions ds = map fst xs" "x \<in> set xs" "is_start_of program sh (fst x)"
    by (rule counted_act [OF 2(1,3)]) (auto simp: is_start_of_def)
  then have act: "dc_action (fst x) = START" and sh: "dc_shadow (fst x) = sh" by (simp_all add: is_start_of_def)
  show ?case
  proof (rule start_cases [OF xs(1,3) act, unfolded sh])
    fix batch
    assume batch: "x = start_act (begun st obs now wall) sh batch" "filter (\<lambda>y. dc_shadow (fst y) = sh) xs = [x]"
      "\<And>p. p \<in> set batch \<Longrightarrow> budget_allows (pf_name p) (pool_of (klass p)) START wall (bookings_of (po_ledger st) sh)"
    have "length (filter (is_start_of program sh) ds) = 1"
      by (rule length_counted [OF xs(2) _ batch(2)]) (use xs(4) in \<open>auto simp: is_start_of_def\<close>)
    moreover obtain p where "p \<in> set batch" "pf_name p = program"
      using xs(4) batch(1) by (auto simp: is_start_of_def start_act_def Let_def)
    ultimately show ?case using batch(3) [of p] by (auto simp: budget_allows_def restarts_in_def recent_booked_def conj_ac)
  qed
qed


text \<open>
  C36. However the cycles go and whatever they see, in any hour the watchdog decides at most two restarts of a program, at most three in
  a pool and at most two starts of a program, dry runs of the shadow ledger counted apart. The clock may stand still
  between two cycles but not go back, and a program keeps its pool.
\<close>

theorem restart_budget:
  assumes "run_policy st cycles = Inr (st', hist)" "sorted (map (\<lambda>(obs, now, wall). wall) cycles)"
    "\<forall>(obs, now, wall) \<in> set cycles. pools_known pool obs"
  shows "in_window (is_restart_of program sh) t hist \<le> PROGRAM_BUDGET \<and>
    in_window (is_restart_in pool q sh) t hist \<le> POOL_BUDGET \<and>
    in_window (is_start_of program sh) t hist \<le> FATAL_PROGRAM_BUDGET"
  using program_restarts.run_budget [OF assms(1) _ assms(2), of program sh t]
    pool_restarts.run_budget [OF assms(1,3,2), of q sh t] program_starts.run_budget [OF assms(1) _ assms(2), of program sh t]
  by auto

text \<open>A contest web server that misses its sixth probe of seven, beside two that answer.\<close>

definition example_program :: "string \<Rightarrow> string \<Rightarrow> int \<Rightarrow> program_facts" where
  "example_program name kind pid =
     \<lparr>pf_name = name, pf_kind = Some kind, pf_shard = Some 0, pf_state = ''RUNNING'', pf_pid = Some pid, pf_start_wall = Some 0\<rparr>"

definition example_probe :: "bool \<Rightarrow> probe" where
  "example_probe ok = \<lparr>pr_ok = ok, pr_latency_s = None, pr_error = ''''\<rparr>"

definition example_observation :: observation where
  "example_observation =
     \<lparr>ob_lag_s = 0, ob_since_previous_s = Some 15, ob_supervisor_ok = True,
      ob_programs = [example_program ''ws'' ''ContestWebServer'' 7, example_program ''log'' ''LogService'' 8,
                     example_program ''ps'' ''ProxyService'' 9],
      ob_gate = \<lparr>ga_green = True, ga_reason = '''', ga_backends = []\<rparr>, ob_http = [(''ws'', example_probe False)],
      ob_rpc = [(''log'', example_probe True), (''ps'', example_probe True)],
      ob_health = [(''log'', JInt 3), (''ps'', JDict [(''busy'', JList [JNull])])], ob_workers = None, ob_rankings = [],
      ob_holder_cpu = None, ob_in_flight = False\<rparr>"

definition example_state :: policy_state where
  "example_state =
     (new_policy_state ENFORCE [''web''] empty_ledger)
       \<lparr>po_started_mono := Some 0, po_green_since_mono := Some 0, po_green_cycles := 9, po_summary_mono := Some 0,
        po_programs := [(''ws'', new_program_state\<lparr>ps_pid := Some 7, ps_window := [False, True, True, True, True, True]\<rparr>)]\<rparr>"

definition example_restart :: decision where
  "example_restart =
     (new_decision RESTART)\<lparr>dc_key := (''ws'', ''R1''), dc_program := ''ws'', dc_rule := ''R1''\<rparr>"


theorem decide_actions_safe_witness:
  "\<exists>st'. decide example_state example_observation 1000 1000 = Inr (st', [example_restart]) \<and>
     dc_action example_restart = RESTART \<and> \<not> dc_would example_restart \<and>
     (\<exists>w. windows (po_programs st') ''ws'' = Some w \<and> MISSES_TO_TRIP \<le> misses w)"
proof -
  have "map_sum id snd (decide example_state example_observation 1000 1000) = Inr [example_restart]" by code_simp
  then obtain st' where st': "decide example_state example_observation 1000 1000 = Inr (st', [example_restart])"
    by (cases "decide example_state example_observation 1000 1000") auto
  have restart: "dc_action example_restart = RESTART" "dc_program example_restart = ''ws''" "dc_rule example_restart = ''R1''"
    "\<not> dc_shadow example_restart" "po_mode example_state \<noteq> OBSERVE"
    by (simp_all add: example_restart_def new_decision_def example_state_def new_policy_state_def ENFORCE_def OBSERVE_def)
  then show ?thesis using decide_actions_safe [OF st', of example_restart] st' by auto
qed

theorem restart_budget_witness:
  "\<exists>st' hist. run_policy example_state [(example_observation, 1000, 1000), (example_observation, 1015, 1015)] = Inr (st', hist) \<and>
     in_window (is_restart_of ''ws'' False) 1015 hist = 1 \<and>
     in_window (is_restart_of ''ws'' False) 1015 hist \<le> PROGRAM_BUDGET \<and>
     in_window (is_restart_in (\<lambda>_. SERVICES_POOL) SERVICES_POOL False) 1015 hist \<le> POOL_BUDGET"
proof -
  let ?run = "run_policy example_state [(example_observation, 1000, 1000), (example_observation, 1015, 1015)]"
  have "map_sum id (\<lambda>r. in_window (is_restart_of ''ws'' False) 1015 (snd r)) ?run = Inr 1" by code_simp
  then obtain st' hist where run: "?run = Inr (st', hist)" and one: "in_window (is_restart_of ''ws'' False) 1015 hist = 1"
    by (cases ?run) auto
  have "pools_known (\<lambda>_. SERVICES_POOL) example_observation" by code_simp
  then have "\<forall>(obs, now, wall) \<in> set [(example_observation, 1000 :: rat, 1000 :: rat), (example_observation, 1015, 1015)].
      pools_known (\<lambda>_. SERVICES_POOL) obs" by simp
  from restart_budget [OF run _ this, of "''ws''" False 1015 SERVICES_POOL] show ?thesis using run one by auto
qed

end
