(* ===== verification/WhiteDiff.thy ===== *)
theory WhiteDiff
  imports Prelude
begin

text \<open>
  The comparison of outputs, from \<^verbatim>\<open>cms/grading/steps/whitediff.py\<close>. A file is the list of the bytes still to
  be read; a byte is a \<open>char\<close>. A text is the list of its code points.
\<close>

section \<open>Model\<close>

type_synonym bytes = "char list"
type_synonym py_str = "nat list"

definition WHITES :: "char list" where
  "WHITES = [CHR '' '', CHR 0x09, CHR 0x0A, CHR 0x0B, CHR 0x0C, CHR 0x0D]"

text \<open>\<^verbatim>\<open>bytes.replace\<close> of one byte by another, \<^verbatim>\<open>bytes.split\<close> at one byte and \<^verbatim>\<open>bytes.join\<close> with one byte.\<close>

definition replace_byte :: "char \<Rightarrow> char \<Rightarrow> bytes \<Rightarrow> bytes" where
  "replace_byte a b s = map (\<lambda>x. if x = a then b else x) s"

fun split_bytes :: "char \<Rightarrow> bytes \<Rightarrow> bytes list" where
  "split_bytes sep [] = [[]]"
| "split_bytes sep (x # s) =
     (if x = sep then [] # split_bytes sep s
      else (case split_bytes sep s of [] \<Rightarrow> [[x]] | t # ts \<Rightarrow> (x # t) # ts))"

fun join_bytes :: "char \<Rightarrow> bytes list \<Rightarrow> bytes" where
  "join_bytes sep [] = []"
| "join_bytes sep [t] = t"
| "join_bytes sep (t # ts) = t @ sep # join_bytes sep ts"

definition white_diff_canonicalize :: "bytes \<Rightarrow> bytes" where
  "white_diff_canonicalize s =
     (let s = foldl (\<lambda>s c. replace_byte c (hd WHITES) s) s (tl WHITES)
      in join_bytes (hd WHITES) (filter (\<lambda>x. 0 < length x) (split_bytes (hd WHITES) s)))"

text \<open>\<^verbatim>\<open>readline\<close>: up to the next newline, which is part of the line, or to the end of the file.\<close>

fun readline :: "bytes \<Rightarrow> bytes \<times> bytes" where
  "readline [] = ([], [])"
| "readline (x # f) = (if x = CHR 0x0A then ([x], f) else (let (l, r) = readline f in (x # l, r)))"

text \<open>\<^verbatim>\<open>bytes.strip\<close>.\<close>

definition strip :: "char list \<Rightarrow> bytes \<Rightarrow> bytes" where
  "strip cs s = rev (dropWhile (\<lambda>x. x \<in> set cs) (rev (dropWhile (\<lambda>x. x \<in> set cs) s)))"

text \<open>
  \<^verbatim>\<open>decode("utf-8", errors='backslashreplace')\<close>. One well-formed sequence at the front gives its code point and its
  length; a byte that starts none is written as a backslash, an x and two hexadecimal digits.
\<close>

definition continuation :: "nat \<Rightarrow> bool" where
  "continuation b \<longleftrightarrow> 0x80 \<le> b \<and> b \<le> 0xBF"

fun utf8_head :: "nat list \<Rightarrow> (nat \<times> nat) option" where
  "utf8_head [] = None"
| "utf8_head (a # s) =
     (if a < 0x80 then Some (a, 1)
      else if 0xC2 \<le> a \<and> a \<le> 0xDF then
        (case s of b # _ \<Rightarrow> if continuation b then Some ((a - 0xC0) * 64 + (b - 0x80), 2) else None | _ \<Rightarrow> None)
      else if 0xE0 \<le> a \<and> a \<le> 0xEF then
        (case s of
           b # c # _ \<Rightarrow>
             if continuation b \<and> continuation c \<and> (a = 0xE0 \<longrightarrow> 0xA0 \<le> b) \<and> (a = 0xED \<longrightarrow> b \<le> 0x9F)
             then Some ((a - 0xE0) * 4096 + (b - 0x80) * 64 + (c - 0x80), 3) else None
         | _ \<Rightarrow> None)
      else if 0xF0 \<le> a \<and> a \<le> 0xF4 then
        (case s of
           b # c # d # _ \<Rightarrow>
             if continuation b \<and> continuation c \<and> continuation d \<and> (a = 0xF0 \<longrightarrow> 0x90 \<le> b) \<and> (a = 0xF4 \<longrightarrow> b \<le> 0x8F)
             then Some ((a - 0xF0) * 262144 + (b - 0x80) * 4096 + (c - 0x80) * 64 + (d - 0x80), 4) else None
         | _ \<Rightarrow> None)
      else None)"

definition text_of :: "string \<Rightarrow> py_str" where
  "text_of s = map of_char s"

definition hex_digit :: "nat \<Rightarrow> nat" where
  "hex_digit n = (if n < 10 then 48 + n else 87 + n)"

definition backslash :: "nat \<Rightarrow> py_str" where
  "backslash b = [92, 120, hex_digit (b div 16), hex_digit (b mod 16)]"

function (sequential) decode_utf8 :: "nat list \<Rightarrow> py_str" where
  "decode_utf8 [] = []"
| "decode_utf8 (b # s) =
     (case utf8_head (b # s) of
        None \<Rightarrow> backslash b @ decode_utf8 s
      | Some (point, n) \<Rightarrow> point # decode_utf8 (drop (n - 1) s))"
  by pat_completeness auto
termination by (relation "measure length") auto

definition LENGTH_LIMIT :: nat where "LENGTH_LIMIT = 100"

definition shown :: "bytes \<Rightarrow> py_str" where
  "shown l =
     (let l = (if LENGTH_LIMIT < length l then take LENGTH_LIMIT l @ ''...'' else l)
      in concat (map (\<lambda>p. if p = 0 then text_of [CHR 0x5C, CHR ''x'', CHR ''0'', CHR ''0''] else [p]) (decode_utf8 (map of_char l))))"

definition difference_text :: "bytes \<Rightarrow> bytes \<Rightarrow> nat \<Rightarrow> py_str" where
  "difference_text lout lres line =
     text_of ''Expected `'' @ shown lres @ text_of ''`, found `'' @ shown lout @ text_of ''` on line '' @ text_of (str_int (int line))"

lemma readline_append: "fst (readline f) @ snd (readline f) = f"
  by (induction f) (auto split: prod.split)

lemma readline_Nil_iff [simp]: "fst (readline f) = [] \<longleftrightarrow> f = []"
  by (cases f) (auto split: prod.split)

lemma readline_length: "length (snd (readline f)) + length (fst (readline f)) = length f"
  using arg_cong [OF readline_append, of length f] by simp

lemma readline_eq_length: "(l, r) = readline f \<Longrightarrow> length f = length r + length l"
  using readline_length [of f] by (cases "readline f") simp

text \<open>\<^verbatim>\<open>_white_diff\<close> from the line that comes after \<open>line\<close> on.\<close>

function white_diff_from :: "nat \<Rightarrow> bytes \<Rightarrow> bytes \<Rightarrow> bool \<times> py_str option" where
  "white_diff_from line output res =
     (let (lout, output') = readline output; (lres, res') = readline res; line = line + 1 in
      if lres = [] \<and> lout = [] then (True, None)
      else if lres = [] \<or> lout = [] then
        (if strip WHITES lout \<noteq> [] then (False, Some (text_of ''Contestant output too long''))
         else if strip WHITES lres \<noteq> [] then (False, Some (text_of ''Contestant output too short''))
         else white_diff_from line output' res')
      else if white_diff_canonicalize lout \<noteq> white_diff_canonicalize lres then
        (False, Some (difference_text (white_diff_canonicalize lout) (white_diff_canonicalize lres) line))
      else white_diff_from line output' res')"
  by pat_completeness auto

termination
proof (relation "measure (\<lambda>(line, f, g). length f + length g)", goal_cases)
  case (2 line f g x lout f' y lres g' n)
  then show ?case using readline_eq_length [of lout f' f] readline_eq_length [of lres g' g] by (cases lout; cases lres) auto
next
  case (3 line f g x lout f' y lres g' n)
  then show ?case using readline_eq_length [of lout f' f] readline_eq_length [of lres g' g] by (cases lout; cases lres) auto
qed simp

declare white_diff_from.simps [simp del]

definition white_diff :: "bytes \<Rightarrow> bytes \<Rightarrow> bool \<times> py_str option" where
  "white_diff output res = white_diff_from 0 output res"

definition white_diff_fobj_step :: "bytes \<Rightarrow> bytes \<Rightarrow> rat \<times> string list \<times> py_str option" where
  "white_diff_fobj_step output correct_output =
     (let (correct, admin_text) = white_diff output correct_output
      in if correct then (1, [''Output is correct''], admin_text)
         else (0, [''Output isn'' @ [CHR 0x27] @ ''t correct''], admin_text))"

text \<open>The files of the sandbox are a map; reading a file that is not there raises.\<close>

definition white_diff_step :: "(string \<Rightarrow> bytes option) \<Rightarrow> string \<Rightarrow> string \<Rightarrow> (rat \<times> string list \<times> py_str option) res" where
  "white_diff_step sandbox output_filename correct_output_filename =
     (case sandbox output_filename of
        None \<Rightarrow> Inr (0, [''Evaluation didn'' @ [CHR 0x27] @ ''t produce file %s'', output_filename], None)
      | Some out_file \<Rightarrow>
          (case sandbox correct_output_filename of
             None \<Rightarrow> Inl FileNotFoundError
           | Some res_file \<Rightarrow> Inr (white_diff_fobj_step out_file res_file)))"



section \<open>Words and lines\<close>

text \<open>The words of a text: its maximal runs of bytes that are no whitespace. This is what the canonical form stands for.\<close>

abbreviation (input) white :: "char \<Rightarrow> bool" where
  "white x \<equiv> x \<in> set WHITES"

function words :: "bytes \<Rightarrow> bytes list" where
  "words s =
     (case dropWhile white s of
        [] \<Rightarrow> []
      | x # t \<Rightarrow> takeWhile (\<lambda>y. \<not> white y) (x # t) # words (dropWhile (\<lambda>y. \<not> white y) (x # t)))"
  by pat_completeness auto
termination
proof (relation "measure length", goal_cases)
  case (2 s x t)
  then have "\<not> white x" by (metis hd_dropWhile list.discI list.sel(1))
  moreover have "length (x # t) \<le> length s" using 2 by (metis length_dropWhile_le)
  ultimately show ?case
    using length_dropWhile_le [of "\<lambda>y. \<not> white y" t] by simp
qed simp

declare words.simps [simp del]

lemma words_Nil [simp]: "words [] = []"
  by (simp add: words.simps)

lemma words_white: "white x \<Longrightarrow> words (x # s) = words s"
  by (simp add: words.simps [of "x # s"] words.simps [of s])

lemma words_Nil_iff: "words s = [] \<longleftrightarrow> (\<forall>x \<in> set s. white x)"
proof -
  have "words s = [] \<longleftrightarrow> dropWhile white s = []"
    by (cases "dropWhile white s") (simp_all add: words.simps [of s] del: dropWhile_eq_Nil_conv)
  then show ?thesis by (simp add: dropWhile_eq_Nil_conv)
qed

lemma words_append_white:
  assumes "\<not> white x" "\<forall>y \<in> set u. \<not> white y" "v = [] \<or> white (hd v)"
  shows "words (x # u @ v) = (x # u) # words v"
proof -
  have "takeWhile (\<lambda>y. \<not> white y) (x # u @ v) = x # u" "dropWhile (\<lambda>y. \<not> white y) (x # u @ v) = v"
    using assms by (auto simp: takeWhile_append2 dropWhile_append2 takeWhile_eq_Nil_iff dropWhile_eq_self_iff)
  then show ?thesis using assms(1) by (simp only: words.simps [of "x # u @ v"]) simp
qed

text \<open>Induction along the words.\<close>

lemma words_induct [case_names Nil white word]:
  assumes "P []" "\<And>x s. white x \<Longrightarrow> P s \<Longrightarrow> P (x # s)"
    "\<And>x u v. \<not> white x \<Longrightarrow> \<forall>y \<in> set u. \<not> white y \<Longrightarrow> v = [] \<or> white (hd v) \<Longrightarrow> P v \<Longrightarrow> P (x # u @ v)"
  shows "P s"
proof (induction s rule: length_induct)
  case (1 s)
  show ?case
  proof (cases s)
    case Nil
    then show ?thesis using assms(1) by simp
  next
    case (Cons x t)
    show ?thesis
    proof (cases "white x")
      case True
      then show ?thesis using 1 Cons assms(2) by simp
    next
      case False
      let ?u = "takeWhile (\<lambda>y. \<not> white y) t" and ?v = "dropWhile (\<lambda>y. \<not> white y) t"
      have "?v = [] \<or> white (hd ?v)" using hd_dropWhile [of "\<lambda>y. \<not> white y" t] by blast
      moreover have "length ?v < length s" using Cons length_dropWhile_le [of "\<lambda>y. \<not> white y" t] by (simp add: less_Suc_eq_le)
      then have "P ?v" using 1 by blast
      moreover have "\<forall>y \<in> set ?u. \<not> white y" by (auto dest: set_takeWhileD)
      ultimately have "P (x # ?u @ ?v)" using assms(3) False by blast
      then show ?thesis using Cons by simp
    qed
  qed
qed

lemma words_clean: "w \<in> set (words s) \<Longrightarrow> w \<noteq> [] \<and> (\<forall>y \<in> set w. \<not> white y)"
  by (induction s rule: words_induct) (auto simp: words_white words_append_white simp del: append_Cons append_assoc)

section \<open>The canonical form\<close>

lemma split_no_sep: "sep \<notin> set u \<Longrightarrow> split_bytes sep u = [u]"
  by (induction u) auto

lemma split_append_sep: "sep \<notin> set u \<Longrightarrow> split_bytes sep (u @ sep # v) = u # split_bytes sep v"
  by (induction u) auto

lemma split_not_Nil [simp]: "split_bytes sep s \<noteq> []"
  by (induction s) (auto split: list.split)

lemma split_join:
  assumes "\<forall>w \<in> set ws. w \<noteq> [] \<and> sep \<notin> set w"
  shows "filter (\<lambda>x. x \<noteq> []) (split_bytes sep (join_bytes sep ws)) = ws"
  using assms
  by (induction sep ws rule: join_bytes.induct) (auto simp: split_no_sep split_append_sep)

definition blank :: "char \<Rightarrow> char" where
  "blank x = (if white x then CHR '' '' else x)"

lemma replace_whites: "foldl (\<lambda>s c. replace_byte c (hd WHITES) s) s (tl WHITES) = map blank s"
  by (auto simp: WHITES_def replace_byte_def blank_def)

lemma split_blank: "filter (\<lambda>x. x \<noteq> []) (split_bytes (CHR '' '') (map blank s)) = words s"
proof (induction s rule: words_induct)
  case (white x s)
  then show ?case by (simp add: words_white blank_def)
next
  case (word x u v)
  have space: "CHR '' '' \<in> set WHITES" by (simp add: WHITES_def)
  have u: "map blank (x # u) = x # u" using word(1,2) by (auto simp: blank_def map_idI)
  have sep: "CHR '' '' \<notin> set (x # u)" using word(1,2) space by auto
  have "split_bytes (CHR '' '') (map blank (x # u @ v)) = (x # u) # (if v = [] then [] else split_bytes (CHR '' '') (map blank (tl v)))"
  proof (cases v)
    case Nil
    then show ?thesis using u split_no_sep [OF sep] by simp
  next
    case (Cons y v')
    then have "map blank (x # u @ v) = (x # u) @ CHR '' '' # map blank v'" using u word(3) by (simp add: blank_def)
    then show ?thesis using split_append_sep [OF sep] Cons by simp
  qed
  moreover have "filter (\<lambda>x. x \<noteq> []) (split_bytes (CHR '' '') (map blank v)) =
      (if v = [] then [] else filter (\<lambda>x. x \<noteq> []) (split_bytes (CHR '' '') (map blank (tl v))))"
    using word(3) by (cases v) (auto simp: blank_def)
  ultimately show ?case using word by (simp add: words_append_white del: append_Cons)
qed simp

lemma canonicalize_words: "white_diff_canonicalize s = join_bytes (CHR '' '') (words s)"
  unfolding white_diff_canonicalize_def Let_def replace_whites length_greater_0_conv by (simp add: WHITES_def split_blank)

text \<open>Two texts have the same canonical form exactly when they have the same words.\<close>

lemma canonicalize_eq_iff: "white_diff_canonicalize a = white_diff_canonicalize b \<longleftrightarrow> words a = words b"
proof -
  have "\<forall>w \<in> set (words s). w \<noteq> [] \<and> CHR '' '' \<notin> set w" for s
    using words_clean [of _ s] by (auto simp: WHITES_def)
  then have "filter (\<lambda>x. x \<noteq> []) (split_bytes (CHR '' '') (white_diff_canonicalize s)) = words s" for s
    unfolding canonicalize_words by (rule split_join)
  then show ?thesis by (metis canonicalize_words)
qed

lemma strip_Nil_iff: "strip WHITES s = [] \<longleftrightarrow> words s = []"
proof -
  have "strip WHITES s = [] \<longleftrightarrow> (\<forall>x \<in> set (dropWhile white s). white x)"
    by (simp add: strip_def dropWhile_eq_Nil_conv)
  also have "\<dots> \<longleftrightarrow> dropWhile white s = []"
    using hd_dropWhile [of white s] hd_in_set [of "dropWhile white s"]
    by (cases "dropWhile white s") (auto simp del: dropWhile_eq_Nil_conv)
  finally show ?thesis by (simp add: words_Nil_iff dropWhile_eq_Nil_conv)
qed



section \<open>The comparison\<close>

text \<open>Line \<open>i\<close> of a file, counted from 0; a file that has ended has empty lines.\<close>

definition nth_line :: "nat \<Rightarrow> bytes \<Rightarrow> bytes" where
  "nth_line i f = (let ls = split_bytes (CHR 0x0A) f in if i < length ls then ls ! i else [])"

primrec line_at :: "nat \<Rightarrow> bytes \<Rightarrow> bytes" where
  "line_at 0 f = fst (readline f)"
| "line_at (Suc i) f = line_at i (snd (readline f))"

lemma line_at_Nil [simp]: "line_at i [] = []"
  by (induction i) auto

lemma readline_eq_Nil: "readline f = ([], r) \<Longrightarrow> f = []"
  using readline_Nil_iff [of f] by simp

lemma split_readline:
  "split_bytes (CHR 0x0A) f =
     (if CHR 0x0A \<in> set f
      then butlast (fst (readline f)) # split_bytes (CHR 0x0A) (snd (readline f)) else [fst (readline f)])"
  by (induction f) (auto split: prod.split list.split dest: readline_eq_Nil)

lemma readline_newline:
  "(CHR 0x0A \<in> set f \<longrightarrow> fst (readline f) = butlast (fst (readline f)) @ [CHR 0x0A]) \<and> (CHR 0x0A \<notin> set f \<longrightarrow> snd (readline f) = [])"
  by (induction f) (auto split: prod.split dest: readline_eq_Nil)

lemma words_append_newline: "words (s @ [CHR 0x0A]) = words s"
proof (induction s rule: words_induct)
  case Nil
  then show ?case by (simp add: words_white WHITES_def)
next
  case (white x s)
  then show ?case by (simp add: words_white)
next
  case (word x u v)
  have "CHR 0x0A \<in> set WHITES" by (simp add: WHITES_def)
  then have "words (x # u @ (v @ [CHR 0x0A])) = (x # u) # words (v @ [CHR 0x0A])"
    using word by (intro words_append_white) (auto simp: hd_append)
  then show ?case using word words_append_white [OF word(1-3)] by simp
qed

lemma words_line_at: "words (line_at i f) = words (nth_line i f)"
proof (induction i arbitrary: f)
  case 0
  show ?case
  proof (cases "CHR 0x0A \<in> set f")
    case True
    then have "nth_line 0 f = butlast (fst (readline f))" by (simp add: nth_line_def split_readline [of f])
    then show ?thesis using True readline_newline [of f] words_append_newline by (metis line_at.simps(1))
  next
    case False
    then show ?thesis by (simp add: nth_line_def split_readline [of f])
  qed
next
  case (Suc i)
  show ?case
  proof (cases "CHR 0x0A \<in> set f")
    case True
    then have "nth_line (Suc i) f = nth_line i (snd (readline f))" by (simp add: nth_line_def split_readline [of f])
    then show ?thesis using Suc [of "snd (readline f)"] by simp
  next
    case False
    then have "nth_line (Suc i) f = []" "snd (readline f) = []"
      using readline_newline [of f] by (simp_all add: nth_line_def split_readline [of f])
    then show ?thesis by simp
  qed
qed

definition same_lines :: "bytes \<Rightarrow> bytes \<Rightarrow> bool" where
  "same_lines f g \<longleftrightarrow> (\<forall>i. words (nth_line i f) = words (nth_line i g))"

text \<open>What \<^verbatim>\<open>_white_diff\<close> reports: the first line on which the words differ.\<close>

definition report :: "nat \<Rightarrow> bytes \<Rightarrow> bytes \<Rightarrow> nat \<Rightarrow> py_str" where
  "report line f g k =
     (if line_at k g = [] then text_of ''Contestant output too long''
      else if line_at k f = [] then text_of ''Contestant output too short''
      else difference_text (white_diff_canonicalize (line_at k f)) (white_diff_canonicalize (line_at k g)) (line + k + 1))"

definition first_difference :: "bytes \<Rightarrow> bytes \<Rightarrow> nat \<Rightarrow> bool" where
  "first_difference f g k \<longleftrightarrow>
     (\<forall>i < k. words (line_at i f) = words (line_at i g)) \<and> words (line_at k f) \<noteq> words (line_at k g)"

lemma first_difference_Suc:
  assumes "words (line_at 0 f) = words (line_at 0 g)" "first_difference (snd (readline f)) (snd (readline g)) k"
  shows "first_difference f g (Suc k)"
  using assms by (auto simp: first_difference_def less_Suc_eq_0_disj)

lemma white_diff_from_cases:
  "(white_diff_from line f g = (True, None) \<and> (\<forall>i. words (line_at i f) = words (line_at i g))) \<or>
   (\<exists>k. white_diff_from line f g = (False, Some (report line f g k)) \<and> first_difference f g k)"
proof (induction "length f + length g" arbitrary: line f g rule: less_induct)
  case less
  obtain lout f' where f: "readline f = (lout, f')" by (cases "readline f")
  obtain lres g' where g: "readline g = (lres, g')" by (cases "readline g")
  have lines: "line_at 0 f = lout" "line_at 0 g = lres" using f g by simp_all
  note simps = white_diff_from.simps [of line f g] f g Let_def
  consider (ended) "lres = []" "lout = []" | (differ) "words lout \<noteq> words lres" | (agree) "words lout = words lres" "\<not> (lres = [] \<and> lout = [])"
    by blast
  then show ?case
  proof cases
    case ended
    then have "f = []" "g = []" using f g readline_Nil_iff by (metis fst_conv)+
    then show ?thesis by (simp add: white_diff_from.simps)
  next
    case differ
    then have "first_difference f g 0" using lines by (simp add: first_difference_def)
    moreover have "white_diff_from line f g = (False, Some (report line f g 0))"
      using differ lines by (auto simp: simps strip_Nil_iff canonicalize_eq_iff report_def)
    ultimately show ?thesis by blast
  next
    case agree
    have smaller: "length f' + length g' < length f + length g"
      using agree(2) readline_eq_length [of lout f' f] readline_eq_length [of lres g' g] f g by (cases lout; cases lres) auto
    have step: "white_diff_from line f g = white_diff_from (line + 1) f' g'"
      using agree by (auto simp: simps strip_Nil_iff canonicalize_eq_iff)
    have tails: "snd (readline f) = f'" "snd (readline g) = g'" using f g by simp_all
    from less.hyps [OF smaller, of "line + 1"] show ?thesis
    proof (elim disjE exE conjE)
      assume same: "\<forall>i. words (line_at i f') = words (line_at i g')" and "white_diff_from (line + 1) f' g' = (True, None)"
      have "words (line_at i f) = words (line_at i g)" for i
        using agree(1) lines same tails by (cases i) auto
      then show ?thesis using step \<open>white_diff_from (line + 1) f' g' = (True, None)\<close> by simp
    next
      fix k
      assume "white_diff_from (line + 1) f' g' = (False, Some (report (line + 1) f' g' k))" "first_difference f' g' k"
      moreover from this(2) have "first_difference f g (Suc k)"
        using first_difference_Suc [of f g k] agree(1) lines tails by simp
      moreover have "report (line + 1) f' g' k = report line f g (Suc k)" by (simp add: report_def tails)
      ultimately show ?thesis using step by auto
    qed
  qed
qed

text \<open>
  C39. Two outputs are accepted as equal exactly when each line of one has the same words as that line of the other, where a
  line that is missing has none. Otherwise the message tells of the first line where they differ, counted from 1, with both lines in
  canonical form, or that the contestant's output is too long or too short.
\<close>

theorem white_diff_correct:
  "(fst (white_diff f g) \<longleftrightarrow> same_lines f g) \<and>
   (same_lines f g \<longrightarrow> snd (white_diff f g) = None) \<and>
   (\<not> same_lines f g \<longrightarrow> (\<exists>k. first_difference f g k \<and> snd (white_diff f g) = Some (report 0 f g k)))"
proof -
  have "same_lines f g \<longleftrightarrow> (\<forall>i. words (line_at i f) = words (line_at i g))" by (simp add: same_lines_def words_line_at)
  then show ?thesis
    using white_diff_from_cases [of 0 f g] by (auto simp: white_diff_def first_difference_def)
qed


theorem white_diff_correct_witness:
  "fst (white_diff (''1  2'' @ [CHR 0x0A, CHR 0x0A]) (''1 2 '')) \<and>
   same_lines (''1  2'' @ [CHR 0x0A, CHR 0x0A]) (''1 2 '') \<and>
   \<not> same_lines (''1'' @ [CHR 0x0A] @ ''3'') (''1'' @ [CHR 0x0A] @ ''4'') \<and>
   (\<exists>k. first_difference (''1'' @ [CHR 0x0A] @ ''3'') (''1'' @ [CHR 0x0A] @ ''4'') k \<and>
     report 0 (''1'' @ [CHR 0x0A] @ ''3'') (''1'' @ [CHR 0x0A] @ ''4'') k = text_of ''Expected `4`, found `3` on line 2'')"
proof -
  have 1: "white_diff (''1  2'' @ [CHR 0x0A, CHR 0x0A]) (''1 2 '') = (True, None)" by code_simp
  have 2: "white_diff (''1'' @ [CHR 0x0A] @ ''3'') (''1'' @ [CHR 0x0A] @ ''4'') =
      (False, Some (text_of ''Expected `4`, found `3` on line 2''))" by code_simp
  show ?thesis
    using white_diff_correct [of "''1  2'' @ [CHR 0x0A, CHR 0x0A]" "''1 2 ''"]
      white_diff_correct [of "''1'' @ [CHR 0x0A] @ ''3''" "''1'' @ [CHR 0x0A] @ ''4''"]
    unfolding 1 2 by auto
qed

section \<open>The message can be stored\<close>

text \<open>A text column takes every Unicode scalar value but NUL.\<close>

definition storable :: "py_str \<Rightarrow> bool" where
  "storable t \<longleftrightarrow> (\<forall>p \<in> set t. 0 < p \<and> p \<le> 0x10FFFF \<and> \<not> (0xD800 \<le> p \<and> p \<le> 0xDFFF))"

lemma storable_append [simp]: "storable (s @ t) \<longleftrightarrow> storable s \<and> storable t"
  by (auto simp: storable_def)

text \<open>The ranges of the well-formed sequences of three and four bytes.\<close>

definition scalar :: "nat \<Rightarrow> bool" where
  "scalar p \<longleftrightarrow> p \<le> 0x10FFFF \<and> \<not> (0xD800 \<le> p \<and> p \<le> 0xDFFF)"

lemma three_scalar:
  assumes "x \<le> 15" "y \<le> 63" "z \<le> 63" "x = 13 \<longrightarrow> y \<le> 31"
  shows "scalar (x * 4096 + y * 64 + z)"
proof -
  consider "x \<le> 12" | "x = 13" | "14 \<le> x" by linarith
  then have "x * 4096 + y * 64 + z < 0xD800 \<or> 0xDFFF < x * 4096 + y * 64 + z" using assms by cases linarith+
  moreover have "x * 4096 + y * 64 + z \<le> 0x10FFFF" using assms by linarith
  ultimately show ?thesis unfolding scalar_def by linarith
qed

lemma four_scalar:
  assumes "x \<le> 4" "y \<le> 63" "z \<le> 63" "w \<le> 63" "x = 0 \<longrightarrow> 16 \<le> y" "x = 4 \<longrightarrow> y \<le> 15"
  shows "scalar (x * 262144 + y * 4096 + z * 64 + w)"
proof -
  consider "x = 0" | "1 \<le> x" "x \<le> 3" | "x = 4" using assms(1) by linarith
  then have "0xDFFF < x * 262144 + y * 4096 + z * 64 + w \<and> x * 262144 + y * 4096 + z * 64 + w \<le> 0x10FFFF"
    using assms by cases linarith+
  then show ?thesis unfolding scalar_def by linarith
qed

lemma continuation_low: "continuation b \<Longrightarrow> b - 0x80 \<le> 63"
  unfolding continuation_def by linarith

declare utf8_head.simps(2) [simp del]

lemma utf8_head_scalar:
  assumes "utf8_head s = Some (p, n)"
  shows "scalar p"
proof -
  obtain a t where s: "s = a # t" using assms by (cases s) auto
  note head = assms [unfolded s utf8_head.simps]
  consider (one) "a < 0x80" | (two) "0xC2 \<le> a" "a \<le> 0xDF" | (three) "0xE0 \<le> a" "a \<le> 0xEF" | (four) "0xF0 \<le> a" "a \<le> 0xF4"
    | (none) "0x80 \<le> a" "a < 0xC2 \<or> 0xF4 < a"
    by linarith
  then show ?thesis
  proof cases
    case one
    then show ?thesis using head by (simp add: scalar_def)
  next
    case two
    then obtain b where b: "continuation b" and p: "p = (a - 0xC0) * 64 + (b - 0x80)"
      using head by (simp split: list.splits if_splits)
    have "a - 0xC0 \<le> 31" using two by linarith
    then have "(a - 0xC0) * 64 + (b - 0x80) < 0xD800" using continuation_low [OF b] by linarith
    then show ?thesis unfolding p scalar_def by linarith
  next
    case three
    then obtain b c where b: "continuation b" "continuation c" "a = 0xED \<longrightarrow> b \<le> 0x9F"
      and p: "p = (a - 0xE0) * 4096 + (b - 0x80) * 64 + (c - 0x80)"
      using head by (simp split: list.splits if_splits)
    have "a - 0xE0 = 13 \<longrightarrow> b - 0x80 \<le> 31" using three b(3) by auto
    then show ?thesis unfolding p using three continuation_low b(1,2) by (intro three_scalar) auto
  next
    case four
    then obtain b c d where b: "continuation b" "continuation c" "continuation d" "a = 0xF0 \<longrightarrow> 0x90 \<le> b" "a = 0xF4 \<longrightarrow> b \<le> 0x8F"
      and p: "p = (a - 0xF0) * 262144 + (b - 0x80) * 4096 + (c - 0x80) * 64 + (d - 0x80)"
      using head by (simp split: list.splits if_splits)
    have "a - 0xF0 = 0 \<longrightarrow> 16 \<le> b - 0x80" "a - 0xF0 = 4 \<longrightarrow> b - 0x80 \<le> 15" using four b(4,5) by auto
    then show ?thesis unfolding p using four continuation_low b(1-3) by (intro four_scalar) auto
  next
    case none
    then show ?thesis using head by auto
  qed
qed

lemma backslash_scalar: "b < 256 \<Longrightarrow> p \<in> set (backslash b) \<Longrightarrow> scalar p"
proof -
  assume "b < 256" and p: "p \<in> set (backslash b)"
  then have "b div 16 < 16" "b mod 16 < 16" by auto
  then have "p \<le> 200" using p by (auto simp: backslash_def hex_digit_def)
  then show ?thesis by (simp add: scalar_def)
qed

lemma decode_scalar: "\<forall>b \<in> set s. b < 256 \<Longrightarrow> \<forall>p \<in> set (decode_utf8 s). scalar p"
proof (induction s rule: decode_utf8.induct)
  case (2 b s)
  show ?case
  proof (cases "utf8_head (b # s)")
    case None
    then show ?thesis using 2(1) [OF None] 2(3) backslash_scalar by auto
  next
    case (Some r)
    then obtain q n where r: "utf8_head (b # s) = Some (q, n)" by (cases r) auto
    have "\<forall>b \<in> set (drop (n - 1) s). b < 256" using 2(3) by (meson in_set_dropD list.set_intros(2))
    then show ?thesis using utf8_head_scalar [OF r] 2(2) [OF r refl] r by simp
  qed
qed simp

lemma storable_shown: "storable (shown l)"
proof -
  have bytes: "\<forall>b \<in> set (map of_char l). b < (256 :: nat)" for l :: bytes by auto
  have escaped: "storable (concat (map (\<lambda>p. if p = 0 then text_of [CHR 0x5C, CHR ''x'', CHR ''0'', CHR ''0''] else [p]) t))"
    if "\<forall>p \<in> set t. scalar p" for t
  proof -
    have "storable (text_of [CHR 0x5C, CHR ''x'', CHR ''0'', CHR ''0''])" "storable []" by (simp_all add: storable_def text_of_def)
    moreover have "scalar p \<Longrightarrow> p \<noteq> 0 \<Longrightarrow> storable [p]" for p by (simp add: storable_def scalar_def)
    ultimately show ?thesis using that by (induction t) simp_all
  qed
  show ?thesis unfolding shown_def Let_def by (rule escaped [OF decode_scalar [OF bytes]])
qed

lemma storable_digit: "d < 10 \<Longrightarrow> storable (text_of [char_of (48 + d :: nat)])"
  by (simp add: storable_def text_of_def)

lemma storable_digits: "storable (text_of (digits n))"
proof (induction n rule: digits.induct)
  case (1 n)
  have split: "text_of (s @ t) = text_of s @ text_of t" for s t by (simp add: text_of_def)
  show ?case
  proof (cases "n < 10")
    case True
    then show ?thesis using storable_digit by (simp add: digits.simps [of n])
  next
    case False
    then show ?thesis using 1 storable_digit [of "n mod 10"] by (simp add: digits.simps [of n] split)
  qed
qed

text \<open>
  C40. Whatever bytes the two outputs hold, invalid UTF-8 and NUL included, a message of the comparison is text that the
  database can store: every code point is a Unicode scalar value and none is NUL.
\<close>

theorem white_diff_message_storable: "case snd (white_diff f g) of None \<Rightarrow> True | Some t \<Rightarrow> storable t"
proof -
  have "storable (report 0 f g k)" for k
  proof -
    have "storable (text_of ''Contestant output too long'')" "storable (text_of ''Contestant output too short'')"
      "storable (text_of ''Expected `'')" "storable (text_of ''`, found `'')" "storable (text_of ''` on line '')"
      by (simp_all add: storable_def text_of_def)
    moreover have "storable (text_of (str_int (int (k + 1))))" using storable_digits by (simp add: str_int_def)
    ultimately show ?thesis using storable_shown by (simp add: report_def difference_text_def)
  qed
  then show ?thesis using white_diff_from_cases [of 0 f g] by (auto simp: white_diff_def)
qed

end
