(* ===== verification/SubmissionFiles.thy ===== *)
theory SubmissionFiles
  imports WhiteDiff
begin

text \<open>
  The files of a submission, from \<^verbatim>\<open>cms/server/contest/submission/file_retrieval.py\<close> and \<^verbatim>\<open>file_matching.py\<close>: what a
  contestant sent is matched against the format of the task, and the language is found. The installed
  languages are an argument, and so is the reading of archives. A set of codenames is a list without repetitions.
\<close>

section \<open>Model\<close>

text \<open>The errors of this package, and any other exception.\<close>

datatype files_error =
    InvalidArchive bool bool
  | InvalidFiles
  | InvalidFilesOrLanguage
  | FilesRaised py_error

primrec try_bind :: "'e + 'a \<Rightarrow> ('a \<Rightarrow> 'e + 'b) \<Rightarrow> 'e + 'b" where
  "try_bind (Inl e) f = Inl e"
| "try_bind (Inr x) f = f x"

subsection \<open>Receiving\<close>

record received_file =
  rf_codename :: "string option"
  rf_filename :: "string option"
  rf_content :: bytes

text \<open>A file as Tornado gives it.\<close>

record http_file =
  hf_filename :: string
  hf_body :: bytes

text \<open>
  What the reading of an archive gives: nothing if it cannot be opened; otherwise its regular files with path,
  size and contents, where contents that cannot be read are \<open>None\<close>, and whether listing the files fails after these.
\<close>

type_synonym archive_reader = "bytes \<Rightarrow> ((string \<times> int \<times> bytes option) list \<times> bool) option"

text \<open>\<^verbatim>\<open>PurePosixPath(filepath).name\<close>: the last part of the path that is neither empty nor a dot.\<close>

definition path_name :: "string \<Rightarrow> string" where
  "path_name filepath =
     (let parts = filter (\<lambda>x. x \<noteq> '''' \<and> x \<noteq> ''.'') (split_bytes (CHR ''/'') filepath)
      in if parts = [] then '''' else last parts)"

fun extract_entries :: "int option \<Rightarrow> int option \<Rightarrow> int \<Rightarrow> received_file list \<Rightarrow> bool \<Rightarrow> (string \<times> int \<times> bytes option) list \<Rightarrow>
    files_error + received_file list" where
  "extract_entries max_size max_files acc result fails [] =
     (if fails then Inl (InvalidArchive False False) else Inr result)"
| "extract_entries max_size max_files acc result fails ((filepath, bytes_no, content) # entries) =
     (let acc = acc + bytes_no in
      if (case max_size of None \<Rightarrow> False | Some m \<Rightarrow> m < acc) then Inl (InvalidArchive True False)
      else if (case max_files of None \<Rightarrow> False | Some m \<Rightarrow> m < int (length result) + 1) then Inl (InvalidArchive False True)
      else case content of
        None \<Rightarrow> Inl (InvalidArchive False False)
      | Some data \<Rightarrow> extract_entries max_size max_files acc
          (result @ [\<lparr>rf_codename = None, rf_filename = Some (path_name filepath), rf_content = data\<rparr>]) fails entries)"

definition extract_files_from_archive :: "archive_reader \<Rightarrow> bytes \<Rightarrow> int option \<Rightarrow> int option \<Rightarrow> files_error + received_file list" where
  "extract_files_from_archive open_archive data max_size max_files =
     (case open_archive data of
        None \<Rightarrow> Inl (InvalidArchive False False)
      | Some (entries, fails) \<Rightarrow> extract_entries max_size max_files 0 [] fails entries)"

definition extract_files_from_tornado :: "archive_reader \<Rightarrow> (string, http_file list) dict \<Rightarrow> int option \<Rightarrow> int option \<Rightarrow>
    files_error + received_file list" where
  "extract_files_from_tornado open_archive tornado_files max_size max_files =
     (case tornado_files of
        [(name, [f])] \<Rightarrow>
          if name = ''submission'' then extract_files_from_archive open_archive (hf_body f) max_size max_files
          else Inr [\<lparr>rf_codename = Some name, rf_filename = Some (hf_filename f), rf_content = hf_body f\<rparr>]
      | _ \<Rightarrow>
          Inr (concat (map (\<lambda>(codename, files).
            map (\<lambda>f. \<lparr>rf_codename = Some codename, rf_filename = Some (hf_filename f), rf_content = hf_body f\<rparr>) files) tornado_files)))"


subsection \<open>Matching one file\<close>

record language =
  la_name :: string
  la_source_extensions :: "string list"

definition ends_with :: "string \<Rightarrow> string \<Rightarrow> bool" where
  "ends_with s suf \<longleftrightarrow> length suf \<le> length s \<and> drop (length s - length suf) s = suf"

text \<open>
  \<^verbatim>\<open>os.path.splitext(p)[0]\<close>: what comes before the last dot, if that dot is in the last component and not
  only dots of it come before; otherwise all of it.
\<close>

definition splitext_base :: "string \<Rightarrow> string" where
  "splitext_base p =
     (let tail = rev (takeWhile (\<lambda>c. c \<noteq> CHR ''/'') (rev p));
          ext = rev (takeWhile (\<lambda>c. c \<noteq> CHR ''.'') (rev tail));
          stem = take (length tail - length ext - 1) tail
      in if CHR ''.'' \<in> set tail \<and> (\<exists>c \<in> set stem. c \<noteq> CHR ''.'') then take (length p - length ext - 1) p else p)"

abbreviation (input) PERCENT_L :: string where
  "PERCENT_L \<equiv> ''.%l''"

definition match_filename :: "string \<Rightarrow> language option \<Rightarrow> string \<Rightarrow> files_error + bool" where
  "match_filename filename language element =
     (if \<not> ends_with element PERCENT_L then Inr (filename = element)
      else case language of
        None \<Rightarrow> Inl (FilesRaised ValueError)
      | Some l \<Rightarrow> Inr (list_ex (\<lambda>ext. filename = splitext_base element @ ext) (la_source_extensions l)))"

definition match_extension :: "string option \<Rightarrow> language option \<Rightarrow> string \<Rightarrow> files_error + bool" where
  "match_extension filename language element =
     (case filename of
        None \<Rightarrow> Inr True
      | Some name \<Rightarrow>
          if \<not> ends_with element PERCENT_L then Inr True
          else case language of
            None \<Rightarrow> Inl (FilesRaised ValueError)
          | Some l \<Rightarrow> Inr (list_ex (\<lambda>ext. ends_with name ext) (la_source_extensions l)))"

fun matching_elements :: "string \<Rightarrow> language option \<Rightarrow> string list \<Rightarrow> files_error + string list" where
  "matching_elements filename language [] = Inr []"
| "matching_elements filename language (e # es) =
     try_bind (match_filename filename language e) (\<lambda>b.
     try_bind (matching_elements filename language es) (\<lambda>ms. Inr (if b then e # ms else ms)))"

definition match_file :: "string option \<Rightarrow> string option \<Rightarrow> language option \<Rightarrow> string list \<Rightarrow> files_error + string" where
  "match_file codename filename language submission_format =
     (case codename of
        None \<Rightarrow>
          (case filename of
             None \<Rightarrow> Inl InvalidFiles
           | Some name \<Rightarrow>
               try_bind (matching_elements name language submission_format) (\<lambda>ms.
                 case ms of [e] \<Rightarrow> Inr e | _ \<Rightarrow> Inl InvalidFiles))
      | Some code \<Rightarrow>
          if code \<in> set submission_format
          then try_bind (match_extension filename language code) (\<lambda>b. if b then Inr code else Inl InvalidFiles)
          else Inl InvalidFiles)"

fun match_files_from :: "(string, bytes) dict \<Rightarrow> received_file list \<Rightarrow> language option \<Rightarrow> string list \<Rightarrow>
    files_error + (string, bytes) dict" where
  "match_files_from files [] language submission_format = Inr files"
| "match_files_from files (f # given_files) language submission_format =
     try_bind (match_file (rf_codename f) (rf_filename f) language submission_format) (\<lambda>codename.
       if dict_get files codename \<noteq> None then Inl InvalidFiles
       else match_files_from (dict_set codename (rf_content f) files) given_files language submission_format)"

definition match_files :: "received_file list \<Rightarrow> language option \<Rightarrow> string list \<Rightarrow> files_error + (string, bytes) dict" where
  "match_files given_files language submission_format = match_files_from [] given_files language submission_format"


subsection \<open>Matching with a language\<close>

text \<open>\<^verbatim>\<open>get_language\<close>: of two languages with one name the one loaded last counts.\<close>

definition get_language :: "language list \<Rightarrow> string \<Rightarrow> language res" where
  "get_language languages name =
     (case dict_get (rev (map (\<lambda>l. (la_name l, l)) languages)) name of None \<Rightarrow> Inl KeyError | Some l \<Rightarrow> Inr l)"

definition candidate_languages :: "language list \<Rightarrow> string option \<Rightarrow> string list \<Rightarrow> string list option \<Rightarrow> files_error + language option list" where
  "candidate_languages languages given_language_name submission_format allowed_language_names =
     (if \<not> list_ex (\<lambda>e. ends_with e PERCENT_L) submission_format then
        (if given_language_name \<noteq> None then Inl InvalidFilesOrLanguage else Inr [None])
      else case given_language_name of
        Some name \<Rightarrow>
          (case get_language languages name of
             Inl _ \<Rightarrow> Inl InvalidFilesOrLanguage
           | Inr l \<Rightarrow>
               if (case allowed_language_names of None \<Rightarrow> False | Some allowed \<Rightarrow> la_name l \<notin> set allowed)
               then Inl InvalidFilesOrLanguage else Inr [Some l])
      | None \<Rightarrow>
          (case allowed_language_names of
             None \<Rightarrow> Inr (map Some (remdups languages))
           | Some allowed \<Rightarrow>
               Inr (map Some (remdups (concat (map (\<lambda>name.
                 case get_language languages name of Inl _ \<Rightarrow> [] | Inr l \<Rightarrow> [l]) allowed))))))"

text \<open>One candidate after the other; only \<^verbatim>\<open>InvalidFiles\<close> is caught.\<close>

fun match_candidates :: "received_file list \<Rightarrow> string list \<Rightarrow> language option list \<Rightarrow>
    files_error + (language option \<times> (string, bytes) dict) list" where
  "match_candidates given_files submission_format [] = Inr []"
| "match_candidates given_files submission_format (l # ls) =
     (case match_files given_files l submission_format of
        Inl InvalidFiles \<Rightarrow> match_candidates given_files submission_format ls
      | Inl e \<Rightarrow> Inl e
      | Inr files \<Rightarrow> try_bind (match_candidates given_files submission_format ls) (\<lambda>ms. Inr ((l, files) # ms)))"

definition match_files_and_language :: "language list \<Rightarrow> received_file list \<Rightarrow> string option \<Rightarrow> string list \<Rightarrow> string list option \<Rightarrow>
    files_error + (string, bytes) dict \<times> language option" where
  "match_files_and_language languages given_files given_language_name submission_format allowed_language_names =
     (if given_files = [] then Inl InvalidFilesOrLanguage
      else
        try_bind (candidate_languages languages given_language_name submission_format allowed_language_names) (\<lambda>candidates.
        try_bind (match_candidates given_files submission_format candidates) (\<lambda>matched.
          case matched of
            [(l, files)] \<Rightarrow> Inr (files, l)
          | _ \<Rightarrow> Inl InvalidFilesOrLanguage)))"



section \<open>Lemmas\<close>

lemma try_bind_Inr [simp]: "try_bind r f = Inr y \<longleftrightarrow> (\<exists>x. r = Inr x \<and> f x = Inr y)"
  by (cases r) auto

lemma try_bind_Inl: "try_bind r f = Inl e \<longleftrightarrow> r = Inl e \<or> (\<exists>x. r = Inr x \<and> f x = Inl e)"
  by (cases r) auto

text \<open>Whether a language can be asked for: there is one, or the format does not need it.\<close>

definition language_fits :: "language option \<Rightarrow> string list \<Rightarrow> bool" where
  "language_fits l fmt \<longleftrightarrow> l \<noteq> None \<or> \<not> list_ex (\<lambda>e. ends_with e PERCENT_L) fmt"

definition name_matches :: "string \<Rightarrow> language option \<Rightarrow> string \<Rightarrow> bool" where
  "name_matches filename l e = (match_filename filename l e = Inr True)"

lemma match_filename_total:
  assumes "language_fits l fmt" "e \<in> set fmt"
  shows "match_filename filename l e = Inr (name_matches filename l e)"
  using assms by (cases l) (auto simp: language_fits_def name_matches_def match_filename_def list_ex_iff)

lemma matching_elements_total:
  assumes "language_fits l fmt" "set es \<subseteq> set fmt"
  shows "matching_elements filename l es = Inr (filter (name_matches filename l) es)"
  using assms(2) match_filename_total [OF assms(1)] by (induction es) auto

lemma match_extension_total:
  assumes "language_fits l fmt" "e \<in> set fmt"
  shows "\<exists>b. match_extension filename l e = Inr b"
  using assms by (cases l; cases filename) (auto simp: language_fits_def match_extension_def list_ex_iff)

text \<open>The element a file is for, as a function of the set of elements.\<close>

definition fits_element :: "received_file \<Rightarrow> language option \<Rightarrow> string \<Rightarrow> bool" where
  "fits_element f l e =
     (case rf_codename f of
        Some code \<Rightarrow> e = code \<and> match_extension (rf_filename f) l e = Inr True
      | None \<Rightarrow> (case rf_filename f of None \<Rightarrow> False | Some name \<Rightarrow> name_matches name l e))"

lemma match_file_cases:
  fixes f :: received_file
  assumes "language_fits l fmt" "distinct fmt"
  shows "match_file (rf_codename f) (rf_filename f) l fmt =
    (case filter (fits_element f l) fmt of [e] \<Rightarrow> Inr e | _ \<Rightarrow> Inl InvalidFiles)"
proof (cases "rf_codename f")
  case None
  have "fits_element f l = name_matches a l" if "rf_filename f = Some a" for a
    using None that by (simp add: fun_eq_iff fits_element_def)
  moreover have "filter (fits_element f l) fmt = []" if "rf_filename f = None"
    using None that by (simp add: filter_empty_conv fits_element_def)
  ultimately show ?thesis
    using None by (cases "rf_filename f") (simp_all add: match_file_def matching_elements_total [OF assms(1) subset_refl])
next
  case (Some code)
  have "filter (fits_element f l) fmt =
      (if code \<in> set fmt \<and> match_extension (rf_filename f) l code = Inr True then [code] else [])"
    using assms(2) Some by (induction fmt) (auto simp: fits_element_def filter_empty_conv)
  then show ?thesis using Some match_extension_total [OF assms(1), of code "rf_filename f"] by (auto simp: match_file_def)
qed

lemma match_file_Inr:
  fixes f :: received_file
  assumes "language_fits l fmt" "distinct fmt" "match_file (rf_codename f) (rf_filename f) l fmt = Inr e"
  shows "e \<in> set fmt"
proof -
  have "filter (fits_element f l) fmt = [e]" using assms match_file_cases [OF assms(1,2)] by (auto split: list.splits)
  then have "e \<in> set (filter (fits_element f l) fmt)" by simp
  then show ?thesis by simp
qed

lemma dict_set_new: "dict_get d k = None \<Longrightarrow> dict_set k v d = d @ [(k, v)]"
  by (induction d) (auto split: if_splits)

text \<open>The files are taken in order, each for an element of its own.\<close>

definition element_of :: "language option \<Rightarrow> string list \<Rightarrow> received_file \<Rightarrow> files_error + string" where
  "element_of l fmt f = match_file (rf_codename f) (rf_filename f) l fmt"

lemma match_files_from_Inr:
  "match_files_from acc given_files l fmt = Inr files \<longleftrightarrow>
   (\<exists>es. list_all2 (\<lambda>f e. element_of l fmt f = Inr e) given_files es \<and>
      distinct es \<and> set es \<inter> set (dict_keys acc) = {} \<and> files = acc @ zip es (map rf_content given_files))"
proof (induction given_files arbitrary: acc)
  case (Cons f given_files)
  have step: "match_files_from acc (f # given_files) l fmt = Inr files \<longleftrightarrow>
      (\<exists>e. element_of l fmt f = Inr e \<and> e \<notin> set (dict_keys acc) \<and>
         match_files_from (acc @ [(e, rf_content f)]) given_files l fmt = Inr files)"
  proof (cases "element_of l fmt f")
    case (Inr e)
    then show ?thesis
      by (cases "dict_get acc e") (simp_all add: element_of_def dict_set_new dict_keys_get del: set_map)
  qed (simp add: element_of_def)
  show ?case (is "?l = ?r")
  proof
    assume ?l
    then obtain e es where "element_of l fmt f = Inr e" "e \<notin> set (dict_keys acc)"
      "list_all2 (\<lambda>f e. element_of l fmt f = Inr e) given_files es" "distinct es"
      "set es \<inter> set (dict_keys (acc @ [(e, rf_content f)])) = {}"
      "files = (acc @ [(e, rf_content f)]) @ zip es (map rf_content given_files)"
      unfolding step Cons.IH by blast
    then show ?r by (intro exI [of _ "e # es"]) auto
  next
    assume ?r
    then obtain e es where es: "element_of l fmt f = Inr e" "list_all2 (\<lambda>f e. element_of l fmt f = Inr e) given_files es"
      "distinct (e # es)" "set (e # es) \<inter> set (dict_keys acc) = {}" "files = acc @ zip (e # es) (map rf_content (f # given_files))"
      unfolding list_all2_Cons1 by blast
    then have "match_files_from (acc @ [(e, rf_content f)]) given_files l fmt = Inr files"
      unfolding Cons.IH by (intro exI [of _ es]) auto
    then show ?l unfolding step using es(1,4) by auto
  qed
qed auto


lemma match_files_error:
  assumes "language_fits l fmt" "distinct fmt" "match_files given_files l fmt = Inl e"
  shows "e = InvalidFiles"
proof -
  have "match_files_from acc given_files l fmt = Inl e \<Longrightarrow> e = InvalidFiles" for acc
    by (induction given_files arbitrary: acc)
      (auto simp: try_bind_Inl match_file_cases [OF assms(1,2)] split: list.splits if_splits)
  then show ?thesis using assms(3) by (simp add: match_files_def)
qed

lemma match_candidates_total:
  assumes "\<forall>l \<in> set ls. language_fits l fmt" "distinct fmt"
  shows "match_candidates given_files fmt ls =
    Inr (concat (map (\<lambda>l. case match_files given_files l fmt of Inl _ \<Rightarrow> [] | Inr files \<Rightarrow> [(l, files)]) ls))"
  using assms(1)
proof (induction ls)
  case (Cons l ls)
  then show ?case
    using match_files_error [of l fmt given_files] assms(2) by (cases "match_files given_files l fmt") auto
qed simp

lemma candidate_languages_fit:
  "candidate_languages languages given fmt allowed = Inr ls \<Longrightarrow> l \<in> set ls \<Longrightarrow> language_fits l fmt"
  by (auto simp: candidate_languages_def language_fits_def split: if_splits option.splits sum.splits)

lemma candidate_languages_distinct:
  "candidate_languages languages given fmt allowed = Inr ls \<Longrightarrow> distinct ls"
  by (auto simp: candidate_languages_def distinct_map split: if_splits option.splits sum.splits)

lemma concat_singleton:
  assumes "distinct ls"
  shows "concat (map (\<lambda>l. case f l of Inl _ \<Rightarrow> [] | Inr x \<Rightarrow> [(l, x)]) ls) = [(k, y)] \<longleftrightarrow>
    k \<in> set ls \<and> f k = Inr y \<and> (\<forall>l \<in> set ls. l \<noteq> k \<longrightarrow> isl (f l))"
  using assms
proof (induction ls)
  case (Cons l ls)
  have none: "concat (map (\<lambda>l. case f l of Inl _ \<Rightarrow> [] | Inr x \<Rightarrow> [(l, x)]) ls) = [] \<longleftrightarrow> (\<forall>l \<in> set ls. isl (f l))"
    by (auto split: sum.splits) (metis isl_def obj_sumE)
  show ?case
  proof (cases "f l")
    case (Inl e)
    then show ?thesis using Cons by auto
  next
    case (Inr x)
    then have "concat (map (\<lambda>l. case f l of Inl _ \<Rightarrow> [] | Inr x \<Rightarrow> [(l, x)]) (l # ls)) = [(k, y)] \<longleftrightarrow>
        l = k \<and> x = y \<and> (\<forall>l \<in> set ls. isl (f l))"
      using none by auto
    then show ?thesis using Inr Cons.prems by auto
  qed
qed simp

text \<open>What the function computes, without the order in which it looks.\<close>

definition matched_uniquely :: "language list \<Rightarrow> received_file list \<Rightarrow> string option \<Rightarrow> string list \<Rightarrow> string list option \<Rightarrow>
    (string, bytes) dict \<Rightarrow> language option \<Rightarrow> bool" where
  "matched_uniquely languages given_files name fmt allowed files l \<longleftrightarrow>
     given_files \<noteq> [] \<and>
     (\<exists>candidates. candidate_languages languages name fmt allowed = Inr candidates \<and> l \<in> set candidates \<and>
        match_files given_files l fmt = Inr files \<and>
        (\<forall>l' \<in> set candidates. l' \<noteq> l \<longrightarrow> isl (match_files given_files l' fmt)))"

lemma match_files_and_language_Inr:
  assumes "distinct fmt"
  shows "match_files_and_language languages given_files name fmt allowed = Inr (files, l) \<longleftrightarrow>
    matched_uniquely languages given_files name fmt allowed files l"
proof (cases "candidate_languages languages name fmt allowed")
  case (Inl e)
  then show ?thesis by (simp add: match_files_and_language_def matched_uniquely_def)
next
  case (Inr ls)
  define ms where "ms = concat (map (\<lambda>l. case match_files given_files l fmt of Inl _ \<Rightarrow> [] | Inr files \<Rightarrow> [(l, files)]) ls)"
  have "match_candidates given_files fmt ls = Inr ms"
    unfolding ms_def using candidate_languages_fit [OF Inr] assms by (intro match_candidates_total) auto
  then have "match_files_and_language languages given_files name fmt allowed = Inr (files, l) \<longleftrightarrow>
      given_files \<noteq> [] \<and> ms = [(l, files)]"
    using Inr by (auto simp: match_files_and_language_def split: list.splits prod.splits)
  also have "ms = [(l, files)] \<longleftrightarrow> l \<in> set ls \<and> match_files given_files l fmt = Inr files \<and>
      (\<forall>l' \<in> set ls. l' \<noteq> l \<longrightarrow> isl (match_files given_files l' fmt))"
    unfolding ms_def by (rule concat_singleton) (rule candidate_languages_distinct [OF Inr])
  finally show ?thesis using Inr by (auto simp: matched_uniquely_def)
qed

lemma match_files_and_language_Inl:
  assumes "distinct fmt" "match_files_and_language languages given_files name fmt allowed = Inl e"
  shows "e = InvalidFilesOrLanguage"
proof (cases "candidate_languages languages name fmt allowed")
  case (Inl e')
  moreover from this have "e' = InvalidFilesOrLanguage"
    by (auto simp: candidate_languages_def split: if_splits option.splits sum.splits)
  ultimately show ?thesis using assms(2) by (auto simp: match_files_and_language_def split: if_splits)
next
  case (Inr ls)
  have "\<exists>ms. match_candidates given_files fmt ls = Inr ms"
    using candidate_languages_fit [OF Inr] assms(1) match_candidates_total by blast
  then show ?thesis
    using Inr assms(2) by (auto simp: match_files_and_language_def split: if_splits list.splits prod.splits)
qed

lemma match_files_Inr:
  assumes "language_fits l fmt" "distinct fmt" "match_files given_files l fmt = Inr files"
  shows "dict_ok files \<and> set (dict_keys files) \<subseteq> set fmt \<and>
    list_all2 (\<lambda>f (e, content). element_of l fmt f = Inr e \<and> content = rf_content f) given_files files"
proof -
  obtain es where es: "list_all2 (\<lambda>f e. element_of l fmt f = Inr e) given_files es" "distinct es"
    "files = zip es (map rf_content given_files)"
    using assms(3) by (auto simp: match_files_def match_files_from_Inr)
  have len: "length es = length given_files" using es(1) list_all2_lengthD by fastforce
  then have keys: "dict_keys files = es" using es(3) by simp
  have "e \<in> set fmt" if "e \<in> set es" for e
  proof -
    obtain i where "i < length es" "e = es ! i" using \<open>e \<in> set es\<close> by (metis in_set_conv_nth)
    then have "element_of l fmt (given_files ! i) = Inr e" using es(1) len by (auto simp: list_all2_conv_all_nth)
    then show ?thesis using match_file_Inr [OF assms(1,2)] by (simp add: element_of_def)
  qed
  then show ?thesis using keys es len by (auto simp: list_all2_conv_all_nth)
qed

section \<open>Properties\<close>

text \<open>The languages a submission may be in.\<close>

definition language_admitted :: "language list \<Rightarrow> string option \<Rightarrow> string list \<Rightarrow> string list option \<Rightarrow> language option \<Rightarrow> bool" where
  "language_admitted languages name fmt allowed l =
     (if list_ex (\<lambda>e. ends_with e PERCENT_L) fmt
      then (case l of
              None \<Rightarrow> False
            | Some l' \<Rightarrow> l' \<in> set languages \<and> (case allowed of None \<Rightarrow> True | Some names \<Rightarrow> la_name l' \<in> set names) \<and>
                (case name of None \<Rightarrow> True | Some n \<Rightarrow> la_name l' = n))
      else l = None \<and> name = None)"

lemma get_language_Inr: "get_language languages n = Inr l \<Longrightarrow> l \<in> set languages \<and> la_name l = n"
  by (auto simp: get_language_def split: option.splits dest!: map_of_SomeD)

lemma candidate_admitted:
  "candidate_languages languages name fmt allowed = Inr ls \<Longrightarrow> l \<in> set ls \<Longrightarrow> language_admitted languages name fmt allowed l"
  by (auto simp: candidate_languages_def language_admitted_def dest!: get_language_Inr get_language_Inr [OF sym]
      split: if_splits option.splits sum.splits)


text \<open>
  C11. A submission is taken apart without guessing. When files and a language are found, there was a file; every file received is
  assigned, with its contents, to an element of the format of its own; the language is one that is
  installed, allowed and, if the contestant named one, that one, and there is none exactly if the format does not need one; and under
  every other language that could be meant the files do not match. In all other cases the request is refused and nothing else is raised.
\<close>

theorem match_files_and_language_correct:
  assumes "distinct fmt"
  shows "case match_files_and_language languages given_files name fmt allowed of
      Inl e \<Rightarrow> e = InvalidFilesOrLanguage
    | Inr (files, l) \<Rightarrow>
        given_files \<noteq> [] \<and> dict_ok files \<and> set (dict_keys files) \<subseteq> set fmt \<and>
        list_all2 (\<lambda>f (e, content). match_file (rf_codename f) (rf_filename f) l fmt = Inr e \<and> content = rf_content f) given_files files \<and>
        language_admitted languages name fmt allowed l \<and>
        (\<forall>candidates. candidate_languages languages name fmt allowed = Inr candidates \<longrightarrow>
           (\<forall>l' \<in> set candidates. l' \<noteq> l \<longrightarrow> match_files given_files l' fmt = Inl InvalidFiles))"
proof (cases "match_files_and_language languages given_files name fmt allowed")
  case (Inl e)
  then show ?thesis using match_files_and_language_Inl [OF assms Inl] by simp
next
  case (Inr r)
  obtain files l where r: "r = (files, l)" by (cases r)
  then have "matched_uniquely languages given_files name fmt allowed files l"
    using Inr match_files_and_language_Inr [OF assms] by simp
  then obtain ls where ls: "given_files \<noteq> []" "candidate_languages languages name fmt allowed = Inr ls" "l \<in> set ls"
    "match_files given_files l fmt = Inr files" "\<forall>l' \<in> set ls. l' \<noteq> l \<longrightarrow> isl (match_files given_files l' fmt)"
    by (auto simp: matched_uniquely_def)
  have "match_files given_files l' fmt = Inl InvalidFiles" if "l' \<in> set ls" "l' \<noteq> l" for l'
    using ls(5) that match_files_error [OF candidate_languages_fit [OF ls(2)] assms, of l' given_files]
    by (cases "match_files given_files l' fmt") auto
  moreover note match_files_Inr [OF candidate_languages_fit [OF ls(2,3)] assms ls(4)]
  moreover note candidate_admitted [OF ls(2,3)]
  ultimately show ?thesis using Inr r ls(1,2) by (simp add: element_of_def)
qed

definition example_languages :: "language list" where
  "example_languages = [\<lparr>la_name = ''C++'', la_source_extensions = [''.cpp'', ''.cc'']\<rparr>, \<lparr>la_name = ''Python'', la_source_extensions = [''.py'']\<rparr>]"

definition example_file :: received_file where
  "example_file = \<lparr>rf_codename = None, rf_filename = Some ''sum.cc'', rf_content = ''main''\<rparr>"

theorem match_files_and_language_correct_witness:
  "match_files_and_language example_languages [example_file] None [''sum.%l'', ''readme''] None =
     Inr ([(''sum.%l'', ''main'')], Some (hd example_languages)) \<and>
   language_admitted example_languages None [''sum.%l'', ''readme''] None (Some (hd example_languages))"
proof -
  have run: "match_files_and_language example_languages [example_file] None [''sum.%l'', ''readme''] None =
     Inr ([(''sum.%l'', ''main'')], Some (hd example_languages))" by code_simp
  have "distinct [''sum.%l'', ''readme'']" by simp
  from match_files_and_language_correct [OF this, where languages = example_languages and given_files = "[example_file]" and
      name = None and allowed = None] show ?thesis
    using run by simp
qed

text \<open>The order of sets.\<close>

lemma match_file_order:
  fixes f :: received_file
  assumes "language_fits l fmt" "distinct fmt" "mset fmt' = mset fmt"
  shows "match_file (rf_codename f) (rf_filename f) l fmt' = match_file (rf_codename f) (rf_filename f) l fmt"
proof -
  have fmt': "set fmt' = set fmt" "distinct fmt'" using assms(2,3) by (metis mset_eq_setD, metis mset_eq_imp_distinct_iff)
  then have fits: "language_fits l fmt'" using assms(1) by (auto simp: language_fits_def list_ex_iff)
  have m: "mset (filter (fits_element f l) fmt') = mset (filter (fits_element f l) fmt)" using assms(3) by simp
  have single: "(case xs of [e] \<Rightarrow> Inr e | _ \<Rightarrow> Inl InvalidFiles) = (case ys of [e] \<Rightarrow> Inr e | _ \<Rightarrow> Inl InvalidFiles)"
    if "mset xs = mset ys" for xs ys :: "string list"
  proof (cases "\<exists>e. ys = [e]")
    case True
    then show ?thesis using that by (metis mset_single_iff)
  next
    case False
    then have "length ys \<noteq> 1" "length xs \<noteq> 1" using that by (auto simp: length_Suc_conv dest: mset_eq_length)
    then show ?thesis by (auto split: list.split)
  qed
  show ?thesis
    unfolding match_file_cases [OF assms(1,2)] match_file_cases [OF fits fmt'(2)] by (rule single [OF m])
qed

lemma match_files_order:
  assumes "language_fits l fmt" "distinct fmt" "mset fmt' = mset fmt"
  shows "match_files given_files l fmt' = match_files given_files l fmt"
proof -
  have "match_files_from acc given_files l fmt' = match_files_from acc given_files l fmt" for acc
  proof (induction given_files arbitrary: acc)
    case (Cons f given_files)
    then show ?case
      by (cases "match_file (rf_codename f) (rf_filename f) l fmt") (simp_all add: match_file_order [OF assms])
  qed simp
  then show ?thesis by (simp add: match_files_def)
qed

lemma candidates_order:
  assumes "set fmt' = set fmt" "rel_option (\<lambda>a b. set a = set b) allowed' allowed"
  shows "rel_sum (=) (\<lambda>a b. set a = set b) (candidate_languages languages name fmt' allowed')
    (candidate_languages languages name fmt allowed)"
proof -
  have "list_ex P fmt' = list_ex P fmt" for P using assms(1) by (simp add: list_ex_iff)
  then show ?thesis
    using assms(2) by (cases allowed; cases allowed')
      (auto simp: candidate_languages_def split: option.split sum.split)
qed

text \<open>
  The format and the languages are sets, which Python goes through in an order of its own: the result does not depend on it. It is the
  same for every order of the elements of the format and for every order, and repetition, of the allowed languages.
\<close>

theorem match_files_and_language_order:
  assumes "distinct fmt" "mset fmt' = mset fmt" "rel_option (\<lambda>a b. set a = set b) allowed' allowed"
  shows "match_files_and_language languages given_files name fmt' allowed' = match_files_and_language languages given_files name fmt allowed"
proof -
  have fmt': "set fmt' = set fmt" "distinct fmt'" using assms(1,2) by (metis mset_eq_setD, metis mset_eq_imp_distinct_iff)
  have unique: "matched_uniquely languages given_files name fmt' allowed' files l = matched_uniquely languages given_files name fmt allowed files l"
    for files l
  proof (cases "candidate_languages languages name fmt allowed")
    case (Inl e)
    then show ?thesis using candidates_order [OF fmt'(1) assms(3), of languages name]
      by (cases "candidate_languages languages name fmt' allowed'") (auto simp: matched_uniquely_def)
  next
    case (Inr ls)
    then obtain ls' where ls': "candidate_languages languages name fmt' allowed' = Inr ls'" "set ls' = set ls"
      using candidates_order [OF fmt'(1) assms(3), of languages name]
      by (cases "candidate_languages languages name fmt' allowed'") auto
    have "match_files given_files l' fmt' = match_files given_files l' fmt" if "l' \<in> set ls" for l'
      using match_files_order [OF candidate_languages_fit [OF Inr that] assms(1,2)] .
    then show ?thesis using Inr ls' by (auto simp: matched_uniquely_def)
  qed
  show ?thesis
  proof (cases "match_files_and_language languages given_files name fmt allowed")
    case (Inl e)
    then have "\<nexists>r. match_files_and_language languages given_files name fmt' allowed' = Inr r"
      using unique match_files_and_language_Inr [OF assms(1)] match_files_and_language_Inr [OF fmt'(2)]
      by (metis Inl_Inr_False surj_pair)
    then show ?thesis
      using Inl match_files_and_language_Inl [OF assms(1) Inl] match_files_and_language_Inl [OF fmt'(2)]
      by (cases "match_files_and_language languages given_files name fmt' allowed'") auto
  next
    case (Inr r)
    then have "matched_uniquely languages given_files name fmt allowed (fst r) (snd r)"
      using match_files_and_language_Inr [OF assms(1), of languages given_files name allowed "fst r" "snd r"] by simp
    then show ?thesis
      using Inr unique match_files_and_language_Inr [OF fmt'(2), of languages given_files name allowed' "fst r" "snd r"] by simp
  qed
qed

theorem match_files_and_language_order_witness:
  "match_files_and_language example_languages [example_file] None [''readme'', ''sum.%l''] (Some [''Python'', ''C++'', ''Python'']) =
   match_files_and_language example_languages [example_file] None [''sum.%l'', ''readme''] (Some [''C++'', ''Python''])"
  by (rule match_files_and_language_order) auto


section \<open>Archives\<close>

definition entry_file :: "string \<times> int \<times> bytes option \<Rightarrow> received_file" where
  "entry_file = (\<lambda>(filepath, _, content). \<lparr>rf_codename = None, rf_filename = Some (path_name filepath), rf_content = the content\<rparr>)"

definition entries_size :: "(string \<times> int \<times> bytes option) list \<Rightarrow> int" where
  "entries_size entries = (\<Sum>(_, bytes_no, _) \<leftarrow> entries. bytes_no)"

lemma entries_size_nonneg: "\<forall>(_, bytes_no, _) \<in> set entries. 0 \<le> bytes_no \<Longrightarrow> 0 \<le> entries_size entries"
  unfolding entries_size_def by (rule sum_list_nonneg) auto

lemma extract_entries_Inr:
  assumes "\<forall>(_, bytes_no, _) \<in> set entries. 0 \<le> bytes_no" "acc \<le> m" "int (length result) \<le> n"
  shows "extract_entries (Some m) (Some n) acc result fails entries = Inr files \<longleftrightarrow>
    \<not> fails \<and> acc + entries_size entries \<le> m \<and> int (length result + length entries) \<le> n \<and>
    (\<forall>(_, _, content) \<in> set entries. content \<noteq> None) \<and> files = result @ map entry_file entries"
  using assms
proof (induction entries arbitrary: acc result)
  case Nil
  then show ?case by (auto simp: entries_size_def)
next
  case (Cons e entries)
  obtain filepath bytes_no content where e: "e = (filepath, bytes_no, content)" by (cases e)
  have rest: "0 \<le> entries_size entries" using Cons.prems(1) by (intro entries_size_nonneg) simp
  show ?case
  proof (cases "acc + bytes_no \<le> m \<and> int (length result) + 1 \<le> n")
    case True
    then show ?thesis
      using Cons.IH [of "acc + bytes_no" "result @ [entry_file e]"] Cons.prems(1)
      by (cases content) (simp_all add: e entry_file_def entries_size_def algebra_simps)
  next
    case False
    then show ?thesis using rest by (auto simp: e entries_size_def Let_def)
  qed
qed

text \<open>
  C12. An archive is unpacked only if it is within the limits: files are returned exactly when the archive could be listed and read, its
  sizes add up to no more than the limit on size and it has no more files than the limit on their number; then they are all its files, in
  order, under the last part of their path.
\<close>

theorem extract_files_from_archive_bounded:
  assumes "open_archive data = Some (entries, fails)" "\<forall>(_, bytes_no, _) \<in> set entries. 0 \<le> bytes_no" "0 \<le> m" "0 \<le> n"
  shows "extract_files_from_archive open_archive data (Some m) (Some n) = Inr files \<longleftrightarrow>
    \<not> fails \<and> entries_size entries \<le> m \<and> int (length entries) \<le> n \<and>
    (\<forall>(_, _, content) \<in> set entries. content \<noteq> None) \<and> files = map entry_file entries"
  using extract_entries_Inr [OF assms(2), of 0 m "[]" n fails files] assms by (simp add: extract_files_from_archive_def)

theorem extract_files_from_archive_bounded_witness:
  "extract_files_from_archive (\<lambda>_. Some ([(''dir/sum.cc'', 4, Some ''main'')], False)) ''zip'' (Some 100) (Some 2) =
    Inr [\<lparr>rf_codename = None, rf_filename = Some ''sum.cc'', rf_content = ''main''\<rparr>]"
proof -
  have "path_name ''dir/sum.cc'' = ''sum.cc''" by code_simp
  then show ?thesis
    using extract_files_from_archive_bounded [of "\<lambda>_. Some ([(''dir/sum.cc'', 4, Some ''main'')], False)" "''zip''" _ False 100 2]
    by (simp add: entries_size_def entry_file_def)
qed

end
