(* ===== verification/SubmissionWorkflow.thy ===== *)
theory SubmissionWorkflow
  imports SubmissionFiles
begin

text \<open>
  Accepting submissions and user tests, from \<^verbatim>\<open>cms/server/contest/submission/check.py\<close>, \<^verbatim>\<open>utils.py\<close> and
  \<^verbatim>\<open>workflow.py\<close>. The tables of the database are lists of rows, in the order they were added; the answer of the advisory
  lock, the random opaque id, the storage of files and the reading of archives are arguments. The copy of the files on
  the local disk, whose failure is only logged, is left out.
\<close>

section \<open>Model\<close>

subsection \<open>Rows\<close>

record contest_row =
  co_id :: int
  co_languages :: "string list"
  co_max_submission_number :: "int option"
  co_max_user_test_number :: "int option"
  co_min_submission_interval :: "timedelta option"
  co_min_user_test_interval :: "timedelta option"
  co_min_submission_interval_grace_period :: "timedelta option"

text \<open>A task with what its active dataset's task type says.\<close>

record sub_task_row =
  tk_id :: int
  tk_contest :: int
  tk_submission_format :: "string list"
  tk_allowed_languages :: "string list option"
  tk_max_submission_number :: "int option"
  tk_max_user_test_number :: "int option"
  tk_min_submission_interval :: "timedelta option"
  tk_min_user_test_interval :: "timedelta option"
  tk_allow_partial_submission :: bool
  tk_reuse_previous_submission :: bool
  tk_testable :: bool
  tk_user_managers :: "string list"

text \<open>A participation with the columns of its group.\<close>

record participation_row =
  pa_id :: int
  pa_unrestricted :: bool
  pa_starting_time :: "datetime option"
  pa_delay_time :: timedelta
  pa_extra_time :: timedelta
  pa_group_stop :: datetime
  pa_group_per_user_time :: "timedelta option"

text \<open>The columns that submissions and user tests share, and those of each.\<close>

record sent_row =
  se_participation :: int
  se_task :: int
  se_timestamp :: datetime
  se_language :: "string option"
  se_files :: "(string, string) dict"

record sent_submission = sent_row +
  ss_opaque_id :: int
  ss_comment :: string
  ss_official :: bool
  ss_override_time_limit :: "rat option"
  ss_override_mem_limit :: "int option"

record sent_user_test = sent_row +
  st_input :: string
  st_managers :: "(string, string) dict"

record submit_db =
  sd_tasks :: "(int, int) dict"
  sd_submissions :: "sent_submission list"
  sd_user_tests :: "sent_user_test list"

definition get_allowed_languages :: "contest_row \<Rightarrow> sub_task_row \<Rightarrow> string list option" where
  "get_allowed_languages contest task =
     (case tk_allowed_languages task of Some ls \<Rightarrow> Some ls | None \<Rightarrow> Some (co_languages contest))"


subsection \<open>Checks\<close>

definition filter_submission_query :: "(int, int) dict \<Rightarrow> participation_row \<Rightarrow> int option \<Rightarrow> sub_task_row option \<Rightarrow>
    'a sent_row_scheme list \<Rightarrow> 'a sent_row_scheme list res" where
  "filter_submission_query tasks p contest task rows =
     (case task of
        Some t \<Rightarrow>
          if contest \<noteq> None \<and> contest \<noteq> Some (tk_contest t) then Inl ValueError
          else Inr (filter (\<lambda>r. se_task r = tk_id t \<and> se_participation r = pa_id p) rows)
      | None \<Rightarrow>
          (case contest of
             Some c \<Rightarrow> Inr (filter (\<lambda>r. dict_get tasks (se_task r) = Some c \<and> se_participation r = pa_id p) rows)
           | None \<Rightarrow> Inl ValueError))"

definition get_submission_count :: "(int, int) dict \<Rightarrow> participation_row \<Rightarrow> int option \<Rightarrow> sub_task_row option \<Rightarrow>
    'a sent_row_scheme list \<Rightarrow> int res" where
  "get_submission_count tasks p contest task rows =
     res_bind (filter_submission_query tasks p contest task rows) (\<lambda>rs. Inr (int (length rs)))"

definition check_max_number :: "(int, int) dict \<Rightarrow> int option \<Rightarrow> participation_row \<Rightarrow> int option \<Rightarrow> sub_task_row option \<Rightarrow>
    'a sent_row_scheme list \<Rightarrow> bool res" where
  "check_max_number tasks max_number p contest task rows =
     (case max_number of
        None \<Rightarrow> Inr True
      | Some m \<Rightarrow>
          if pa_unrestricted p then Inr True
          else res_bind (get_submission_count tasks p contest task rows) (\<lambda>n. Inr (n < m)))"

text \<open>\<^verbatim>\<open>order_by(desc(timestamp))\<close> and the first row; of several with the latest time the first in the table is taken.\<close>

fun latest_row :: "'a sent_row_scheme list \<Rightarrow> 'a sent_row_scheme option" where
  "latest_row [] = None"
| "latest_row (r # rs) =
     (case latest_row rs of None \<Rightarrow> Some r | Some r' \<Rightarrow> if se_timestamp r < se_timestamp r' then Some r' else Some r)"

definition get_latest_submission :: "(int, int) dict \<Rightarrow> participation_row \<Rightarrow> int option \<Rightarrow> sub_task_row option \<Rightarrow>
    'a sent_row_scheme list \<Rightarrow> 'a sent_row_scheme option res" where
  "get_latest_submission tasks p contest task rows =
     res_bind (filter_submission_query tasks p contest task rows) (\<lambda>rs. Inr (latest_row rs))"

definition check_min_interval :: "(int, int) dict \<Rightarrow> timedelta option \<Rightarrow> datetime \<Rightarrow> participation_row \<Rightarrow> int option \<Rightarrow> sub_task_row option \<Rightarrow>
    'a sent_row_scheme list \<Rightarrow> bool res" where
  "check_min_interval tasks min_interval timestamp p contest task rows =
     (case min_interval of
        None \<Rightarrow> Inr True
      | Some m \<Rightarrow>
          if pa_unrestricted p then Inr True
          else res_bind (get_latest_submission tasks p contest task rows) (\<lambda>latest.
            Inr (case latest of None \<Rightarrow> True | Some r \<Rightarrow> m \<le> timestamp - se_timestamp r)))"

definition is_last_minutes :: "contest_row \<Rightarrow> datetime \<Rightarrow> participation_row \<Rightarrow> bool res" where
  "is_last_minutes contest timestamp p =
     (case co_min_submission_interval_grace_period contest of
        None \<Rightarrow> Inr False
      | Some grace \<Rightarrow>
          if pa_unrestricted p then Inr False
          else
            res_bind (case pa_group_per_user_time p of
                None \<Rightarrow> Inr (pa_group_stop p)
              | Some d \<Rightarrow> (case pa_starting_time p of None \<Rightarrow> Inl TypeError | Some start \<Rightarrow> Inr (start + d))) (\<lambda>end_time.
              let end_time = end_time + (pa_delay_time p + pa_extra_time p); time_left = end_time - timestamp
              in Inr (time_left \<le> grace)))"


subsection \<open>Files of the previous submission\<close>

text \<open>The extra places where the files of a user test are looked up: its managers and its input.\<close>

definition fetch_file_digest :: "language option \<Rightarrow> ('a sent_row_scheme \<Rightarrow> ((string, string) dict \<times> string) option) \<Rightarrow>
    'a sent_row_scheme \<Rightarrow> (string, string) dict \<Rightarrow> string \<Rightarrow> (string, string) dict res" where
  "fetch_file_digest language extra latest digests codename =
     (case dict_get (se_files latest) codename of
        Some digest \<Rightarrow> Inr (dict_set codename digest digests)
      | None \<Rightarrow>
          (case extra latest of
             None \<Rightarrow> Inr digests
           | Some (managers, input_digest) \<Rightarrow>
               if codename = ''input'' then Inr (dict_set ''input'' input_digest digests)
               else
                 res_bind (if ends_with codename PERCENT_L
                   then (case language of
                           None \<Rightarrow> Inl ValueError
                         | Some l \<Rightarrow> (case la_source_extensions l of
                             [] \<Rightarrow> Inl TypeError | ext # _ \<Rightarrow> Inr (splitext_base codename @ ext)))
                   else Inr codename) (\<lambda>filename.
                 Inr (case dict_get managers filename of None \<Rightarrow> digests | Some digest \<Rightarrow> dict_set codename digest digests))))"

definition fetch_file_digests_from_previous_submission :: "(int, int) dict \<Rightarrow> participation_row \<Rightarrow> sub_task_row \<Rightarrow> language option \<Rightarrow> string list \<Rightarrow>
    ('a sent_row_scheme \<Rightarrow> ((string, string) dict \<times> string) option) \<Rightarrow> 'a sent_row_scheme list \<Rightarrow> (string, string) dict res" where
  "fetch_file_digests_from_previous_submission tasks p task language codenames extra rows =
     res_bind (get_latest_submission tasks p None (Some task) rows) (\<lambda>latest.
       case latest of
         None \<Rightarrow> Inr []
       | Some r \<Rightarrow>
           if map_option la_name language \<noteq> se_language r then Inr []
           else res_fold (fetch_file_digest language extra r) [] codenames)"


subsection \<open>Accepting a submission\<close>

datatype submit_error =
    ConcurrentSubmission
  | TooManyAmongAllTasks
  | TooManyOnTask
  | TooFrequentAmongAllTasks
  | TooFrequentOnTask
  | InvalidTimeLimit
  | InvalidMemoryLimit
  | TooBig
  | TooManyFiles
  | InvalidArchiveFormat
  | InvalidFormat
  | StorageFailed
  | TestingNotAllowed
  | InputTooBig
  | SubmitRaised py_error

primrec lift_res :: "'a res \<Rightarrow> submit_error + 'a" where
  "lift_res (Inl e) = Inl (SubmitRaised e)"
| "lift_res (Inr x) = Inr x"

text \<open>\<^verbatim>\<open>if not check: raise ...\<close>.\<close>

definition require :: "submit_error \<Rightarrow> bool res \<Rightarrow> submit_error + unit" where
  "require e check = try_bind (lift_res check) (\<lambda>b. if b then Inr () else Inl e)"

record web_env =
  we_languages :: "language list"
  we_open_archive :: archive_reader
  we_put_file_content :: "bytes \<Rightarrow> string option"
  we_max_submission_length :: int
  we_max_input_length :: int

record submit_request =
  sr_timestamp :: datetime
  sr_tornado_files :: "(string, http_file list) dict"
  sr_language_name :: "string option"
  sr_lock :: bool
  sr_opaque_id :: int

text \<open>The overrides of a submission.\<close>

record overrides =
  ov_max_number :: bool
  ov_min_interval :: bool
  ov_time_limit :: "rat option"
  ov_mem_limit :: "int option"

definition submission_checks :: "submit_db \<Rightarrow> contest_row \<Rightarrow> participation_row \<Rightarrow> sub_task_row \<Rightarrow> submit_request \<Rightarrow> overrides \<Rightarrow> submit_error + unit" where
  "submission_checks db contest p task rq ov =
     (let rows = sd_submissions db; tasks = sd_tasks db; timestamp = sr_timestamp rq in
      try_bind (if ov_min_interval ov then Inr False
        else try_bind (lift_res (is_last_minutes contest timestamp p)) (\<lambda>b. Inr (\<not> b))) (\<lambda>check_interval.
      let limited = (\<not> ov_max_number ov \<and> (co_max_submission_number contest \<noteq> None \<or> tk_max_submission_number task \<noteq> None) \<or>
            check_interval \<and> (co_min_submission_interval contest \<noteq> None \<or> tk_min_submission_interval task \<noteq> None))
      in if \<not> pa_unrestricted p \<and> limited \<and> \<not> sr_lock rq then Inl ConcurrentSubmission
         else
           try_bind (if ov_max_number ov then Inr ()
             else try_bind (require TooManyAmongAllTasks
                    (check_max_number tasks (co_max_submission_number contest) p (Some (co_id contest)) None rows)) (\<lambda>_.
                  require TooManyOnTask (check_max_number tasks (tk_max_submission_number task) p None (Some task) rows))) (\<lambda>_.
           if check_interval
           then try_bind (require TooFrequentAmongAllTasks
                  (check_min_interval tasks (co_min_submission_interval contest) timestamp p (Some (co_id contest)) None rows)) (\<lambda>_.
                require TooFrequentOnTask (check_min_interval tasks (tk_min_submission_interval task) timestamp p None (Some task) rows))
           else Inr ())))"

definition limit_checks :: "overrides \<Rightarrow> submit_error + unit" where
  "limit_checks ov =
     (if (case ov_time_limit ov of None \<Rightarrow> False | Some t \<Rightarrow> t \<le> 0) then Inl InvalidTimeLimit
      else if (case ov_mem_limit ov of None \<Rightarrow> False | Some m \<Rightarrow> m \<le> 0 \<or> m mod (1024 * 1024) \<noteq> 0) then Inl InvalidMemoryLimit
      else Inr ())"

text \<open>What a failed reading of the files means to the contestant, with and without the reasons told apart.\<close>

definition receive_error :: "bool \<Rightarrow> files_error \<Rightarrow> submit_error" where
  "receive_error reasons e =
     (case e of
        InvalidArchive too_big too_many \<Rightarrow>
          if reasons \<and> too_big then TooBig else if reasons \<and> too_many then TooManyFiles else InvalidArchiveFormat
      | FilesRaised x \<Rightarrow> SubmitRaised x
      | _ \<Rightarrow> InvalidFormat)"

definition received_files :: "web_env \<Rightarrow> bool \<Rightarrow> string list \<Rightarrow> submit_request \<Rightarrow> submit_error + received_file list" where
  "received_files env reasons required_codenames rq =
     (let n = int (length required_codenames) in
      case extract_files_from_tornado (we_open_archive env) (sr_tornado_files rq)
          (Some (we_max_submission_length env * n)) (Some (2 * n)) of
        Inl e \<Rightarrow> Inl (receive_error reasons e)
      | Inr files \<Rightarrow> Inr files)"

definition matched_files :: "web_env \<Rightarrow> contest_row \<Rightarrow> sub_task_row \<Rightarrow> string list \<Rightarrow> submit_request \<Rightarrow> received_file list \<Rightarrow>
    submit_error + (string, bytes) dict \<times> language option" where
  "matched_files env contest task required_codenames rq received =
     (case match_files_and_language (we_languages env) received (sr_language_name rq) required_codenames
          (get_allowed_languages contest task) of
        Inl (FilesRaised x) \<Rightarrow> Inl (SubmitRaised x)
      | Inl _ \<Rightarrow> Inl InvalidFormat
      | Inr r \<Rightarrow> Inr r)"

definition reused_digests :: "(int, int) dict \<Rightarrow> participation_row \<Rightarrow> sub_task_row \<Rightarrow> language option \<Rightarrow> string list \<Rightarrow>
    ('a sent_row_scheme \<Rightarrow> ((string, string) dict \<times> string) option) \<Rightarrow> 'a sent_row_scheme list \<Rightarrow> submit_error + (string, string) dict" where
  "reused_digests tasks p task language missing_codenames extra rows =
     (if missing_codenames = [] then Inr []
      else if \<not> tk_allow_partial_submission task then Inl InvalidFormat
      else if tk_reuse_previous_submission task
      then lift_res (fetch_file_digests_from_previous_submission tasks p task language missing_codenames extra rows)
      else Inr [])"

fun store_files :: "(bytes \<Rightarrow> string option) \<Rightarrow> (string, bytes) dict \<Rightarrow> (string, string) dict \<Rightarrow> submit_error + (string, string) dict" where
  "store_files put [] digests = Inr digests"
| "store_files put ((codename, content) # files) digests =
     (case put content of
        None \<Rightarrow> Inl StorageFailed
      | Some digest \<Rightarrow> store_files put files (dict_set codename digest digests))"

definition joined_filenames :: "received_file list \<Rightarrow> string res" where
  "joined_filenames received =
     (if list_all (\<lambda>f. rf_filename f \<noteq> None) received
      then Inr (join_bytes (CHR '','') (map (\<lambda>f. the (rf_filename f)) received)) else Inl TypeError)"

definition accept_submission :: "web_env \<Rightarrow> submit_db \<Rightarrow> contest_row \<Rightarrow> participation_row \<Rightarrow> sub_task_row \<Rightarrow> submit_request \<Rightarrow> bool \<Rightarrow> overrides \<Rightarrow>
    submit_error + submit_db" where
  "accept_submission env db contest p task rq official ov =
     (if tk_contest task \<noteq> co_id contest then Inl (SubmitRaised AssertionError)
      else
        try_bind (submission_checks db contest p task rq ov) (\<lambda>_.
        try_bind (limit_checks ov) (\<lambda>_.
        let required_codenames = remdups (tk_submission_format task) in
        try_bind (received_files env True required_codenames rq) (\<lambda>received.
        try_bind (matched_files env contest task required_codenames rq received) (\<lambda>(files, language).
        let missing_codenames = filter (\<lambda>c. dict_get files c = None) required_codenames in
        try_bind (reused_digests (sd_tasks db) p task language missing_codenames (\<lambda>_. None) (sd_submissions db)) (\<lambda>digests.
        if list_ex (\<lambda>(_, content). we_max_submission_length env < int (length content)) files then Inl TooBig
        else
          try_bind (store_files (we_put_file_content env) files digests) (\<lambda>digests.
          try_bind (lift_res (joined_filenames received)) (\<lambda>comment.
            Inr (db\<lparr>sd_submissions := sd_submissions db @
              [\<lparr>se_participation = pa_id p, se_task = tk_id task, se_timestamp = sr_timestamp rq,
                se_language = map_option la_name language, se_files = digests, ss_opaque_id = sr_opaque_id rq,
                ss_comment = comment, ss_official = official, ss_override_time_limit = ov_time_limit ov,
                ss_override_mem_limit = ov_mem_limit ov\<rparr>]\<rparr>)))))))))"



subsection \<open>Accepting a user test\<close>

definition user_test_checks :: "submit_db \<Rightarrow> contest_row \<Rightarrow> participation_row \<Rightarrow> sub_task_row \<Rightarrow> submit_request \<Rightarrow> submit_error + unit" where
  "user_test_checks db contest p task rq =
     (let rows = sd_user_tests db; tasks = sd_tasks db; timestamp = sr_timestamp rq;
          limited = (co_max_user_test_number contest \<noteq> None \<or> tk_max_user_test_number task \<noteq> None \<or>
            co_min_user_test_interval contest \<noteq> None \<or> tk_min_user_test_interval task \<noteq> None)
      in if \<not> pa_unrestricted p \<and> limited \<and> \<not> sr_lock rq then Inl ConcurrentSubmission
         else
           try_bind (require TooManyAmongAllTasks
             (check_max_number tasks (co_max_user_test_number contest) p (Some (co_id contest)) None rows)) (\<lambda>_.
           try_bind (require TooManyOnTask (check_max_number tasks (tk_max_user_test_number task) p None (Some task) rows)) (\<lambda>_.
           try_bind (require TooFrequentAmongAllTasks
             (check_min_interval tasks (co_min_user_test_interval contest) timestamp p (Some (co_id contest)) None rows)) (\<lambda>_.
           require TooFrequentOnTask
             (check_min_interval tasks (tk_min_user_test_interval task) timestamp p None (Some task) rows)))))"

text \<open>\<^verbatim>\<open>str.replace\<close>.\<close>

fun replace_all :: "string \<Rightarrow> string \<Rightarrow> nat \<Rightarrow> string \<Rightarrow> string" where
  "replace_all old new skip [] = []"
| "replace_all old new (Suc skip) (c # s) = replace_all old new skip s"
| "replace_all old new 0 (c # s) =
     (if take (length old) (c # s) = old then new @ replace_all old new (length old - 1) s
      else c # replace_all old new 0 s)"

definition manager_filename :: "language option \<Rightarrow> string \<Rightarrow> string res" where
  "manager_filename language codename =
     (case language of
        None \<Rightarrow> Inr codename
      | Some l \<Rightarrow> (case la_source_extensions l of [] \<Rightarrow> Inl TypeError | ext # _ \<Rightarrow> Inr (replace_all PERCENT_L ext 0 codename)))"

text \<open>The rows of the files of a test: those of the submission format, and the managers under their own names.\<close>

definition manager_rows :: "sub_task_row \<Rightarrow> language option \<Rightarrow> (string, string) dict \<Rightarrow> (string, string) dict res" where
  "manager_rows task language digests =
     res_map (\<lambda>(codename, digest). res_bind (manager_filename language codename) (\<lambda>filename. Inr (filename, digest)))
       (filter (\<lambda>(codename, _). codename \<noteq> ''input'' \<and> codename \<notin> set (tk_submission_format task)) digests)"

definition lookup_digest :: "(string, string) dict \<Rightarrow> string \<Rightarrow> string res" where
  "lookup_digest d k = (case dict_get d k of None \<Rightarrow> Inl KeyError | Some v \<Rightarrow> Inr v)"

definition accept_user_test :: "web_env \<Rightarrow> submit_db \<Rightarrow> contest_row \<Rightarrow> participation_row \<Rightarrow> sub_task_row \<Rightarrow> submit_request \<Rightarrow> submit_error + submit_db" where
  "accept_user_test env db contest p task rq =
     (if tk_contest task \<noteq> co_id contest then Inl (SubmitRaised AssertionError)
      else if \<not> tk_testable task then Inl TestingNotAllowed
      else
        try_bind (user_test_checks db contest p task rq) (\<lambda>_.
        let required_codenames = remdups (tk_submission_format task @ tk_user_managers task @ [''input'']) in
        try_bind (received_files env False required_codenames rq) (\<lambda>received.
        try_bind (matched_files env contest task required_codenames rq received) (\<lambda>(files, language).
        let missing_codenames = filter (\<lambda>c. dict_get files c = None) required_codenames in
        try_bind (reused_digests (sd_tasks db) p task language missing_codenames (\<lambda>r. Some (st_managers r, st_input r)) (sd_user_tests db))
          (\<lambda>digests.
        if dict_get files ''input'' = None \<and> dict_get digests ''input'' = None then Inl InvalidFormat
        else if list_ex (\<lambda>(codename, content). codename \<noteq> ''input'' \<and> we_max_submission_length env < int (length content)) files
        then Inl TooBig
        else if (case dict_get files ''input'' of None \<Rightarrow> False | Some content \<Rightarrow> we_max_input_length env < int (length content))
        then Inl InputTooBig
        else
          try_bind (store_files (we_put_file_content env) files digests) (\<lambda>digests.
          try_bind (lift_res (lookup_digest digests ''input'')) (\<lambda>input_digest.
          try_bind (lift_res (manager_rows task language digests)) (\<lambda>managers.
            Inr (db\<lparr>sd_user_tests := sd_user_tests db @
              [\<lparr>se_participation = pa_id p, se_task = tk_id task, se_timestamp = sr_timestamp rq,
                se_language = map_option la_name language,
                se_files = filter (\<lambda>(codename, _). codename \<noteq> ''input'' \<and> codename \<in> set (tk_submission_format task)) digests,
                st_input = input_digest, st_managers = managers\<rparr>]\<rparr>)))))))))"



section \<open>The limits\<close>

definition rows_on :: "participation_row \<Rightarrow> sub_task_row \<Rightarrow> 'a sent_row_scheme list \<Rightarrow> 'a sent_row_scheme list" where
  "rows_on p t rows = filter (\<lambda>r. se_task r = tk_id t \<and> se_participation r = pa_id p) rows"

definition rows_in :: "(int, int) dict \<Rightarrow> participation_row \<Rightarrow> int \<Rightarrow> 'a sent_row_scheme list \<Rightarrow> 'a sent_row_scheme list" where
  "rows_in tasks p c rows = filter (\<lambda>r. dict_get tasks (se_task r) = Some c \<and> se_participation r = pa_id p) rows"

lemma filter_query [simp]:
  "filter_submission_query tasks p None (Some t) rows = Inr (rows_on p t rows)"
  "filter_submission_query tasks p (Some c) None rows = Inr (rows_in tasks p c rows)"
  by (simp_all add: filter_submission_query_def rows_on_def rows_in_def)

lemma latest_row_latest:
  "case latest_row rs of None \<Rightarrow> rs = [] | Some r \<Rightarrow> r \<in> set rs \<and> (\<forall>r' \<in> set rs. se_timestamp r' \<le> se_timestamp r)"
  by (induction rs) (auto split: option.splits)

lemma require_Inr [simp]: "require e check = Inr u \<longleftrightarrow> check = Inr True"
  by (cases check) (auto simp: require_def)

text \<open>
  The rows of one contestant keep a limit on their number, and a minimum interval between any two of them but for those that are
  excused from it.
\<close>

definition limits_kept :: "(datetime \<Rightarrow> bool) \<Rightarrow> int option \<Rightarrow> timedelta option \<Rightarrow> 'a sent_row_scheme list \<Rightarrow> bool" where
  "limits_kept excused max_number min_interval rs \<longleftrightarrow>
     (case max_number of None \<Rightarrow> True | Some m \<Rightarrow> int (length rs) \<le> max 0 m) \<and>
     (case min_interval of
        None \<Rightarrow> True
      | Some d \<Rightarrow> sorted_wrt (\<lambda>r r'. d \<le> se_timestamp r' - se_timestamp r \<or> excused (se_timestamp r')) rs)"

definition may_add :: "(datetime \<Rightarrow> bool) \<Rightarrow> datetime \<Rightarrow> int option \<Rightarrow> timedelta option \<Rightarrow> 'a sent_row_scheme list \<Rightarrow> bool" where
  "may_add excused timestamp max_number min_interval rs \<longleftrightarrow>
     (case max_number of None \<Rightarrow> True | Some m \<Rightarrow> int (length rs) < m) \<and>
     (excused timestamp \<or>
      (case min_interval of
         None \<Rightarrow> True
       | Some d \<Rightarrow> (case latest_row rs of None \<Rightarrow> True | Some r \<Rightarrow> d \<le> timestamp - se_timestamp r)))"

lemma limits_kept_Nil [simp]: "limits_kept excused m d []"
  by (simp add: limits_kept_def split: option.split)

lemma limits_kept_add:
  assumes "limits_kept excused m d rs" "may_add excused (se_timestamp r) m d rs"
  shows "limits_kept excused m d (rs @ [r])"
proof -
  have "dd \<le> se_timestamp r - se_timestamp r' \<or> excused (se_timestamp r)"
    if "r' \<in> set rs" "d = Some dd" for r' dd
    using assms(2) that latest_row_latest [of rs] by (auto simp: may_add_def split: option.splits)
  then show ?thesis
    using assms by (auto simp: limits_kept_def may_add_def sorted_wrt_append split: option.splits)
qed

definition in_last_minutes :: "contest_row \<Rightarrow> participation_row \<Rightarrow> datetime \<Rightarrow> bool" where
  "in_last_minutes contest p timestamp = (is_last_minutes contest timestamp p = Inr True)"

lemma checks_may_add:
  assumes "check_max_number tasks m p c task rows = Inr True" "\<not> pa_unrestricted p"
    "excused timestamp \<or> check_min_interval tasks d timestamp p c task rows = Inr True"
    "filter_submission_query tasks p c task rows = Inr rs"
  shows "may_add excused timestamp m d rs"
  using assms
  by (auto simp: may_add_def check_max_number_def check_min_interval_def get_submission_count_def get_latest_submission_def
      split: option.splits)

definition no_overrides :: "overrides \<Rightarrow> bool" where
  "no_overrides ov \<longleftrightarrow> \<not> ov_max_number ov \<and> \<not> ov_min_interval ov"

lemma submission_checks_Inr:
  assumes "submission_checks db contest p task rq ov = Inr u" "\<not> pa_unrestricted p" "no_overrides ov"
  shows "may_add (in_last_minutes contest p) (sr_timestamp rq) (co_max_submission_number contest) (co_min_submission_interval contest)
      (rows_in (sd_tasks db) p (co_id contest) (sd_submissions db))"
    and "may_add (in_last_minutes contest p) (sr_timestamp rq) (tk_max_submission_number task) (tk_min_submission_interval task)
      (rows_on p task (sd_submissions db))"
proof -
  obtain last where last: "is_last_minutes contest (sr_timestamp rq) p = Inr last"
    using assms by (cases "is_last_minutes contest (sr_timestamp rq) p") (auto simp: submission_checks_def no_overrides_def Let_def)
  let ?rows = "sd_submissions db" and ?tasks = "sd_tasks db"
  have checks: "check_max_number ?tasks (co_max_submission_number contest) p (Some (co_id contest)) None ?rows = Inr True"
    "check_max_number ?tasks (tk_max_submission_number task) p None (Some task) ?rows = Inr True"
    "last \<or> check_min_interval ?tasks (co_min_submission_interval contest) (sr_timestamp rq) p (Some (co_id contest)) None ?rows = Inr True"
    "last \<or> check_min_interval ?tasks (tk_min_submission_interval task) (sr_timestamp rq) p None (Some task) ?rows = Inr True"
    using assms last by (auto simp: submission_checks_def no_overrides_def Let_def split: if_splits)
  have excused: "last \<longleftrightarrow> in_last_minutes contest p (sr_timestamp rq)" using last by (simp add: in_last_minutes_def)
  from checks_may_add [where excused = "in_last_minutes contest p", OF checks(1) assms(2) checks(3) [unfolded excused] filter_query(2)]
  show "may_add (in_last_minutes contest p) (sr_timestamp rq) (co_max_submission_number contest) (co_min_submission_interval contest)
      (rows_in ?tasks p (co_id contest) ?rows)" .
  from checks_may_add [where excused = "in_last_minutes contest p", OF checks(2) assms(2) checks(4) [unfolded excused] filter_query(1)]
  show "may_add (in_last_minutes contest p) (sr_timestamp rq) (tk_max_submission_number task) (tk_min_submission_interval task)
      (rows_on p task ?rows)" .
qed

lemma user_test_checks_Inr:
  assumes "user_test_checks db contest p task rq = Inr u" "\<not> pa_unrestricted p"
  shows "may_add (\<lambda>_. False) (sr_timestamp rq) (co_max_user_test_number contest) (co_min_user_test_interval contest)
      (rows_in (sd_tasks db) p (co_id contest) (sd_user_tests db))"
    and "may_add (\<lambda>_. False) (sr_timestamp rq) (tk_max_user_test_number task) (tk_min_user_test_interval task)
      (rows_on p task (sd_user_tests db))"
proof -
  let ?rows = "sd_user_tests db" and ?tasks = "sd_tasks db"
  have checks: "check_max_number ?tasks (co_max_user_test_number contest) p (Some (co_id contest)) None ?rows = Inr True"
    "check_max_number ?tasks (tk_max_user_test_number task) p None (Some task) ?rows = Inr True"
    "check_min_interval ?tasks (co_min_user_test_interval contest) (sr_timestamp rq) p (Some (co_id contest)) None ?rows = Inr True"
    "check_min_interval ?tasks (tk_min_user_test_interval task) (sr_timestamp rq) p None (Some task) ?rows = Inr True"
    using assms(1) by (auto simp: user_test_checks_def Let_def split: if_splits)
  from checks_may_add [where excused = "\<lambda>_. False", OF checks(1) assms(2) disjI2 [OF checks(3)] filter_query(2)]
  show "may_add (\<lambda>_. False) (sr_timestamp rq) (co_max_user_test_number contest) (co_min_user_test_interval contest)
      (rows_in ?tasks p (co_id contest) ?rows)" .
  from checks_may_add [where excused = "\<lambda>_. False", OF checks(2) assms(2) disjI2 [OF checks(4)] filter_query(1)]
  show "may_add (\<lambda>_. False) (sr_timestamp rq) (tk_max_user_test_number task) (tk_min_user_test_interval task) (rows_on p task ?rows)" .
qed

section \<open>What an accepted submission holds\<close>

lemma store_files_Inr:
  assumes "store_files put files digests = Inr digests'" "dict_ok files"
  shows "set (dict_keys digests') = set (dict_keys digests) \<union> set (dict_keys files) \<and>
    (\<forall>c. dict_get digests' c = (case dict_get files c of None \<Rightarrow> dict_get digests c | Some content \<Rightarrow> put content)) \<and>
    (\<forall>(c, content) \<in> set files. put content \<noteq> None)"
  using assms
proof (induction put files digests rule: store_files.induct)
  case (2 put codename content files digests)
  from 2(2,3) obtain d where d: "put content = Some d" "store_files put files (dict_set codename d digests) = Inr digests'"
    "codename \<notin> set (dict_keys files)" "dict_ok files"
    by (auto split: option.splits)
  have "dict_get files codename = None" using d(3) by (simp add: map_of_eq_None_iff)
  then show ?case using 2(1) [OF d(1,2,4)] d(1) by (simp add: fst_set_dict_set dict_get_set cong: option.case_cong)
qed auto

lemma dict_ok_store_files:
  "store_files put files digests = Inr digests' \<Longrightarrow> dict_ok digests \<Longrightarrow> dict_ok digests'"
  by (induction put files digests rule: store_files.induct) (auto split: option.splits simp: distinct_update)

lemma res_fold_fetch:
  assumes "res_fold (fetch_file_digest language (\<lambda>_. None) r) digests codenames = Inr digests'" "dict_ok digests"
  shows "dict_ok digests' \<and> (\<forall>c. dict_get digests' c =
    (if c \<in> set codenames \<and> dict_get (se_files r) c \<noteq> None then dict_get (se_files r) c else dict_get digests c))"
  using assms
proof (induction codenames arbitrary: digests)
  case (Cons c codenames)
  then obtain d1 where d1: "fetch_file_digest language (\<lambda>_. None) r digests c = Inr d1"
    "res_fold (fetch_file_digest language (\<lambda>_. None) r) d1 codenames = Inr digests'"
    by auto
  then have "d1 = (case dict_get (se_files r) c of None \<Rightarrow> digests | Some x \<Rightarrow> dict_set c x digests)"
    by (auto simp: fetch_file_digest_def split: option.splits)
  then show ?case using Cons.IH [OF d1(2)] Cons.prems(2) by (auto split: option.splits simp: distinct_update)
qed simp

text \<open>The digests taken over from the previous submission are for files that are missing, and are those of its files.\<close>

lemma reused_digests_Inr:
  assumes "reused_digests tasks p task language missing (\<lambda>_. None) rows = Inr digests"
  shows "dict_ok digests \<and> (missing \<noteq> [] \<longrightarrow> tk_allow_partial_submission task) \<and> set (dict_keys digests) \<subseteq> set missing \<and>
    (\<forall>c d. dict_get digests c = Some d \<longrightarrow>
       (\<exists>r. latest_row (rows_on p task rows) = Some r \<and> se_language r = map_option la_name language \<and> dict_get (se_files r) c = Some d))"
proof -
  consider (none) "digests = []" "missing \<noteq> [] \<longrightarrow> tk_allow_partial_submission task"
    | (reuse) r where "tk_allow_partial_submission task" "latest_row (rows_on p task rows) = Some r"
        "se_language r = map_option la_name language" "res_fold (fetch_file_digest language (\<lambda>_. None) r) [] missing = Inr digests"
    using assms
    by (cases "fetch_file_digests_from_previous_submission tasks p task language missing (\<lambda>_. None) rows")
      (auto simp: reused_digests_def fetch_file_digests_from_previous_submission_def get_latest_submission_def
        split: if_splits option.splits)
  then show ?thesis
  proof cases
    case reuse
    from res_fold_fetch [OF this(4)] have d: "dict_ok digests"
      "\<And>c. dict_get digests c = (if c \<in> set missing \<and> dict_get (se_files r) c \<noteq> None then dict_get (se_files r) c else None)"
      by simp_all
    moreover have "set (dict_keys digests) \<subseteq> set missing"
      using d(2) unfolding dict_keys_get subset_iff by (metis (mono_tags))
    ultimately show ?thesis using reuse by (auto split: if_splits)
  qed simp
qed


text \<open>The stages an accepted submission went through.\<close>

lemma accept_submission_Inr:
  assumes "accept_submission env db contest p task rq official ov = Inr db'"
  obtains received files language digests digests' comment where
    "submission_checks db contest p task rq ov = Inr ()" "limit_checks ov = Inr ()"
    "received_files env True (remdups (tk_submission_format task)) rq = Inr received"
    "matched_files env contest task (remdups (tk_submission_format task)) rq received = Inr (files, language)"
    "reused_digests (sd_tasks db) p task language (filter (\<lambda>c. dict_get files c = None) (remdups (tk_submission_format task)))
       (\<lambda>_. None) (sd_submissions db) = Inr digests"
    "\<forall>(c, content) \<in> set files. int (length content) \<le> we_max_submission_length env"
    "store_files (we_put_file_content env) files digests = Inr digests'"
    "db' = db\<lparr>sd_submissions := sd_submissions db @
       [\<lparr>se_participation = pa_id p, se_task = tk_id task, se_timestamp = sr_timestamp rq,
         se_language = map_option la_name language, se_files = digests', ss_opaque_id = sr_opaque_id rq,
         ss_comment = comment, ss_official = official, ss_override_time_limit = ov_time_limit ov,
         ss_override_mem_limit = ov_mem_limit ov\<rparr>]\<rparr>"
  using assms by (fastforce simp: accept_submission_def Let_def list_ex_iff split: if_splits)

lemma accept_user_test_Inr:
  assumes "accept_user_test env db contest p task rq = Inr db'"
  obtains row where "user_test_checks db contest p task rq = Inr ()" "db' = db\<lparr>sd_user_tests := sd_user_tests db @ [row]\<rparr>"
    "se_participation row = pa_id p" "se_task row = tk_id task" "se_timestamp row = sr_timestamp rq"
  using assms by (fastforce simp: accept_user_test_def Let_def split: if_splits)

text \<open>
  The requests that the web servers have accepted, one after the other: submissions and tests of any contestant on any task. The settings
  of the contest, of the contestant \<open>p\<close> and of the task \<open>t\<close> do not change.
\<close>

inductive submit_run :: "contest_row \<Rightarrow> participation_row \<Rightarrow> sub_task_row \<Rightarrow> submit_db \<Rightarrow> bool" for contest p t where
  run_start: "sd_submissions db = [] \<Longrightarrow> sd_user_tests db = [] \<Longrightarrow> submit_run contest p t db"
| run_submission: "submit_run contest p t db \<Longrightarrow> p' = p \<and> contest' = contest \<or> pa_id p' \<noteq> pa_id p \<Longrightarrow> t' = t \<or> tk_id t' \<noteq> tk_id t \<Longrightarrow>
    no_overrides ov \<Longrightarrow> accept_submission env db contest' p' t' rq official ov = Inr db' \<Longrightarrow> submit_run contest p t db'"
| run_user_test: "submit_run contest p t db \<Longrightarrow> p' = p \<and> contest' = contest \<or> pa_id p' \<noteq> pa_id p \<Longrightarrow> t' = t \<or> tk_id t' \<noteq> tk_id t \<Longrightarrow>
    accept_user_test env db contest' p' t' rq = Inr db' \<Longrightarrow> submit_run contest p t db'"

lemma rows_snoc:
  "rows_on p t (rows @ [r]) = rows_on p t rows @ (if se_task r = tk_id t \<and> se_participation r = pa_id p then [r] else [])"
  "rows_in tasks p c (rows @ [r]) = rows_in tasks p c rows @
     (if dict_get tasks (se_task r) = Some c \<and> se_participation r = pa_id p then [r] else [])"
  by (simp_all add: rows_on_def rows_in_def)

text \<open>One more row keeps the limits of the contest and of the task, if the checks let it through.\<close>

definition rows_limited :: "(datetime \<Rightarrow> bool) \<Rightarrow> (int, int) dict \<Rightarrow> participation_row \<Rightarrow> int \<Rightarrow> sub_task_row \<Rightarrow>
    int option \<times> timedelta option \<Rightarrow> int option \<times> timedelta option \<Rightarrow> 'a sent_row_scheme list \<Rightarrow> bool" where
  "rows_limited excused tasks p c t of_contest of_task rows \<longleftrightarrow>
     limits_kept excused (fst of_contest) (snd of_contest) (rows_in tasks p c rows) \<and>
     limits_kept excused (fst of_task) (snd of_task) (rows_on p t rows)"

lemma rows_limited_add:
  assumes "rows_limited excused tasks p c t of_contest of_task rows"
    "se_participation r = pa_id p \<Longrightarrow> may_add excused (se_timestamp r) (fst of_contest) (snd of_contest) (rows_in tasks p c rows)"
    "se_participation r = pa_id p \<Longrightarrow> se_task r = tk_id t \<Longrightarrow> may_add excused (se_timestamp r) (fst of_task) (snd of_task) (rows_on p t rows)"
  shows "rows_limited excused tasks p c t of_contest of_task (rows @ [r])"
  using assms by (auto simp: rows_limited_def rows_snoc intro: limits_kept_add)



lemma matched_files_Inr:
  assumes "matched_files env contest task fmt rq received = Inr (files, language)" "distinct fmt"
  shows "dict_ok files \<and> set (dict_keys files) \<subseteq> set fmt \<and>
    language_admitted (we_languages env) (sr_language_name rq) fmt (get_allowed_languages contest task) language \<and>
    (\<forall>content \<in> snd ` set files. \<exists>f \<in> set received. content = rf_content f)"
proof -
  have "match_files_and_language (we_languages env) received (sr_language_name rq) fmt (get_allowed_languages contest task) = Inr (files, language)"
    using assms(1) by (auto simp: matched_files_def split: sum.splits files_error.splits)
  then obtain ls where ls: "candidate_languages (we_languages env) (sr_language_name rq) fmt (get_allowed_languages contest task) = Inr ls"
    "language \<in> set ls" "match_files received language fmt = Inr files"
    using match_files_and_language_Inr [OF assms(2)] by (auto simp: matched_uniquely_def)
  have files: "dict_ok files" "set (dict_keys files) \<subseteq> set fmt"
    "list_all2 (\<lambda>f (e, content). element_of language fmt f = Inr e \<and> content = rf_content f) received files"
    using match_files_Inr [OF candidate_languages_fit [OF ls(1,2)] assms(2) ls(3)] by simp_all
  have "\<exists>f \<in> set received. content = rf_content f" if "(c, content) \<in> set files" for c content
  proof -
    obtain i where i: "i < length files" "files ! i = (c, content)" using \<open>(c, content) \<in> set files\<close> by (metis in_set_conv_nth)
    then have "i < length received" "content = rf_content (received ! i)"
      using list_all2_lengthD [OF files(3)] list_all2_nthD2 [OF files(3) i(1)] by auto
    then show ?thesis by auto
  qed
  then show ?thesis using files(1,2) candidate_admitted [OF ls(1,2)] by fastforce
qed

text \<open>What a stored file stands for: a file received now, small enough and stored, or a file of the contestant's latest submission on the task.\<close>

definition file_from :: "web_env \<Rightarrow> (string, bytes) dict \<Rightarrow> 'a sent_row_scheme option \<Rightarrow> string option \<Rightarrow> string \<Rightarrow> string \<Rightarrow> bool" where
  "file_from env files latest language codename digest =
     (case dict_get files codename of
        Some content \<Rightarrow> int (length content) \<le> we_max_submission_length env \<and> we_put_file_content env content = Some digest
      | None \<Rightarrow> (case latest of
          None \<Rightarrow> False
        | Some r \<Rightarrow> se_language r = language \<and> dict_get (se_files r) codename = Some digest))"

lemma accepted_files:
  assumes "dict_ok files" "set (dict_keys files) \<subseteq> set (remdups (tk_submission_format task))"
    "reused_digests tasks p task language (filter (\<lambda>c. dict_get files c = None) (remdups (tk_submission_format task))) (\<lambda>_. None) rows = Inr digests"
    "\<forall>(c, content) \<in> set files. int (length content) \<le> we_max_submission_length env"
    "store_files (we_put_file_content env) files digests = Inr digests'"
  shows "dict_ok digests' \<and> set (dict_keys digests') \<subseteq> set (tk_submission_format task) \<and>
    (\<not> tk_allow_partial_submission task \<longrightarrow> set (dict_keys digests') = set (tk_submission_format task)) \<and>
    set (dict_keys files) \<subseteq> set (dict_keys digests') \<and>
    (\<forall>(c, d) \<in> set digests'. file_from env files (latest_row (rows_on p task rows)) (map_option la_name language) c d)"
proof -
  note d = reused_digests_Inr [OF assms(3)]
  note st = store_files_Inr [OF assms(5,1)]
  have ok: "dict_ok digests'" using dict_ok_store_files [OF assms(5)] d by simp
  have keys: "set (dict_keys digests') = set (dict_keys digests) \<union> set (dict_keys files)" using st by blast
  have sub: "set (dict_keys digests') \<subseteq> set (tk_submission_format task)" using keys assms(2) d by auto
  have all: "set (dict_keys digests') = set (tk_submission_format task)" if "\<not> tk_allow_partial_submission task"
  proof -
    have "filter (\<lambda>c. dict_get files c = None) (remdups (tk_submission_format task)) = []" using d that by blast
    then have "set (tk_submission_format task) \<subseteq> set (dict_keys files)"
      unfolding dict_keys_get subset_iff by (auto simp: filter_empty_conv)
    then show ?thesis using sub keys by blast
  qed
  have "file_from env files (latest_row (rows_on p task rows)) (map_option la_name language) c x"
    if "(c, x) \<in> set digests'" for c x
  proof -
    have x: "dict_get digests' c = Some x" using ok that by simp
    show ?thesis
    proof (cases "dict_get files c")
      case None
      then have "dict_get digests c = Some x" using st x by simp
      then show ?thesis using d None by (fastforce simp: file_from_def)
    next
      case (Some content)
      then have "(c, content) \<in> set files" by (rule map_of_SomeD)
      then show ?thesis using Some st x assms(4) by (auto simp: file_from_def)
    qed
  qed
  then show ?thesis using ok sub all keys by auto
qed

text \<open>
  C10. What an accepted submission leaves in the database: one row more, of this contestant, task and time, and nothing else is changed. Its
  language is one that is installed, allowed and the one named, if any. Its files have names of the submission format, all of them unless
  the task type takes partial submissions; each is a file received now, within the size limit and stored under the digest the row has, or
  has the digest of that file in the contestant's latest submission on the task, which is in the same language. A limit on time
  or memory for this submission is positive, and that on memory whole MiB.
\<close>

theorem accept_submission_stores:
  assumes "accept_submission env db contest p task rq official ov = Inr db'"
  shows "\<exists>row received files language.
    db' = db\<lparr>sd_submissions := sd_submissions db @ [row]\<rparr> \<and>
    se_participation row = pa_id p \<and> se_task row = tk_id task \<and> se_timestamp row = sr_timestamp rq \<and> ss_official row = official \<and>
    received_files env True (remdups (tk_submission_format task)) rq = Inr received \<and>
    (\<forall>content \<in> snd ` set files. \<exists>f \<in> set received. content = rf_content f) \<and>
    se_language row = map_option la_name language \<and>
    language_admitted (we_languages env) (sr_language_name rq) (remdups (tk_submission_format task)) (get_allowed_languages contest task) language \<and>
    dict_ok (se_files row) \<and> set (dict_keys (se_files row)) \<subseteq> set (tk_submission_format task) \<and>
    (\<not> tk_allow_partial_submission task \<longrightarrow> set (dict_keys (se_files row)) = set (tk_submission_format task)) \<and>
    set (dict_keys files) \<subseteq> set (dict_keys (se_files row)) \<and>
    (\<forall>(c, d) \<in> set (se_files row). file_from env files (latest_row (rows_on p task (sd_submissions db))) (se_language row) c d) \<and>
    (\<forall>s. ss_override_time_limit row = Some s \<longrightarrow> 0 < s) \<and>
    (\<forall>m. ss_override_mem_limit row = Some m \<longrightarrow> 0 < m \<and> 1024 * 1024 dvd m)"
  using assms
proof (rule accept_submission_Inr)
  let ?fmt = "remdups (tk_submission_format task)"
  fix received files language digests digests' comment
  assume limits: "limit_checks ov = Inr ()"
    and received: "received_files env True ?fmt rq = Inr received"
    and matched: "matched_files env contest task ?fmt rq received = Inr (files, language)"
    and reused: "reused_digests (sd_tasks db) p task language (filter (\<lambda>c. dict_get files c = None) ?fmt) (\<lambda>_. None) (sd_submissions db) = Inr digests"
    and small: "\<forall>(c, content) \<in> set files. int (length content) \<le> we_max_submission_length env"
    and stored: "store_files (we_put_file_content env) files digests = Inr digests'"
    and db': "db' = db\<lparr>sd_submissions := sd_submissions db @
       [\<lparr>se_participation = pa_id p, se_task = tk_id task, se_timestamp = sr_timestamp rq,
         se_language = map_option la_name language, se_files = digests', ss_opaque_id = sr_opaque_id rq,
         ss_comment = comment, ss_official = official, ss_override_time_limit = ov_time_limit ov,
         ss_override_mem_limit = ov_mem_limit ov\<rparr>]\<rparr>"
  note m = matched_files_Inr [OF matched distinct_remdups]
  note files = accepted_files [OF conjunct1 [OF m] _ reused small stored]
  have ov: "(\<forall>s. ov_time_limit ov = Some s \<longrightarrow> 0 < s) \<and> (\<forall>m. ov_mem_limit ov = Some m \<longrightarrow> 0 < m \<and> 1024 * 1024 dvd m)"
    using limits by (auto simp: limit_checks_def dvd_eq_mod_eq_0 split: if_splits option.splits)
  show ?thesis
    using m received files ov
    by (intro exI [of _ "last (sd_submissions db')"] exI [of _ received] exI [of _ files] exI [of _ language]) (auto simp: db')
qed


definition example_env :: web_env where
  "example_env = \<lparr>we_languages = example_languages, we_open_archive = (\<lambda>_. None), we_put_file_content = (\<lambda>content. Some (''sha:'' @ content)),
     we_max_submission_length = 100, we_max_input_length = 100\<rparr>"

definition example_contest :: contest_row where
  "example_contest = \<lparr>co_id = 1, co_languages = [''C++'', ''Python''], co_max_submission_number = Some 5, co_max_user_test_number = Some 2,
     co_min_submission_interval = None, co_min_user_test_interval = Some 30, co_min_submission_interval_grace_period = Some 10\<rparr>"

definition example_task :: sub_task_row where
  "example_task = \<lparr>tk_id = 7, tk_contest = 1, tk_submission_format = [''sum.%l''], tk_allowed_languages = None,
     tk_max_submission_number = Some 2, tk_max_user_test_number = None, tk_min_submission_interval = Some 60,
     tk_min_user_test_interval = None, tk_allow_partial_submission = False, tk_reuse_previous_submission = False,
     tk_testable = True, tk_user_managers = []\<rparr>"

definition example_contestant :: participation_row where
  "example_contestant = \<lparr>pa_id = 3, pa_unrestricted = False, pa_starting_time = None, pa_delay_time = 0, pa_extra_time = 0,
     pa_group_stop = 1000, pa_group_per_user_time = None\<rparr>"

definition example_request :: "datetime \<Rightarrow> submit_request" where
  "example_request timestamp = \<lparr>sr_timestamp = timestamp, sr_tornado_files = [(''sum.%l'', [\<lparr>hf_filename = ''sum.cc'', hf_body = ''main''\<rparr>])],
     sr_language_name = Some ''C++'', sr_lock = True, sr_opaque_id = 1\<rparr>"

definition example_overrides :: overrides where
  "example_overrides = \<lparr>ov_max_number = False, ov_min_interval = False, ov_time_limit = None, ov_mem_limit = None\<rparr>"

definition example_submit :: "submit_db \<Rightarrow> datetime \<Rightarrow> submit_error + submit_db" where
  "example_submit db timestamp =
     accept_submission example_env db example_contest example_contestant example_task (example_request timestamp) True example_overrides"

definition example_submit_db :: submit_db where
  "example_submit_db = \<lparr>sd_tasks = [(7, 1)], sd_submissions = [], sd_user_tests = []\<rparr>"

definition example_sent :: "datetime \<Rightarrow> sent_submission" where
  "example_sent timestamp = \<lparr>se_participation = 3, se_task = 7, se_timestamp = timestamp, se_language = Some ''C++'',
     se_files = [(''sum.%l'', ''sha:main'')], ss_opaque_id = 1, ss_comment = ''sum.cc'', ss_official = True,
     ss_override_time_limit = None, ss_override_mem_limit = None\<rparr>"

lemma example_submits:
  "example_submit example_submit_db 100 = Inr (example_submit_db\<lparr>sd_submissions := [example_sent 100]\<rparr>)"
  "example_submit (example_submit_db\<lparr>sd_submissions := [example_sent 100]\<rparr>) 159 = Inl TooFrequentOnTask"
  "example_submit (example_submit_db\<lparr>sd_submissions := [example_sent 100]\<rparr>) 160 =
     Inr (example_submit_db\<lparr>sd_submissions := [example_sent 100, example_sent 160]\<rparr>)"
  "example_submit (example_submit_db\<lparr>sd_submissions := [example_sent 100, example_sent 160]\<rparr>) 500 = Inl TooManyOnTask"
  by code_simp+

lemma example_run: "submit_run example_contest example_contestant example_task (example_submit_db\<lparr>sd_submissions := [example_sent 100, example_sent 160]\<rparr>)"
proof -
  have free: "no_overrides example_overrides" by code_simp
  have "submit_run example_contest example_contestant example_task example_submit_db"
    by (rule run_start) (simp_all add: example_submit_db_def)
  then have "submit_run example_contest example_contestant example_task (example_submit_db\<lparr>sd_submissions := [example_sent 100]\<rparr>)"
    by (rule run_submission [OF _ disjI1 [OF conjI [OF refl refl]] disjI1 [OF refl] free example_submits(1) [unfolded example_submit_def]])
  then show ?thesis
    by (rule run_submission [OF _ disjI1 [OF conjI [OF refl refl]] disjI1 [OF refl] free example_submits(3) [unfolded example_submit_def]])
qed


theorem accept_submission_stores_witness:
  "\<exists>row. example_submit example_submit_db 100 = Inr (example_submit_db\<lparr>sd_submissions := [row]\<rparr>) \<and>
     se_participation row = 3 \<and> set (dict_keys (se_files row)) = {''sum.%l''}"
proof -
  from accept_submission_stores [OF example_submits(1) [unfolded example_submit_def]] obtain row where
    "example_submit_db\<lparr>sd_submissions := [example_sent 100]\<rparr> = example_submit_db\<lparr>sd_submissions := sd_submissions example_submit_db @ [row]\<rparr>"
    "se_participation row = pa_id example_contestant"
    "\<not> tk_allow_partial_submission example_task \<longrightarrow> set (dict_keys (se_files row)) = set (tk_submission_format example_task)"
    by (elim exE conjE) blast
  then show ?thesis
    using example_submits(1) by (intro exI [of _ row]) (simp add: example_submit_db_def example_contestant_def example_task_def)
qed

end
