(* ===== verification/AsyncPriorityQueue.thy ===== *)
theory AsyncPriorityQueue
  imports PriorityQueue
begin

text \<open>
  The queue of the asynchronous services, \<^verbatim>\<open>cms/io/async_priorityqueue.py\<close>. Its heap is that of \<open>PriorityQueue\<close>, method by
  method; what it adds is the time given to an item that is pushed without one, which never goes back although the clock may.
\<close>

section \<open>Model\<close>

record 'i async_queue =
  aq_heap :: "'i pqueue"
  aq_last_default_timestamp :: "datetime option"

definition aq_init :: "'i async_queue" where
  "aq_init = \<lparr>aq_heap = pq_init, aq_last_default_timestamp = None\<rparr>"

definition aq_contains :: "'i async_queue \<Rightarrow> 'i \<Rightarrow> bool" where
  "aq_contains q x = pq_contains (aq_heap q) x"

definition aq_length :: "'i async_queue \<Rightarrow> nat" where
  "aq_length q = pq_length (aq_heap q)"

definition aq_empty :: "'i async_queue \<Rightarrow> bool" where
  "aq_empty q \<longleftrightarrow> aq_length q = 0"

text \<open>The time of an item without one; a microsecond is the unit of times.\<close>

definition aq_default_timestamp :: "'i async_queue \<Rightarrow> datetime \<Rightarrow> datetime" where
  "aq_default_timestamp q now =
     (case aq_last_default_timestamp q of None \<Rightarrow> now | Some last_default \<Rightarrow> max now (last_default + 1))"

definition aq_push :: "'i async_queue \<Rightarrow> 'i \<Rightarrow> int option \<Rightarrow> datetime option \<Rightarrow> datetime \<Rightarrow> 'i async_queue \<times> bool" where
  "aq_push q x priority timestamp now =
     (if aq_contains q x then (q, False)
      else
        let t = (case timestamp of None \<Rightarrow> aq_default_timestamp q now | Some t \<Rightarrow> t);
            q1 = (if timestamp = None then q\<lparr>aq_last_default_timestamp := Some t\<rparr> else q);
            (heap, pushed) = pq_push (aq_heap q1) x priority (Some t) now
        in (q1\<lparr>aq_heap := heap\<rparr>, pushed))"

definition aq_top :: "'i async_queue \<Rightarrow> bool \<Rightarrow> 'i queue_entry option res" where
  "aq_top q wait = pq_top (aq_heap q) wait"

definition aq_pop :: "'i async_queue \<Rightarrow> bool \<Rightarrow> ('i async_queue \<times> 'i queue_entry) option res" where
  "aq_pop q wait =
     (case pq_pop (aq_heap q) wait of
        Inl e \<Rightarrow> Inl e
      | Inr None \<Rightarrow> Inr None
      | Inr (Some (heap, entry)) \<Rightarrow> Inr (Some (q\<lparr>aq_heap := heap\<rparr>, entry)))"

definition aq_remove :: "'i async_queue \<Rightarrow> 'i \<Rightarrow> ('i async_queue \<times> 'i queue_entry) res" where
  "aq_remove q x = res_bind (pq_remove (aq_heap q) x) (\<lambda>(heap, entry). Inr (q\<lparr>aq_heap := heap\<rparr>, entry))"

definition aq_set_priority :: "'i async_queue \<Rightarrow> 'i \<Rightarrow> int \<Rightarrow> 'i async_queue res" where
  "aq_set_priority q x priority = res_bind (pq_set_priority (aq_heap q) x priority) (\<lambda>heap. Inr (q\<lparr>aq_heap := heap\<rparr>))"

definition aq_get_status :: "('i \<Rightarrow> 'd) \<Rightarrow> 'i async_queue \<Rightarrow> 'd queue_entry_dict list" where
  "aq_get_status to_dict q = pq_get_status to_dict (aq_heap q)"


section \<open>Lemmas\<close>

definition aq_inv :: "'i async_queue \<Rightarrow> bool" where
  "aq_inv q = pq_inv (aq_heap q)"

definition aq_entries :: "'i async_queue \<Rightarrow> 'i queue_entry multiset" where
  "aq_entries q = mset (pq_queue (aq_heap q))"

lemma aq_contains_iff: "aq_inv q \<Longrightarrow> aq_contains q x \<longleftrightarrow> (\<exists>e \<in># aq_entries q. qe_item e = x)"
  by (auto simp: aq_inv_def aq_contains_def aq_entries_def pq_inv_def pq_contains_iff)

lemma aq_entries_unique:
  assumes "aq_inv q"
  shows "count (image_mset qe_item (aq_entries q)) x \<le> 1"
proof -
  have "distinct (map qe_item (pq_queue (aq_heap q)))"
    using assms rev_ok_distinct by (auto simp: aq_inv_def pq_inv_def)
  then have "count (mset (map qe_item (pq_queue (aq_heap q)))) x \<le> 1" by (simp add: distinct_count_atmost_1)
  then show ?thesis by (simp add: aq_entries_def)
qed

lemma aq_push_new:
  assumes "aq_inv q" "\<not> aq_contains q x"
  shows "\<exists>q' e. aq_push q x priority (Some t) now = (q', True) \<and> aq_inv q' \<and> aq_entries q' = add_mset e (aq_entries q) \<and>
    qe_item e = x \<and> qe_timestamp e = t \<and> qe_priority e = (case priority of None \<Rightarrow> PRIORITY_MEDIUM | Some p \<Rightarrow> p)"
proof -
  have "pq_inv (aq_heap q)" "\<not> pq_contains (aq_heap q) x" using assms by (simp_all add: aq_inv_def aq_contains_def)
  from pq_push_effect [OF this, of priority "Some t" now] show ?thesis
    using assms(2)
    by (intro exI [of _ "q\<lparr>aq_heap := fst (pq_push (aq_heap q) x priority (Some t) now)\<rparr>"]
        exI [of _ "pq_new_entry (aq_heap q) x priority (Some t) now"])
      (simp add: aq_push_def aq_contains_def pq_push_eq aq_inv_def aq_entries_def pq_new_entry_def)
qed

lemma aq_pop_effect:
  assumes "aq_inv q" "aq_entries q \<noteq> {#}"
  obtains q' e where "aq_pop q wait = Inr (Some (q', e))" "aq_inv q'" "add_mset e (aq_entries q') = aq_entries q"
proof -
  have "pq_inv (aq_heap q)" "pq_queue (aq_heap q) \<noteq> []" using assms by (auto simp: aq_inv_def aq_entries_def)
  then obtain heap where "pq_pop (aq_heap q) wait = Inr (Some (heap, pq_queue (aq_heap q) ! 0))" "pq_inv heap"
    "add_mset (pq_queue (aq_heap q) ! 0) (mset (pq_queue heap)) = mset (pq_queue (aq_heap q))"
    by (rule pq_pop_effect)
  then show thesis using that [of "q\<lparr>aq_heap := heap\<rparr>"] by (simp add: aq_pop_def aq_inv_def aq_entries_def)
qed

lemma aq_remove_effect:
  assumes "aq_inv q" "aq_contains q x"
  obtains q' e where "aq_remove q x = Inr (q', e)" "aq_inv q'" "qe_item e = x" "add_mset e (aq_entries q') = aq_entries q"
proof -
  have inv: "pq_inv (aq_heap q)" "rev_ok (aq_heap q)" using assms(1) by (simp_all add: aq_inv_def pq_inv_def)
  then obtain k where "pq_contents (aq_heap q) x = Some k"
    using assms(2) pq_contains_contents [OF inv(2)] by (auto simp: aq_contains_def)
  from pq_remove_effect [OF inv(1) this] show thesis using that by (fastforce simp: aq_remove_def aq_inv_def aq_entries_def)
qed

lemma aq_remove_absent: "\<not> aq_contains q x \<Longrightarrow> aq_remove q x = Inl KeyError"
  by (simp add: aq_remove_def aq_contains_def pq_contains_def pq_remove_def)


lemma aq_push_default_entry:
  assumes "aq_inv q" "aq_push q x priority None now = (q', True)"
  shows "\<exists>e. aq_entries q' = add_mset e (aq_entries q) \<and> qe_item e = x \<and> qe_timestamp e = aq_default_timestamp q now \<and>
    qe_priority e = (case priority of None \<Rightarrow> PRIORITY_MEDIUM | Some p \<Rightarrow> p)"
proof -
  have new: "\<not> pq_contains (aq_heap q) x" using assms(2) by (auto simp: aq_push_def aq_contains_def)
  have inv: "pq_inv (aq_heap q)" using assms(1) by (simp add: aq_inv_def)
  let ?e = "pq_new_entry (aq_heap q) x priority (Some (aq_default_timestamp q now)) now"
  have "aq_heap q' = fst (pq_push (aq_heap q) x priority (Some (aq_default_timestamp q now)) now)"
    using assms(2) new by (auto simp: aq_push_def aq_contains_def Let_def split: prod.splits)
  then have "aq_entries q' = add_mset ?e (aq_entries q)"
    using pq_push_effect(3) [OF inv new, of priority "Some (aq_default_timestamp q now)" now] by (simp add: aq_entries_def)
  then show ?thesis by (intro exI [of _ ?e]) (simp add: pq_new_entry_def)
qed

lemma aq_push_inv:
  assumes "aq_inv q" "aq_push q x priority timestamp now = (q', pushed)"
  shows "aq_inv q'"
proof (cases "aq_contains q x")
  case True
  then show ?thesis using assms by (simp add: aq_push_def)
next
  case False
  then obtain t where "aq_heap q' = fst (pq_push (aq_heap q) x priority (Some t) now)"
    using assms(2) by (auto simp: aq_push_def Let_def split: prod.splits if_splits) (metis fst_conv)+
  then show ?thesis using pq_push_effect(1) [of "aq_heap q" x priority "Some t" now] assms(1) False
    by (simp add: aq_inv_def aq_contains_def)
qed

text \<open>The times given by default.\<close>

inductive aq_step :: "'i async_queue \<Rightarrow> 'i async_queue \<Rightarrow> bool" where
  "aq_push q x priority timestamp now = (q', pushed) \<Longrightarrow> aq_step q q'"
| "aq_pop q wait = Inr (Some (q', e)) \<Longrightarrow> aq_step q q'"
| "aq_remove q x = Inr (q', e) \<Longrightarrow> aq_step q q'"
| "aq_set_priority q x priority = Inr q' \<Longrightarrow> aq_step q q'"

lemma aq_push_default:
  "aq_push q x priority timestamp now = (q', pushed) \<Longrightarrow>
    aq_last_default_timestamp q' =
      (if timestamp = None \<and> pushed then Some (aq_default_timestamp q now) else aq_last_default_timestamp q)"
  by (auto simp: aq_push_def aq_contains_def pq_push_eq Let_def split: if_splits)

lemma aq_default_later: "aq_last_default_timestamp q = Some t \<Longrightarrow> t < aq_default_timestamp q now"
  by (simp add: aq_default_timestamp_def)

lemma aq_step_default:
  assumes "aq_step q q'" "aq_last_default_timestamp q = Some t"
  shows "\<exists>t'. aq_last_default_timestamp q' = Some t' \<and> t \<le> t'"
  using assms
proof (induction rule: aq_step.induct)
  case (1 q x priority timestamp now q' pushed)
  then show ?case using aq_push_default [OF 1(1)] aq_default_later [OF 1(2), of now] by auto
qed (auto simp: aq_pop_def aq_remove_def aq_set_priority_def split: sum.splits option.splits)

lemma aq_steps_default:
  assumes "aq_step\<^sup>*\<^sup>* q q'" "aq_last_default_timestamp q = Some t"
  shows "\<exists>t'. aq_last_default_timestamp q' = Some t' \<and> t \<le> t'"
  using assms by (induction rule: rtranclp_induct) (use aq_step_default order_trans in blast)+


section \<open>Properties\<close>

text \<open>
  Items pushed without a time keep the order in which they came, also when the clock is set back: of two pushes without a time,
  with anything in between, the entry of the later one has the later time, so at the same priority the earlier one comes first.
\<close>

theorem default_timestamps_increase:
  assumes "aq_inv q" "aq_push q x priority None now = (q1, True)" "aq_step\<^sup>*\<^sup>* q1 q2"
    "aq_inv q2" "aq_push q2 y priority None now' = (q3, True)"
  shows "\<exists>a b. aq_entries q1 = add_mset a (aq_entries q) \<and> aq_entries q3 = add_mset b (aq_entries q2) \<and>
    qe_item a = x \<and> qe_item b = y \<and> qe_priority a = qe_priority b \<and> qe_timestamp a < qe_timestamp b \<and> entry_lt a b"
proof -
  have first: "aq_last_default_timestamp q1 = Some (aq_default_timestamp q now)" using aq_push_default [OF assms(2)] by simp
  obtain t where "aq_last_default_timestamp q2 = Some t" "aq_default_timestamp q now \<le> t"
    using aq_steps_default [OF assms(3) first] by blast
  then have later: "aq_default_timestamp q now < aq_default_timestamp q2 now'"
    using aq_default_later [of q2 t now'] by simp
  obtain a where a: "aq_entries q1 = add_mset a (aq_entries q)" "qe_item a = x" "qe_timestamp a = aq_default_timestamp q now"
    "qe_priority a = (case priority of None \<Rightarrow> PRIORITY_MEDIUM | Some p \<Rightarrow> p)"
    using aq_push_default_entry [OF assms(1,2)] by blast
  obtain b where b: "aq_entries q3 = add_mset b (aq_entries q2)" "qe_item b = y" "qe_timestamp b = aq_default_timestamp q2 now'"
    "qe_priority b = (case priority of None \<Rightarrow> PRIORITY_MEDIUM | Some p \<Rightarrow> p)"
    using aq_push_default_entry [OF assms(4,5)] by blast
  have "entry_lt a b" using a(3,4) b(3,4) later by (simp add: entry_lt_def)
  then show ?thesis using a b later by (intro exI [of _ a] exI [of _ b]) simp
qed

theorem default_timestamps_increase_witness:
  "\<exists>a b :: string queue_entry. qe_item a = ''a'' \<and> qe_item b = ''b'' \<and> qe_timestamp a < qe_timestamp b \<and> entry_lt a b"
proof -
  let ?q1 = "fst (aq_push aq_init ''a'' None None 100)" and ?q3 = "fst (aq_push (fst (aq_push aq_init ''a'' None None 100)) ''b'' None None 50)"
  have run: "aq_push aq_init ''a'' None None 100 = (?q1, True)" "aq_push ?q1 ''b'' None None 50 = (?q3, True)" by code_simp+
  have inv: "aq_inv aq_init" by (simp add: aq_inv_def aq_init_def)
  have "aq_inv ?q1" using aq_push_inv [OF inv run(1)] .
  from default_timestamps_increase [OF inv run(1) rtranclp.rtrancl_refl this run(2)] show ?thesis by blast
qed

end
