(* ===== verification/FlushingDict.thy ===== *)
theory FlushingDict
  imports Prelude
begin

text \<open>
  The dictionary of \<^verbatim>\<open>cms/service/flushingdict.py\<close>, in which the evaluation service collects results until they are
  written. A flush is two steps, before and after its callback, so that other calls and other flushes can come in
  between; a batch in flight carries a number that stands for the identity of the Python object. Times are those of the monotonic clock.
\<close>

section \<open>Model\<close>

record ('k, 'v) flushing_dict =
  fl_size :: int
  fl_flush_latency :: timedelta
  fl_max_age :: "timedelta option"
  fl_d :: "('k, 'v) dict"
  fl_flushing :: "(nat \<times> ('k, 'v) dict) list"
  fl_last_insert :: datetime
  fl_oldest_insert :: "datetime option"
  fl_next_batch :: nat

definition fl_init :: "int \<Rightarrow> timedelta \<Rightarrow> timedelta option \<Rightarrow> datetime \<Rightarrow> ('k, 'v) flushing_dict" where
  "fl_init limit flush_latency max_age now =
     \<lparr>fl_size = limit, fl_flush_latency = flush_latency, fl_max_age = max_age, fl_d = [], fl_flushing = [],
      fl_last_insert = now, fl_oldest_insert = None, fl_next_batch = 0\<rparr>"

definition fl_add :: "'k \<Rightarrow> 'v \<Rightarrow> datetime \<Rightarrow> ('k, 'v) flushing_dict \<Rightarrow> ('k, 'v) flushing_dict" where
  "fl_add key val now f =
     f\<lparr>fl_oldest_insert := (if fl_d f = [] then Some now else fl_oldest_insert f),
       fl_d := dict_set key val (fl_d f), fl_last_insert := now\<rparr>"

text \<open>\<^verbatim>\<open>flush\<close> up to the call of the callback, with the batch and the items handed over, and after it.\<close>

definition fl_flush_start :: "('k, 'v) flushing_dict \<Rightarrow> ('k, 'v) flushing_dict \<times> nat \<times> ('k \<times> 'v) list" where
  "fl_flush_start f =
     (let batch = fl_next_batch f
      in (f\<lparr>fl_d := [], fl_oldest_insert := None, fl_flushing := fl_flushing f @ [(batch, fl_d f)],
            fl_next_batch := Suc batch\<rparr>, batch, fl_d f))"

definition fl_flush_end :: "nat \<Rightarrow> ('k, 'v) flushing_dict \<Rightarrow> ('k, 'v) flushing_dict" where
  "fl_flush_end batch f = f\<lparr>fl_flushing := filter (\<lambda>(b, _). b \<noteq> batch) (fl_flushing f)\<rparr>"

definition fl_fd :: "('k, 'v) flushing_dict \<Rightarrow> ('k, 'v) dict" where
  "fl_fd f = foldl (\<lambda>merged (_, batch). foldl (\<lambda>m (k, v). dict_set k v m) merged batch) [] (fl_flushing f)"

definition fl_discard :: "('k \<Rightarrow> bool) \<Rightarrow> ('k, 'v) flushing_dict \<Rightarrow> ('k, 'v) flushing_dict \<times> 'v list" where
  "fl_discard predicate f =
     (let removed = concat (map (\<lambda>mapping. map snd (filter (\<lambda>(k, _). predicate k) mapping)) (fl_d f # map snd (fl_flushing f)));
          d = filter (\<lambda>(k, _). \<not> predicate k) (fl_d f)
      in (f\<lparr>fl_d := d, fl_flushing := map (\<lambda>(b, batch). (b, filter (\<lambda>(k, _). \<not> predicate k) batch)) (fl_flushing f),
            fl_oldest_insert := (if d = [] then None else fl_oldest_insert f)\<rparr>, removed))"

definition fl_contains :: "('k, 'v) flushing_dict \<Rightarrow> 'k \<Rightarrow> bool" where
  "fl_contains f key \<longleftrightarrow> dict_get (fl_d f) key \<noteq> None \<or> list_ex (\<lambda>(_, batch). dict_get batch key \<noteq> None) (fl_flushing f)"

text \<open>The condition on which the loop of \<^verbatim>\<open>_check_flush\<close> flushes.\<close>

definition fl_check_flush :: "datetime \<Rightarrow> ('k, 'v) flushing_dict \<Rightarrow> bool" where
  "fl_check_flush now f \<longleftrightarrow>
     fl_d f \<noteq> [] \<and>
     (fl_size f \<le> int (length (fl_d f)) \<or>
      fl_flush_latency f < now - fl_last_insert f \<or>
      (case (fl_max_age f, fl_oldest_insert f) of
         (Some age, Some oldest) \<Rightarrow> age < now - oldest
       | _ \<Rightarrow> False))"


section \<open>Runs\<close>

text \<open>
  All that can happen to the dictionary, with what was added, handed to the callback, overwritten and discarded so far,
  the time each waiting key came in, and the clock.
\<close>

record ('k, 'v) fl_history =
  fh_added :: "('k \<times> 'v) list"
  fh_handed :: "('k \<times> 'v) list"
  fh_overwritten :: "('k \<times> 'v) list"
  fh_discarded :: "('k \<times> 'v) list"
  fh_since :: "'k \<Rightarrow> datetime"
  fh_now :: datetime

inductive fl_run :: "int \<Rightarrow> timedelta \<Rightarrow> timedelta option \<Rightarrow> ('k, 'v) flushing_dict \<Rightarrow> ('k, 'v) fl_history \<Rightarrow> bool"
  for limit flush_latency max_age where
  fl_start: "fl_run limit flush_latency max_age (fl_init limit flush_latency max_age now)
     \<lparr>fh_added = [], fh_handed = [], fh_overwritten = [], fh_discarded = [], fh_since = (\<lambda>_. now), fh_now = now\<rparr>"
| fl_added: "fl_run limit flush_latency max_age f h \<Longrightarrow> fh_now h \<le> now \<Longrightarrow>
   fl_run limit flush_latency max_age (fl_add k v now f)
     (h\<lparr>fh_added := fh_added h @ [(k, v)],
        fh_overwritten := fh_overwritten h @ (case dict_get (fl_d f) k of None \<Rightarrow> [] | Some v' \<Rightarrow> [(k, v')]),
        fh_since := (if dict_get (fl_d f) k = None then (fh_since h)(k := now) else fh_since h), fh_now := now\<rparr>)"
| fl_flush_started: "fl_run limit flush_latency max_age f h \<Longrightarrow> fl_flush_start f = (f', batch, items) \<Longrightarrow>
   fl_run limit flush_latency max_age f' (h\<lparr>fh_handed := fh_handed h @ items\<rparr>)"
| fl_flush_ended: "fl_run limit flush_latency max_age f h \<Longrightarrow> fl_run limit flush_latency max_age (fl_flush_end batch f) h"
| fl_discarded: "fl_run limit flush_latency max_age f h \<Longrightarrow> fl_discard predicate f = (f', removed) \<Longrightarrow>
   fl_run limit flush_latency max_age f' (h\<lparr>fh_discarded := fh_discarded h @ filter (\<lambda>(k, _). predicate k) (fl_d f)\<rparr>)"
| fl_tick: "fl_run limit flush_latency max_age f h \<Longrightarrow> fh_now h \<le> now \<Longrightarrow> fl_run limit flush_latency max_age f (h\<lparr>fh_now := now\<rparr>)"

definition fl_ok :: "int \<Rightarrow> timedelta \<Rightarrow> timedelta option \<Rightarrow> ('k, 'v) flushing_dict \<Rightarrow> ('k, 'v) fl_history \<Rightarrow> bool" where
  "fl_ok limit flush_latency max_age f h \<longleftrightarrow>
     fl_size f = limit \<and> fl_flush_latency f = flush_latency \<and> fl_max_age f = max_age \<and> dict_ok (fl_d f) \<and>
     mset (fh_added h) = mset (fl_d f) + mset (fh_handed h) + mset (fh_overwritten h) + mset (fh_discarded h) \<and>
     (fl_oldest_insert f = None \<longleftrightarrow> fl_d f = []) \<and>
     (\<forall>k oldest. dict_get (fl_d f) k \<noteq> None \<longrightarrow> fl_oldest_insert f = Some oldest \<longrightarrow> oldest \<le> fh_since h k \<and> fh_since h k \<le> fh_now h) \<and>
     (\<forall>oldest. fl_oldest_insert f = Some oldest \<longrightarrow> oldest \<le> fh_now h) \<and>
     distinct (map fst (fl_flushing f)) \<and> (\<forall>b \<in> set (map fst (fl_flushing f)). b < fl_next_batch f)"

lemma mset_dict_set:
  "dict_ok d \<Longrightarrow> mset (dict_set k v d) + mset (case dict_get d k of None \<Rightarrow> [] | Some v' \<Rightarrow> [(k, v')]) = add_mset (k, v) (mset d)"
  by (induction d) (auto split: option.splits)

lemma dict_get_filter: "dict_get (filter (\<lambda>(k, _). P k) d) x = (if P x then dict_get d x else None)"
  by (induction d) auto

lemma distinct_map_fst_filter: "dict_ok d \<Longrightarrow> dict_ok (filter P d)"
  by (induction d) auto


text \<open>Everything under a key that is discarded is returned, batches in flight included.\<close>

lemma fl_discard_removed:
  assumes "(k, v) \<in> set (fl_d f) \<union> (\<Union>(_, batch) \<in> set (fl_flushing f). set batch)" "predicate k"
  shows "v \<in> set (snd (fl_discard predicate f))"
proof -
  let ?mappings = "fl_d f # map snd (fl_flushing f)" and ?removed = "\<lambda>mapping. map snd (filter (\<lambda>(k, _). predicate k) mapping)"
  obtain mapping where m: "mapping \<in> set ?mappings" "(k, v) \<in> set mapping" using assms(1) by auto (metis image_eqI snd_conv)
  have "(k, v) \<in> set (filter (\<lambda>(k, _). predicate k) mapping)" using m(2) assms(2) by simp
  then have "snd (k, v) \<in> snd ` set (filter (\<lambda>(k, _). predicate k) mapping)" by (rule imageI)
  then have "v \<in> set (?removed mapping)" by simp
  moreover have "?removed mapping \<in> set (map ?removed ?mappings)" unfolding set_map by (rule imageI [OF m(1)])
  ultimately have "v \<in> set (concat (map ?removed ?mappings))" by (metis UN_I set_concat)
  then show ?thesis by (simp only: fl_discard_def Let_def snd_conv)
qed

text \<open>How each operation moves the invariant.\<close>

lemma fl_ok_add:
  assumes "fl_ok limit flush_latency max_age f h" "fh_now h \<le> now"
  shows "fl_ok limit flush_latency max_age (fl_add k v now f)
     (h\<lparr>fh_added := fh_added h @ [(k, v)],
        fh_overwritten := fh_overwritten h @ (case dict_get (fl_d f) k of None \<Rightarrow> [] | Some v' \<Rightarrow> [(k, v')]),
        fh_since := (if dict_get (fl_d f) k = None then (fh_since h)(k := now) else fh_since h), fh_now := now\<rparr>)"
    (is "fl_ok _ _ _ ?f ?h")
proof -
  let ?old = "case dict_get (fl_d f) k of None \<Rightarrow> [] | Some v' \<Rightarrow> [(k, v')]"
  have ok: "dict_ok (fl_d f)"
    and sum: "mset (fh_added h) = mset (fl_d f) + mset (fh_handed h) + mset (fh_overwritten h) + mset (fh_discarded h)"
    and none: "fl_oldest_insert f = None \<longleftrightarrow> fl_d f = []"
    and since: "\<And>x oldest. dict_get (fl_d f) x \<noteq> None \<Longrightarrow> fl_oldest_insert f = Some oldest \<Longrightarrow>
      oldest \<le> fh_since h x \<and> fh_since h x \<le> fh_now h"
    and oldest: "\<And>t. fl_oldest_insert f = Some t \<Longrightarrow> t \<le> fh_now h"
    using assms(1) by (auto simp: fl_ok_def)
  have "mset (fh_added ?h) = mset (fl_d ?f) + mset (fh_handed ?h) + mset (fh_overwritten ?h) + mset (fh_discarded ?h)"
    using mset_dict_set [OF ok, of k v] sum by (simp add: fl_add_def)
  moreover have "t \<le> fh_since ?h x \<and> fh_since ?h x \<le> fh_now ?h" if "dict_get (fl_d ?f) x \<noteq> None" "fl_oldest_insert ?f = Some t" for x t
  proof (cases "fl_d f = []")
    case True
    then show ?thesis using that by (auto simp: fl_add_def split: if_splits)
  next
    case False
    then have t: "fl_oldest_insert f = Some t" using that(2) by (simp add: fl_add_def)
    show ?thesis
    proof (cases "x = k \<and> dict_get (fl_d f) k = None")
      case True
      then show ?thesis using oldest [OF t] assms(2) by simp
    next
      case False
      then have "dict_get (fl_d f) x \<noteq> None" using that(1) by (auto simp: fl_add_def dict_get_set split: if_splits)
      then show ?thesis using since [OF _ t, of x] assms(2) False by auto
    qed
  qed
  moreover have "t \<le> fh_now ?h" if "fl_oldest_insert ?f = Some t" for t
    using that oldest assms(2) by (fastforce simp: fl_add_def split: if_splits)
  moreover have "fl_oldest_insert ?f = None \<longleftrightarrow> fl_d ?f = []" using none by (auto simp: fl_add_def)
  ultimately show ?thesis using assms(1) by (simp add: fl_ok_def fl_add_def)
qed

lemma fl_ok_discard:
  assumes "fl_ok limit flush_latency max_age f h" "fl_discard predicate f = (f', removed)"
  shows "fl_ok limit flush_latency max_age f' (h\<lparr>fh_discarded := fh_discarded h @ filter (\<lambda>(k, _). predicate k) (fl_d f)\<rparr>)"
proof -
  have f': "f' = f\<lparr>fl_d := filter (\<lambda>(k, _). \<not> predicate k) (fl_d f),
      fl_flushing := map (\<lambda>(b, batch). (b, filter (\<lambda>(k, _). \<not> predicate k) batch)) (fl_flushing f),
      fl_oldest_insert := (if filter (\<lambda>(k, _). \<not> predicate k) (fl_d f) = [] then None else fl_oldest_insert f)\<rparr>"
    using assms(2) by (auto simp: fl_discard_def Let_def)
  have part: "mset (fl_d f) = mset (filter (\<lambda>(k, _). \<not> predicate k) (fl_d f)) + mset (filter (\<lambda>(k, _). predicate k) (fl_d f))"
    using multiset_partition [of "mset (fl_d f)" "\<lambda>(k, _). \<not> predicate k"] by (simp add: case_prod_unfold)
  have batches: "map fst (fl_flushing f') = map fst (fl_flushing f)" by (simp add: f' case_prod_unfold comp_def)
  have none: "fl_oldest_insert f' = None \<longleftrightarrow> fl_d f' = []" using assms(1) by (auto simp: f' fl_ok_def)
  have sum: "mset (fh_added h) = mset (fl_d f') + mset (fh_handed h) + mset (fh_overwritten h) +
      mset (fh_discarded h @ filter (\<lambda>(k, _). predicate k) (fl_d f))"
  proof -
    obtain kept gone where "mset (filter (\<lambda>(k, _). \<not> predicate k) (fl_d f)) = kept" "mset (filter (\<lambda>(k, _). predicate k) (fl_d f)) = gone"
      "mset (fl_d f) = kept + gone" using part by blast
    then show ?thesis using assms(1) by (simp add: f' fl_ok_def ac_simps del: mset_filter)
  qed
  have oldest: "fl_oldest_insert f = Some t" if "fl_oldest_insert f' = Some t" for t
    using that by (simp add: f' split: if_splits)
  have "dict_get (fl_d f) x \<noteq> None" if "dict_get (fl_d f') x \<noteq> None" for x
    using that by (auto simp: f' dict_get_filter split: if_splits)
  then have since: "t \<le> fh_since h x \<and> fh_since h x \<le> fh_now h"
    if "dict_get (fl_d f') x \<noteq> None" "fl_oldest_insert f' = Some t" for x t
    using assms(1) oldest that unfolding fl_ok_def by blast
  have now: "t \<le> fh_now h" if "fl_oldest_insert f' = Some t" for t
    using assms(1) oldest [OF that] unfolding fl_ok_def by blast
  have rest: "dict_ok (fl_d f')" "fl_size f' = limit" "fl_flush_latency f' = flush_latency" "fl_max_age f' = max_age"
    "distinct (map fst (fl_flushing f))" "\<forall>b \<in> set (map fst (fl_flushing f)). b < fl_next_batch f'"
    using assms(1) by (simp_all add: f' fl_ok_def distinct_map_fst_filter)
  show ?thesis unfolding fl_ok_def batches using none sum since now rest by simp
qed

lemma fl_run_ok: "fl_run limit flush_latency max_age f h \<Longrightarrow> fl_ok limit flush_latency max_age f h"
proof (induction rule: fl_run.induct)
  case (fl_flush_started f h f' batch items)
  then have "f' = f\<lparr>fl_d := [], fl_oldest_insert := None, fl_flushing := fl_flushing f @ [(fl_next_batch f, fl_d f)],
      fl_next_batch := Suc (fl_next_batch f)\<rparr>" "items = fl_d f"
    by (auto simp: fl_flush_start_def Let_def)
  then show ?case using fl_flush_started.IH by (auto simp: fl_ok_def less_SucI)
next
  case (fl_flush_ended f h batch)
  then show ?case by (auto simp: fl_ok_def fl_flush_end_def distinct_map_fst_filter)
next
  case (fl_tick f h now)
  then show ?case by (auto simp: fl_ok_def) force+
next
  case (fl_added f h now k v)
  then show ?case by (intro fl_ok_add)
next
  case (fl_discarded f h predicate f' removed)
  then show ?case by (intro fl_ok_discard)
qed (simp add: fl_ok_def fl_init_def)


section \<open>Properties\<close>

text \<open>
  C33. No result is lost and none is handed on twice: whatever adds, flushes (overlapping ones included) and discards come in
  whatever order, every key and value added is exactly one of these: still waiting, handed to the callback, overwritten by a
  newer value of its key while it waited, or discarded while it waited. And no entry waits longer than the maximum age: once it does, the condition to
  flush holds.
\<close>

theorem flushing_dict_conserves:
  assumes "fl_run limit flush_latency max_age f h"
  shows "mset (fh_added h) = mset (fl_d f) + mset (fh_handed h) + mset (fh_overwritten h) + mset (fh_discarded h) \<and>
    (\<forall>k age. dict_get (fl_d f) k \<noteq> None \<longrightarrow> max_age = Some age \<longrightarrow> age < fh_now h - fh_since h k \<longrightarrow> fl_check_flush (fh_now h) f)"
proof -
  have ok: "fl_ok limit flush_latency max_age f h" by (rule fl_run_ok [OF assms])
  moreover have "fl_check_flush (fh_now h) f"
    if late: "dict_get (fl_d f) k \<noteq> None" "max_age = Some age" "age < fh_now h - fh_since h k" for k age
  proof -
    have d: "fl_d f \<noteq> []" using late(1) by auto
    then obtain oldest where oldest: "fl_oldest_insert f = Some oldest" using ok by (auto simp: fl_ok_def)
    then have "oldest \<le> fh_since h k" "fl_max_age f = Some age" using ok late(1,2) by (auto simp: fl_ok_def)
    then show ?thesis using late(3) d oldest by (simp add: fl_check_flush_def)
  qed
  ultimately show ?thesis by (simp add: fl_ok_def)
qed

definition flushing_sample :: "(string, nat) flushing_dict" where
  "flushing_sample = fl_add ''a'' 2 7 (fl_add ''a'' 1 5 (fl_init 100 10 (Some 3) 0))"

theorem flushing_dict_conserves_witness: "fl_check_flush 9 flushing_sample"
proof -
  have "fl_run 100 10 (Some 3) flushing_sample
      \<lparr>fh_added = [(''a'', 1), (''a'', 2)], fh_handed = [], fh_overwritten = [(''a'', 1)], fh_discarded = [],
       fh_since = (\<lambda>_. 0)(''a'' := 5), fh_now = 7\<rparr>"
    unfolding flushing_sample_def
    using fl_added [OF fl_added [OF fl_start [of 100 10 "Some 3" 0], of 5 "''a''" "1 :: nat"], of 7 "''a''" 2]
    by (simp add: fl_init_def fl_add_def)
  from flushing_dict_conserves [OF fl_tick [OF this, of 9]] show ?thesis by (simp add: flushing_sample_def fl_add_def fl_init_def)
qed

end
