(* ===== verification/EvaluationQueue.thy ===== *)
theory EvaluationQueue
  imports WorkerPool AsyncPriorityQueue FlushingDict
begin

text \<open>
  How the evaluation service hands operations around, from \<^verbatim>\<open>cms/service/EvaluationService.py\<close>: the executor with its queue
  and the operations it has extracted, the pool of workers, the cache of results, and the bookkeeping by which threads that
  hold \<^verbatim>\<open>post_finish_lock\<close> have the event loop push and remove operations. A section (the outermost call that holds the
  lock) runs on a thread while the event loop goes on, so the steps of both are interleaved. The checks of one call of
  \<^verbatim>\<open>_enqueue_sync\<close> are one step; the extraction of a batch, between the queue and \<^verbatim>\<open>execute\<close>, is several. The
  database, the notifications of the scoring service and the start-up before the event loop runs are left out, and so is \<^verbatim>\<open>side_data\<close>, by which lost operations
  get their priority and time again: a request to enqueue may come with any.
\<close>

section \<open>The executor\<close>

text \<open>One entry of \<^verbatim>\<open>queue_status_cumulative\<close>; its multiplicity is kept apart from the rest of the item.\<close>

record queue_summary =
  qs_item :: "(string \<times> json) list"
  qs_multiplicity :: int
  qs_priority :: int
  qs_timestamp :: rat

type_synonym summary_key = "string \<times> nat \<times> nat \<times> int"

text \<open>The executor; \<open>ex_extracted\<close> and \<open>ex_batch_limit\<close> are the local variables of the loop of \<^verbatim>\<open>run\<close>.\<close>

record es_executor =
  ex_queue :: "es_operation async_queue"
  ex_extracted :: "es_operation queue_entry list"
  ex_batch_limit :: nat
  ex_currently_executing :: "es_operation list"
  ex_pool :: worker_pool
  ex_cumulative :: "(summary_key, queue_summary) dict"

definition MAX_OPERATIONS_PER_BATCH :: nat where "MAX_OPERATIONS_PER_BATCH = 25"

definition executor_contains :: "es_executor \<Rightarrow> es_operation \<Rightarrow> bool" where
  "executor_contains x item \<longleftrightarrow>
     aq_contains (ex_queue x) item \<or> item \<in> set (ex_currently_executing x) \<or> pool_contains (ex_pool x) item"

definition max_operations_per_batch :: "es_executor \<Rightarrow> nat" where
  "max_operations_per_batch x =
     (if wp_workers (ex_pool x) = [] then 1
      else let ratio = aq_length (ex_queue x) div length (wp_workers (ex_pool x)) + 1
           in min (max ratio 1) MAX_OPERATIONS_PER_BATCH)"

text \<open>The key of a summary: \<^verbatim>\<open>short_key\<close> with the priority; the numbers stand for their decimal strings.\<close>

definition summary_key_of :: "es_operation \<Rightarrow> int \<Rightarrow> summary_key" where
  "summary_key_of item priority = (op_type item, op_object_id item, op_dataset_id item, priority)"

definition executor_enqueue :: "es_operation \<Rightarrow> int \<Rightarrow> datetime \<Rightarrow> es_executor \<Rightarrow> es_executor \<times> bool" where
  "executor_enqueue item priority timestamp x =
     (let (q, success) = aq_push (ex_queue x) item (Some priority) (Some timestamp) timestamp;
          x1 = x\<lparr>ex_queue := q\<rparr>;
          key = summary_key_of item priority
      in if success then
           (x1\<lparr>ex_cumulative :=
             (case dict_get (ex_cumulative x1) key of
                Some s \<Rightarrow> dict_set key (s\<lparr>qs_multiplicity := qs_multiplicity s + 1\<rparr>) (ex_cumulative x1)
              | None \<Rightarrow> dict_set key
                  \<lparr>qs_item = dict_del ''testcase_codename'' (op_to_dict item), qs_multiplicity = 1, qs_priority = priority,
                   qs_timestamp = of_int timestamp / 1000000\<rparr> (ex_cumulative x1))\<rparr>, True)
         else (x1, False))"

definition remove_from_cumulative_status :: "es_operation queue_entry \<Rightarrow> es_executor \<Rightarrow> es_executor res" where
  "remove_from_cumulative_status e x =
     (let key = summary_key_of (qe_item e) (qe_priority e) in
      case dict_get (ex_cumulative x) key of
        None \<Rightarrow> Inl KeyError
      | Some s \<Rightarrow>
          let s' = s\<lparr>qs_multiplicity := qs_multiplicity s - 1\<rparr>
          in Inr (x\<lparr>ex_cumulative :=
               (if qs_multiplicity s' = 0 then dict_del key (ex_cumulative x) else dict_set key s' (ex_cumulative x))\<rparr>))"

text \<open>\<^verbatim>\<open>dequeue\<close>; the operation may already be extracted.\<close>

definition drop_executing :: "es_operation \<Rightarrow> es_executor \<Rightarrow> es_executor \<times> unit res" where
  "drop_executing operation x =
     (if operation \<in> set (ex_currently_executing x)
      then (x\<lparr>ex_currently_executing := remove1 operation (ex_currently_executing x)\<rparr>, Inr ())
      else (x, Inl KeyError))"

definition executor_dequeue :: "es_operation \<Rightarrow> es_executor \<Rightarrow> es_executor \<times> unit res" where
  "executor_dequeue operation x =
     (case aq_remove (ex_queue x) operation of
        Inl e \<Rightarrow> if e = KeyError then drop_executing operation x else (x, Inl e)
      | Inr (q, entry) \<Rightarrow>
          (case remove_from_cumulative_status entry (x\<lparr>ex_queue := q\<rparr>) of
             Inl _ \<Rightarrow> drop_executing operation (x\<lparr>ex_queue := q\<rparr>)
           | Inr x' \<Rightarrow> (x', Inr ())))"

text \<open>\<^verbatim>\<open>_pop\<close>, which waits (\<open>Inr None\<close>) if it may and the queue is empty.\<close>

definition executor_pop :: "bool \<Rightarrow> es_executor \<Rightarrow> (es_executor \<times> es_operation queue_entry) option res" where
  "executor_pop wait x =
     (case aq_pop (ex_queue x) wait of
        Inl e \<Rightarrow> Inl e
      | Inr None \<Rightarrow> Inr None
      | Inr (Some (q, entry)) \<Rightarrow>
          res_bind (remove_from_cumulative_status entry (x\<lparr>ex_queue := q\<rparr>)) (\<lambda>x'. Inr (Some (x', entry))))"

text \<open>
  The loop of \<^verbatim>\<open>run\<close> with the first part of \<^verbatim>\<open>execute\<close>, one step at a time: the first operation is awaited, more are taken while
  there are any and the batch is not full, and then they are being executed.
\<close>

definition run_step :: "es_executor \<Rightarrow> es_executor option res" where
  "run_step x =
     (if ex_extracted x = [] then
        res_bind (executor_pop True x) (\<lambda>r.
          Inr (map_option (\<lambda>(x', entry). x'\<lparr>ex_extracted := [entry], ex_batch_limit := max_operations_per_batch x'\<rparr>) r))
      else if \<not> aq_empty (ex_queue x) \<and> (ex_batch_limit x = 0 \<or> length (ex_extracted x) < ex_batch_limit x) then
        res_bind (executor_pop False x) (\<lambda>r.
          Inr (map_option (\<lambda>(x', entry). x'\<lparr>ex_extracted := ex_extracted x' @ [entry]\<rparr>) r))
      else Inr (Some (x\<lparr>ex_currently_executing := map qe_item (ex_extracted x), ex_extracted := []\<rparr>)))"

text \<open>The rest of \<^verbatim>\<open>execute\<close>: one round of its loop, when workers may be free.\<close>

definition execute_round :: "nat \<Rightarrow> datetime \<Rightarrow> es_executor \<Rightarrow> es_executor res" where
  "execute_round draw now x =
     (if ex_currently_executing x = [] then Inr x
      else res_bind (acquire_worker (ex_currently_executing x) draw now (ex_pool x)) (\<lambda>(p, r).
        let x' = x\<lparr>ex_pool := p\<rparr>
        in Inr (if r \<noteq> None then x'\<lparr>ex_currently_executing := []\<rparr> else x')))"

definition queue_status :: "es_executor \<Rightarrow> queue_summary list" where
  "queue_status x = sort_key (\<lambda>s. (qs_priority s, qs_timestamp s)) (map snd (ex_cumulative x))"


section \<open>The service\<close>

text \<open>A result of a worker; \<open>wr_id\<close> stands for the identity of the Python object.\<close>

record worker_result =
  wr_id :: nat
  wr_job_success :: bool

datatype loop_action = PushAction es_operation int datetime | DequeueAction es_operation

datatype action_kind = Push | Dequeue

text \<open>
  The service: the executor, the cache of results, the actions buffered by the section and those handed to the event loop, how
  many calls hold the lock, what the section has dequeued, what is pending, and the results marked as discarded.
\<close>

record es_service =
  sv_executor :: es_executor
  sv_result_cache :: "(es_operation, worker_result) flushing_dict"
  sv_loop_actions :: "loop_action list"
  sv_handed :: "loop_action list"
  sv_post_finish_depth :: nat
  sv_dequeued_in_section :: "es_operation list"
  sv_pending_operations :: "(es_operation, action_kind \<times> nat) dict"
  sv_discarded :: "nat list"

text \<open>
  The service when it starts: results are flushed at 100, after two seconds of quiet, or when one is a second old. The workers of the configuration are
  added one by one as steps of the pool.
\<close>

definition es_init :: es_service where
  "es_init =
     \<lparr>sv_executor = \<lparr>ex_queue = aq_init, ex_extracted = [], ex_batch_limit = 0, ex_currently_executing = [], ex_pool = pool_init,
        ex_cumulative = []\<rparr>,
      sv_result_cache = fl_init 100 2000000 (Some 1000000) 0, sv_loop_actions = [], sv_handed = [], sv_post_finish_depth = 0,
      sv_dequeued_in_section = [], sv_pending_operations = [], sv_discarded = []\<rparr>"

definition record_pending :: "es_operation \<Rightarrow> action_kind \<Rightarrow> es_service \<Rightarrow> es_service" where
  "record_pending operation action sv =
     (let n = (case dict_get (sv_pending_operations sv) operation of None \<Rightarrow> 0 | Some (_, n) \<Rightarrow> n)
      in sv\<lparr>sv_pending_operations := dict_set operation (action, n + 1) (sv_pending_operations sv)\<rparr>)"

definition clear_pending_one :: "es_operation \<Rightarrow> es_service \<Rightarrow> es_service" where
  "clear_pending_one operation sv =
     (case dict_get (sv_pending_operations sv) operation of
        Some (action, n) \<Rightarrow>
          if n \<le> 1 then sv\<lparr>sv_pending_operations := dict_del operation (sv_pending_operations sv)\<rparr>
          else sv\<lparr>sv_pending_operations := dict_set operation (action, n - 1) (sv_pending_operations sv)\<rparr>
      | None \<Rightarrow> sv)"

definition flush_loop_actions :: "es_service \<Rightarrow> es_service" where
  "flush_loop_actions sv = sv\<lparr>sv_handed := sv_handed sv @ sv_loop_actions sv, sv_loop_actions := []\<rparr>"

definition schedule_loop_action :: "loop_action \<Rightarrow> bool \<Rightarrow> es_service \<Rightarrow> es_service" where
  "schedule_loop_action action flush_now sv =
     (let sv1 = sv\<lparr>sv_loop_actions := sv_loop_actions sv @ [action]\<rparr>
      in if flush_now then flush_loop_actions sv1 else sv1)"

definition push_to_queue :: "es_operation \<Rightarrow> int \<Rightarrow> datetime \<Rightarrow> es_service \<Rightarrow> es_service" where
  "push_to_queue operation priority timestamp sv = schedule_loop_action (PushAction operation priority timestamp) False sv"

definition enqueue_sync :: "es_operation \<Rightarrow> int \<Rightarrow> datetime \<Rightarrow> es_service \<Rightarrow> es_service \<times> bool" where
  "enqueue_sync operation priority timestamp sv =
     (let pending_action = map_option fst (dict_get (sv_pending_operations sv) operation);
          dequeued = (pending_action = Some Dequeue \<or> operation \<in> set (sv_dequeued_in_section sv))
      in if pending_action = Some Push then (sv, False)
         else if \<not> dequeued \<and> executor_contains (sv_executor sv) operation then (sv, False)
         else if fl_contains (sv_result_cache sv) operation then (sv, False)
         else (push_to_queue operation priority timestamp (record_pending operation Push sv), True))"

text \<open>\<^verbatim>\<open>pool.ignore_operation\<close> where the caller takes a missing operation for granted.\<close>

definition ignore_if_present :: "es_operation \<Rightarrow> es_executor \<Rightarrow> es_executor" where
  "ignore_if_present operation x =
     (case ignore_operation operation (ex_pool x) of Inl _ \<Rightarrow> x | Inr p \<Rightarrow> x\<lparr>ex_pool := p\<rparr>)"

definition threadsafe_dequeue_and_ignore :: "es_operation \<Rightarrow> es_service \<Rightarrow> es_service" where
  "threadsafe_dequeue_and_ignore operation sv =
     (let sv1 = record_pending operation Dequeue sv;
          sv2 = sv1\<lparr>sv_dequeued_in_section := List.insert operation (sv_dequeued_in_section sv1)\<rparr>;
          sv3 = schedule_loop_action (DequeueAction operation) True sv2
      in sv3\<lparr>sv_executor := ignore_if_present operation (sv_executor sv3)\<rparr>)"

text \<open>The bodies of the two loop actions; exceptions are swallowed or logged, and the pending mark is cleared last.\<close>

fun apply_loop_action :: "loop_action \<Rightarrow> es_service \<Rightarrow> es_service" where
  "apply_loop_action (PushAction operation priority timestamp) sv =
     clear_pending_one operation (sv\<lparr>sv_executor := fst (executor_enqueue operation priority timestamp (sv_executor sv))\<rparr>)"
| "apply_loop_action (DequeueAction operation) sv =
     clear_pending_one operation
       (sv\<lparr>sv_executor := ignore_if_present operation (fst (executor_dequeue operation (sv_executor sv)))\<rparr>)"

definition run_loop_actions :: "loop_action list \<Rightarrow> es_service \<Rightarrow> es_service" where
  "run_loop_actions actions sv = foldl (\<lambda>sv action. apply_loop_action action sv) sv actions"

text \<open>\<^verbatim>\<open>with_post_finish_lock\<close>, before and after the function.\<close>

definition enter_section :: "es_service \<Rightarrow> es_service" where
  "enter_section sv = sv\<lparr>sv_post_finish_depth := sv_post_finish_depth sv + 1\<rparr>"

definition leave_section :: "es_service \<Rightarrow> es_service" where
  "leave_section sv =
     (let sv1 = sv\<lparr>sv_post_finish_depth := sv_post_finish_depth sv - 1\<rparr>
      in if sv_post_finish_depth sv1 = 0 then flush_loop_actions (sv1\<lparr>sv_dequeued_in_section := []\<rparr>) else sv1)"

text \<open>\<^verbatim>\<open>_action_finished_sync\<close>; \<open>jobs\<close> are the jobs that the worker sent, or nothing if there was an error.\<close>

definition add_results :: "es_operation list \<Rightarrow> (es_operation \<times> worker_result) list \<Rightarrow> datetime \<Rightarrow> es_service \<Rightarrow> es_service" where
  "add_results to_ignore jobs now sv =
     sv\<lparr>sv_result_cache :=
       foldl (\<lambda>cache (operation, result). if operation \<in> set to_ignore then cache else fl_add operation result now cache)
         (sv_result_cache sv) jobs\<rparr>"

definition action_finished_sync :: "(es_operation \<times> worker_result) list option \<Rightarrow> nat \<Rightarrow> nat option \<Rightarrow> datetime \<Rightarrow> es_service \<Rightarrow> es_service res" where
  "action_finished_sync jobs shard dispatch_id now sv =
     res_bind (release_worker shard dispatch_id (ex_pool (sv_executor sv))) (\<lambda>(p, to_ignore).
       let sv1 = sv\<lparr>sv_executor := (sv_executor sv)\<lparr>ex_pool := p\<rparr>\<rparr> in
       Inr (case (to_ignore, jobs) of
              (IgnoreResult True, _) \<Rightarrow> sv1
            | (_, None) \<Rightarrow> sv1
            | (IgnoreResult False, Some js) \<Rightarrow> add_results [] js now sv1
            | (IgnoreOperations ops, Some js) \<Rightarrow> add_results ops js now sv1))"

definition operation_key :: "es_operation \<Rightarrow> string \<times> nat \<times> nat \<times> string option" where
  "operation_key operation = (op_type operation, op_object_id operation, op_dataset_id operation, op_testcase_codename operation)"

definition discard_cached_results :: "es_operation list \<Rightarrow> es_service \<Rightarrow> es_service" where
  "discard_cached_results operations sv =
     (let keys = map operation_key operations;
          (cache, discarded) = fl_discard (\<lambda>cached. operation_key cached \<in> set keys) (sv_result_cache sv)
      in sv\<lparr>sv_result_cache := cache, sv_discarded := sv_discarded sv @ map wr_id discarded\<rparr>)"

text \<open>The first part of \<^verbatim>\<open>_write_results_sync\<close>: what of a batch is written, grouped by object and type.\<close>

definition results_to_write :: "es_service \<Rightarrow> (es_operation \<times> worker_result) list \<Rightarrow> (es_operation \<times> worker_result) list" where
  "results_to_write sv items = filter (\<lambda>(_, result). wr_id result \<notin> set (sv_discarded sv)) items"

type_synonym object_key = "string \<times> nat \<times> nat \<times> bool"

definition object_key :: "es_operation \<Rightarrow> object_key" where
  "object_key operation = (op_type operation, op_object_id operation, op_dataset_id operation, op_archive_sandbox operation)"

definition by_object_and_type :: "(es_operation \<times> worker_result) list \<Rightarrow> (object_key, (es_operation \<times> worker_result) list) dict" where
  "by_object_and_type items =
     foldl (\<lambda>groups (operation, result).
       let t = object_key operation
       in dict_set t ((case dict_get groups t of None \<Rightarrow> [] | Some g \<Rightarrow> g) @ [(operation, result)]) groups) [] items"


section \<open>The pool seen from outside\<close>

text \<open>A change of the pool after which no worker works on anything new.\<close>

definition pool_shrinks :: "worker_pool \<Rightarrow> worker_pool \<Rightarrow> bool" where
  "pool_shrinks p p' \<longleftrightarrow> (\<forall>op. pool_works_on p' op \<longrightarrow> pool_works_on p op)"

lemma pool_shrinks_workers:
  assumes "\<And>s w' op. worker_at p' s = Some w' \<Longrightarrow> works_on w' op \<Longrightarrow> \<exists>w. worker_at p s = Some w \<and> works_on w op"
  shows "pool_shrinks p p'"
  using assms unfolding pool_shrinks_def pool_works_on_def by blast

lemma pool_shrinks_set:
  assumes "worker_at p s = Some w" "\<And>op. works_on w' op \<Longrightarrow> works_on w op"
  shows "pool_shrinks p (set_worker s w' p)"
  using assms by (intro pool_shrinks_workers) (auto split: if_splits)

lemma pool_shrinks_upd:
  "worker_at p' = (worker_at p)(s \<mapsto> w') \<Longrightarrow> worker_at p s = Some w \<Longrightarrow> (\<And>op. works_on w' op \<Longrightarrow> works_on w op) \<Longrightarrow> pool_shrinks p p'"
  by (intro pool_shrinks_workers) (auto split: if_splits)

lemma pool_shrinks_frame [simp]:
  "pool_shrinks p (p'\<lparr>wp_workers_available := a\<rparr>) = pool_shrinks p p'"
  "pool_shrinks p (p'\<lparr>wp_spawned := z\<rparr>) = pool_shrinks p p'"
  "pool_shrinks p p"
  by (simp_all add: pool_shrinks_def pool_works_on_def)

lemma pool_shrinks_trans: "pool_shrinks p q \<Longrightarrow> pool_shrinks q r \<Longrightarrow> pool_shrinks p r"
  by (simp add: pool_shrinks_def)

lemma works_on_released [simp]: "\<not> works_on (released w) op"
  by (simp add: works_on_def released_def)

lemma works_on_keep:
  "w_operations w' = w_operations w \<Longrightarrow> w_operations_to_ignore w' = w_operations_to_ignore w \<Longrightarrow> works_on w' = works_on w"
  by (simp add: works_on_def fun_eq_iff)

lemma works_on_free: "ops_of (w_operations w) = [] \<Longrightarrow> \<not> works_on w op"
  by (simp add: works_on_def)

text \<open>All steps of the pool but the assignment of operations.\<close>

inductive pool_quiet :: "worker_pool \<Rightarrow> worker_pool \<Rightarrow> bool" where
  "worker_at p s = None \<Longrightarrow> pool_quiet p (add_worker s up p)"
| "on_worker_connected contest_id s p = Inr p' \<Longrightarrow> pool_quiet p p'"
| "on_worker_disconnected s p = Inr p' \<Longrightarrow> pool_quiet p p'"
| "pool_quiet p (mark_answered s d now p)"
| "pool_quiet p (set_timeout s d jobs c t now p)"
| "release_worker s d p = Inr (p', r) \<Longrightarrow> pool_quiet p p'"
| "check_timeouts now p = Inr (p', lost) \<Longrightarrow> pool_quiet p p'"
| "pool_quiet p (fst (disable_worker s p))"
| "enable_worker s p = Inr p' \<Longrightarrow> pool_quiet p p'"
| "check_connections p = Inr (p', lost) \<Longrightarrow> pool_quiet p p'"

lemma pool_quiet_step: "pool_quiet p p' \<Longrightarrow> pool_step p p'"
  by (induction rule: pool_quiet.induct) (auto intro: pool_step.intros)

lemma release_shrinks:
  assumes "release_worker s d p = Inr (p', r)"
  shows "pool_shrinks p p'"
proof -
  have "p' = p \<or> (\<exists>w ops. worker_at p s = Some w \<and> w_operations w = Busy ops \<and> (d = None \<or> d = w_current_dispatch w))"
  proof (cases "d \<noteq> None \<and> d \<noteq> current_dispatch p s")
    case False
    then show ?thesis using assms
      by (cases "worker_at p s"; cases "w_operations (the (worker_at p s))")
        (auto simp: release_worker_def lookup_def current_dispatch_def)
  qed (use assms in \<open>auto simp: release_worker_def\<close>)
  then consider "p' = p"
    | w ops where "worker_at p s = Some w" "w_operations w = Busy ops" "d = None \<or> d = w_current_dispatch w"
    by blast
  then show ?thesis
  proof cases
    case (2 w ops)
    have "worker_at p' = (worker_at p)(s \<mapsto> released w)" using release_busy [OF 2] assms by auto
    then show ?thesis using 2(1) by (rule pool_shrinks_upd) simp
  qed simp
qed

lemma enable_shrinks: "enable_worker s p = Inr p' \<Longrightarrow> pool_shrinks p p'"
  by (auto simp: enable_worker_def lookup_def works_on_def split: option.splits if_splits intro!: pool_shrinks_set)

lemma connected_shrinks:
  assumes "on_worker_connected contest_id s p = Inr p'"
  shows "pool_shrinks p p'"
proof -
  obtain w p2 where w: "worker_at p s = Some w"
    and p2: "(if w_operations w = WORKER_DISABLED \<and> w_disabled_by_timeout w
        then enable_worker s (set_worker s (w\<lparr>w_connected := True\<rparr>) p) else Inr (set_worker s (w\<lparr>w_connected := True\<rparr>) p)) = Inr p2"
    and p': "p' = p2\<lparr>wp_spawned := (if contest_id \<noteq> None then wp_spawned p2 @ [PrecacheFiles s] else wp_spawned p2),
        wp_workers_available := True\<rparr>"
    using assms by (auto simp: on_worker_connected_def lookup_def Let_def split: option.splits)
  have "pool_shrinks p (set_worker s (w\<lparr>w_connected := True\<rparr>) p)"
    using w by (rule pool_shrinks_set) (simp add: works_on_def)
  moreover have "pool_shrinks (set_worker s (w\<lparr>w_connected := True\<rparr>) p) p2"
    using p2 enable_shrinks by (auto split: if_splits)
  ultimately show ?thesis using pool_shrinks_trans by (simp add: p')
qed

lemma disable_shrinks: "pool_shrinks p (fst (disable_worker s p))"
proof (cases "worker_at p s")
  case (Some w)
  let ?w = "w\<lparr>w_disabled_by_timeout := False, w_disabled_at := None\<rparr>"
  have keep: "pool_shrinks p (set_worker s ?w p)" using Some by (rule pool_shrinks_set) (simp add: works_on_def)
  show ?thesis
  proof (cases "w_operations w")
    case (Busy ops)
    let ?w1 = "?w\<lparr>w_schedule_disabling := True, w_operations_to_ignore := [], w_ignore := True\<rparr>"
    obtain p' where "release_worker s None (set_worker s ?w1 p) = Inr (p', release_answer ?w1)"
      "worker_at p' = (worker_at (set_worker s ?w1 p))(s \<mapsto> released ?w1)"
      using release_busy [of "set_worker s ?w1 p" s ?w1 ops None] Busy by auto
    then show ?thesis
      using Some Busy by (auto simp: disable_worker_def Let_def set_worker_twice intro!: pool_shrinks_upd)
  qed (use Some keep in \<open>auto simp: disable_worker_def Let_def set_worker_twice works_on_def intro!: pool_shrinks_set\<close>)
qed (simp add: disable_worker_def)

lemma pool_quiet_shrinks:
  assumes "pool_quiet p p'" "pool_ok p"
  shows "pool_shrinks p p'"
  using assms
proof (induction rule: pool_quiet.induct)
  case (1 p s up)
  then show ?case by (intro pool_shrinks_workers) (auto simp: add_worker_def works_on_def split: if_splits)
next
  case (3 s p p')
  then show ?case
    by (auto simp: on_worker_disconnected_def lookup_def works_on_def split: option.splits intro!: pool_shrinks_set)
next
  case (4 p s d now)
  then show ?case by (auto simp: mark_answered_def works_on_def split: option.splits intro!: pool_shrinks_set)
next
  case (5 p s d jobs c t now)
  then show ?case by (auto simp: set_timeout_def works_on_def split: option.splits intro!: pool_shrinks_set)
next
  case (7 now p p' lost)
  then have "worker_at p' = map_option (\<lambda>w. if expired now w then timed_out now w else w) \<circ> worker_at p"
    using check_timeouts_ok [of p now] by auto
  then show ?case by (intro pool_shrinks_workers) (auto simp: timed_out_def split: if_splits)
next
  case (10 p p' lost)
  then have "worker_at p' = map_option (\<lambda>w. if cut_off w then released w else w) \<circ> worker_at p"
    using check_connections_ok [of p] by auto
  then show ?case by (intro pool_shrinks_workers) (auto split: if_splits)
qed (auto intro: connected_shrinks release_shrinks disable_shrinks enable_shrinks)

text \<open>Ignoring an operation takes it, and no other, from the workers.\<close>

lemma ignore_effect:
  assumes "pool_ok p"
  shows "case ignore_operation op p of
      Inl _ \<Rightarrow> \<not> pool_works_on p op
    | Inr p' \<Rightarrow> pool_ok p' \<and> (\<forall>op'. pool_works_on p' op' \<longleftrightarrow> op' \<noteq> op \<and> pool_works_on p op')"
proof (cases "shard_of p op")
  case None
  then have "\<not> works_on w op" if "worker_at p s = Some w" for s w using pool_okD(2) [OF assms that] by fastforce
  then show ?thesis using None by (auto simp: ignore_operation_def lookup_def pool_works_on_def)
next
  case (Some s)
  obtain w where w: "worker_at p s = Some w" by (rule pool_ok_shard [OF assms Some])
  let ?w = "w\<lparr>w_operations_to_ignore := w_operations_to_ignore w @ [op]\<rparr>"
  have run: "ignore_operation op p = Inr (set_worker s ?w p)" using Some w by (simp add: ignore_operation_def lookup_def)
  have new: "works_on ?w op' \<longleftrightarrow> op' \<noteq> op \<and> works_on w op'" for op' by (auto simp: works_on_def)
  have only: "t = s" if "worker_at p t = Some v" "works_on v op" for t v using pool_okD(2) [OF assms that] Some by simp
  have "pool_works_on (set_worker s ?w p) op' \<longleftrightarrow> op' \<noteq> op \<and> pool_works_on p op'" for op'
  proof
    assume "pool_works_on (set_worker s ?w p) op'"
    then obtain t v where v: "((worker_at p)(s \<mapsto> ?w)) t = Some v" "works_on v op'" by (auto simp: pool_works_on_def)
    then show "op' \<noteq> op \<and> pool_works_on p op'"
      using new w only [of t v] by (auto simp: pool_works_on_def split: if_splits)
  next
    assume op': "op' \<noteq> op \<and> pool_works_on p op'"
    then obtain t v where v: "worker_at p t = Some v" "works_on v op'" by (auto simp: pool_works_on_def)
    have "\<exists>u. ((worker_at p)(s \<mapsto> ?w)) t = Some u \<and> works_on u op'"
      using v w new op' by (cases "t = s") auto
    then show "pool_works_on (set_worker s ?w p) op'" unfolding pool_works_on_def set_worker_frame by blast
  qed
  then show ?thesis using run ignore_operation_ok(1) [OF assms run] by simp
qed


section \<open>The executor keeps its books\<close>

definition entry_summary_key :: "es_operation queue_entry \<Rightarrow> summary_key" where
  "entry_summary_key e = summary_key_of (qe_item e) (qe_priority e)"

definition queued_under :: "es_executor \<Rightarrow> summary_key \<Rightarrow> nat" where
  "queued_under x key = size (filter_mset (\<lambda>e. entry_summary_key e = key) (aq_entries (ex_queue x)))"

text \<open>The summary says how many operations are queued under each key, and has no entry for none.\<close>

definition cumulative_ok :: "es_executor \<Rightarrow> bool" where
  "cumulative_ok x \<longleftrightarrow>
     (\<forall>key. map_option qs_multiplicity (dict_get (ex_cumulative x) key) =
        (if queued_under x key = 0 then None else Some (int (queued_under x key))))"

definition executor_ok :: "es_executor \<Rightarrow> bool" where
  "executor_ok x \<longleftrightarrow> aq_inv (ex_queue x) \<and> pool_ok (ex_pool x) \<and> cumulative_ok x"

text \<open>The operations the executor holds back, each as often as it holds it.\<close>

definition waiting :: "es_executor \<Rightarrow> es_operation multiset" where
  "waiting x = image_mset qe_item (aq_entries (ex_queue x)) + mset (map qe_item (ex_extracted x)) + mset (ex_currently_executing x)"

lemma queued_under_add:
  "aq_entries (ex_queue x') = add_mset e (aq_entries (ex_queue x)) \<Longrightarrow>
   queued_under x' key = queued_under x key + (if entry_summary_key e = key then 1 else 0)"
  by (simp add: queued_under_def)

lemma cumulative_ok_iff:
  "cumulative_ok x \<longleftrightarrow> (\<forall>key. case dict_get (ex_cumulative x) key of
     None \<Rightarrow> queued_under x key = 0 | Some s \<Rightarrow> qs_multiplicity s = int (queued_under x key) \<and> queued_under x key \<noteq> 0)"
  unfolding cumulative_ok_def by (rule all_cong1) (auto split: option.splits)

lemmas cumulative_okD = spec [OF iffD1 [OF cumulative_ok_iff]]

lemma executor_enqueue_effect:
  assumes "executor_ok x" "executor_enqueue item priority timestamp x = (x', success)"
  shows "executor_ok x' \<and> ex_extracted x' = ex_extracted x \<and> ex_currently_executing x' = ex_currently_executing x \<and>
    ex_pool x' = ex_pool x \<and> aq_contains (ex_queue x') item \<and> success = (\<not> aq_contains (ex_queue x) item) \<and>
    waiting x' = (if success then add_mset item (waiting x) else waiting x)"
proof (cases "aq_contains (ex_queue x) item")
  case True
  then show ?thesis using assms by (auto simp: executor_enqueue_def aq_push_def)
next
  case False
  have inv: "aq_inv (ex_queue x)" using assms(1) by (simp add: executor_ok_def)
  obtain q' e where q': "aq_push (ex_queue x) item (Some priority) (Some timestamp) timestamp = (q', True)" "aq_inv q'"
    "aq_entries q' = add_mset e (aq_entries (ex_queue x))" "qe_item e = item" "qe_priority e = priority"
    using aq_push_new [OF inv False, of "Some priority" timestamp timestamp] by auto
  have key: "entry_summary_key e = summary_key_of item priority" using q'(4,5) by (simp add: entry_summary_key_def)
  have x': "ex_queue x' = q'" "ex_extracted x' = ex_extracted x" "ex_currently_executing x' = ex_currently_executing x"
    "ex_pool x' = ex_pool x" "success" and
    cum: "ex_cumulative x' = (case dict_get (ex_cumulative x) (summary_key_of item priority) of
        Some s \<Rightarrow> dict_set (summary_key_of item priority) (s\<lparr>qs_multiplicity := qs_multiplicity s + 1\<rparr>) (ex_cumulative x)
      | None \<Rightarrow> dict_set (summary_key_of item priority)
          \<lparr>qs_item = dict_del ''testcase_codename'' (op_to_dict item), qs_multiplicity = 1, qs_priority = priority,
           qs_timestamp = of_int timestamp / 1000000\<rparr> (ex_cumulative x))"
    using assms(2) q'(1) by (auto simp: executor_enqueue_def Let_def cong: option.case_cong)
  have n: "queued_under x' k = queued_under x k + (if summary_key_of item priority = k then 1 else 0)" for k
    using queued_under_add [of x' e x k] q'(3) x'(1) key by simp
  have "case dict_get (ex_cumulative x') k of None \<Rightarrow> queued_under x' k = 0
      | Some s \<Rightarrow> qs_multiplicity s = int (queued_under x' k) \<and> queued_under x' k \<noteq> 0" for k
    using cumulative_okD [of x k] assms(1) unfolding n cum executor_ok_def by (auto simp: dict_get_set split: option.splits)
  then have "cumulative_ok x'" unfolding cumulative_ok_iff by blast
  moreover have "aq_contains q' item" using aq_contains_iff [OF q'(2), of item] q'(3,4) by simp
  ultimately show ?thesis using assms(1) False q' x' by (simp add: executor_ok_def waiting_def)
qed

lemma remove_from_cumulative_effect:
  assumes "cumulative_ok y" "aq_entries (ex_queue y) = add_mset e (aq_entries q)"
  shows "\<exists>x'. remove_from_cumulative_status e (y\<lparr>ex_queue := q\<rparr>) = Inr x' \<and> cumulative_ok x' \<and>
    (\<exists>cum. x' = y\<lparr>ex_queue := q, ex_cumulative := cum\<rparr>)"
proof -
  let ?y = "y\<lparr>ex_queue := q\<rparr>" and ?key = "entry_summary_key e"
  have n: "queued_under y k = queued_under ?y k + (if ?key = k then 1 else 0)" for k
    using queued_under_add [of y e ?y k] assms(2) by simp
  obtain s where s: "dict_get (ex_cumulative y) ?key = Some s" "qs_multiplicity s = int (queued_under y ?key)"
    using cumulative_okD [OF assms(1), of ?key] n [of ?key] by (auto split: option.splits)
  define cum where "cum = (if qs_multiplicity s - 1 = 0 then dict_del ?key (ex_cumulative y)
    else dict_set ?key (s\<lparr>qs_multiplicity := qs_multiplicity s - 1\<rparr>) (ex_cumulative y))"
  have run: "remove_from_cumulative_status e ?y = Inr (?y\<lparr>ex_cumulative := cum\<rparr>)"
    using s(1) by (simp add: remove_from_cumulative_status_def entry_summary_key_def cum_def)
  have same: "queued_under (?y\<lparr>ex_cumulative := cum\<rparr>) k = queued_under ?y k" for k by (simp add: queued_under_def)
  have "case dict_get cum k of None \<Rightarrow> queued_under ?y k = 0
      | Some s \<Rightarrow> qs_multiplicity s = int (queued_under ?y k) \<and> queued_under ?y k \<noteq> 0" for k
  proof (cases "k = ?key")
    case True
    then show ?thesis using s(2) n [of ?key] by (auto simp: cum_def dict_get_set dict_get_del)
  next
    case False
    then have "dict_get cum k = dict_get (ex_cumulative y) k" "queued_under ?y k = queued_under y k"
      using n [of k] by (auto simp: cum_def dict_get_set dict_get_del)
    then show ?thesis using cumulative_okD [OF assms(1), of k] by (auto split: option.splits)
  qed
  then have "cumulative_ok (?y\<lparr>ex_cumulative := cum\<rparr>)" unfolding cumulative_ok_iff same by simp
  then show ?thesis using run by auto
qed


lemma executor_dequeue_effect:
  assumes "executor_ok x" "operation \<notin> set (map qe_item (ex_extracted x))"
  shows "\<exists>x'. executor_dequeue operation x = (x', if operation \<in># waiting x then Inr () else Inl KeyError) \<and> executor_ok x' \<and>
    waiting x' = waiting x - {#operation#} \<and> ex_extracted x' = ex_extracted x \<and> ex_pool x' = ex_pool x"
proof (cases "aq_contains (ex_queue x) operation")
  case True
  obtain q e where q: "aq_remove (ex_queue x) operation = Inr (q, e)" "aq_inv q" "qe_item e = operation"
    "add_mset e (aq_entries q) = aq_entries (ex_queue x)"
    using assms(1) True by (auto simp: executor_ok_def intro: aq_remove_effect)
  obtain cum where cum: "remove_from_cumulative_status e (x\<lparr>ex_queue := q\<rparr>) = Inr (x\<lparr>ex_queue := q, ex_cumulative := cum\<rparr>)"
    "cumulative_ok (x\<lparr>ex_queue := q, ex_cumulative := cum\<rparr>)"
    using remove_from_cumulative_effect [of x e q] assms(1) q(4) by (auto simp: executor_ok_def)
  have "waiting x = add_mset operation (waiting (x\<lparr>ex_queue := q, ex_cumulative := cum\<rparr>))"
    using q(3) by (simp add: waiting_def q(4) [symmetric])
  then show ?thesis using q cum assms(1) by (simp add: executor_dequeue_def executor_ok_def)
next
  case False
  have out: "operation \<notin># image_mset qe_item (aq_entries (ex_queue x))"
    using False aq_contains_iff [of "ex_queue x" operation] assms(1) by (auto simp: executor_ok_def)
  then have w: "operation \<in># waiting x \<longleftrightarrow> operation \<in> set (ex_currently_executing x)"
    using assms(2) by (auto simp: waiting_def)
  let ?x = "if operation \<in> set (ex_currently_executing x)
    then x\<lparr>ex_currently_executing := remove1 operation (ex_currently_executing x)\<rparr> else x"
  have "waiting ?x = waiting x - {#operation#}"
  proof (cases "operation \<in> set (ex_currently_executing x)")
    case True
    then show ?thesis using diff_union_single_conv [of operation "mset (ex_currently_executing x)"] by (simp add: waiting_def)
  next
    case False
    then show ?thesis using w by (simp add: diff_single_trivial)
  qed
  moreover have "cumulative_ok ?x" using assms(1) by (simp add: executor_ok_def cumulative_ok_def queued_under_def)
  ultimately show ?thesis
    using aq_remove_absent [OF False] w assms(1) by (auto simp: executor_dequeue_def drop_executing_def executor_ok_def)
qed

lemma executor_pop_effect:
  assumes "executor_ok x" "aq_entries (ex_queue x) \<noteq> {#}"
  obtains x' e where "executor_pop wait x = Inr (Some (x', e))" "executor_ok x'"
    "waiting x = add_mset (qe_item e) (waiting x')" "ex_extracted x' = ex_extracted x"
    "ex_currently_executing x' = ex_currently_executing x" "ex_pool x' = ex_pool x"
proof -
  obtain q e where q: "aq_pop (ex_queue x) wait = Inr (Some (q, e))" "aq_inv q" "add_mset e (aq_entries q) = aq_entries (ex_queue x)"
    using assms by (auto simp: executor_ok_def intro: aq_pop_effect)
  obtain cum where cum: "remove_from_cumulative_status e (x\<lparr>ex_queue := q\<rparr>) = Inr (x\<lparr>ex_queue := q, ex_cumulative := cum\<rparr>)"
    "cumulative_ok (x\<lparr>ex_queue := q, ex_cumulative := cum\<rparr>)"
    using remove_from_cumulative_effect [of x e q] assms(1) q(3) by (auto simp: executor_ok_def)
  show thesis
    by (rule that [of "x\<lparr>ex_queue := q, ex_cumulative := cum\<rparr>" e])
      (use q cum assms(1) in \<open>simp_all add: executor_pop_def executor_ok_def waiting_def q(3) [symmetric]\<close>)
qed

lemma aq_entries_empty: "aq_entries q = {#} \<longleftrightarrow> aq_empty q"
  by (simp add: aq_entries_def aq_empty_def aq_length_def pq_length_def)

lemma executor_ok_frame [simp]:
  "executor_ok (x\<lparr>ex_extracted := es\<rparr>) = executor_ok x"
  "executor_ok (x\<lparr>ex_batch_limit := n\<rparr>) = executor_ok x"
  "executor_ok (x\<lparr>ex_currently_executing := ops\<rparr>) = executor_ok x"
  by (simp_all add: executor_ok_def cumulative_ok_def queued_under_def)

text \<open>The loop of the executor never raises, and moves operations without losing any.\<close>

lemma run_step_effect:
  assumes "executor_ok x" "ex_currently_executing x = []"
  shows "run_step x = Inr None \<and> ex_extracted x = [] \<and> aq_empty (ex_queue x) \<or>
    (\<exists>x'. run_step x = Inr (Some x') \<and> executor_ok x' \<and> waiting x' = waiting x \<and> ex_pool x' = ex_pool x \<and>
       (ex_currently_executing x' = [] \<or> ex_extracted x' = []))"
proof (cases "aq_empty (ex_queue x)")
  case True
  then have "pq_queue (aq_heap (ex_queue x)) = []" by (simp add: aq_empty_def aq_length_def pq_length_def)
  then have "executor_pop True x = Inr None" by (simp add: executor_pop_def aq_pop_def pq_pop_eq)
  then show ?thesis using assms True by (auto simp: run_step_def waiting_def)
next
  case False
  then have ne: "aq_entries (ex_queue x) \<noteq> {#}" by (simp add: aq_entries_empty)
  show ?thesis
  proof (cases "ex_extracted x \<noteq> [] \<and> \<not> (ex_batch_limit x = 0 \<or> length (ex_extracted x) < ex_batch_limit x)")
    case True
    then show ?thesis using assms by (auto simp: run_step_def waiting_def)
  next
    case more: False
    obtain x' e where x': "executor_pop (ex_extracted x = []) x = Inr (Some (x', e))" "executor_ok x'"
      "waiting x = add_mset (qe_item e) (waiting x')" "ex_extracted x' = ex_extracted x"
      "ex_currently_executing x' = ex_currently_executing x" "ex_pool x' = ex_pool x"
      using executor_pop_effect [OF assms(1) ne] by blast
    then show ?thesis using more False assms by (auto simp: run_step_def waiting_def)
  qed
qed

lemma execute_round_effect:
  assumes "executor_ok x" "\<forall>op \<in> set (ex_currently_executing x). \<not> pool_works_on (ex_pool x) op"
  shows "\<exists>x'. execute_round draw now x = Inr x' \<and> executor_ok x' \<and> ex_extracted x' = ex_extracted x \<and> ex_queue x' = ex_queue x \<and>
    (\<exists>given. ex_currently_executing x = ex_currently_executing x' @ given \<and>
      (\<forall>op. pool_works_on (ex_pool x') op \<longleftrightarrow> op \<in> set given \<or> pool_works_on (ex_pool x) op))"
proof (cases "ex_currently_executing x = []")
  case True
  then show ?thesis using assms(1) by (intro exI [of _ x]) (auto simp: execute_round_def)
next
  case False
  have ok: "pool_ok (ex_pool x)" using assms(1) by (simp add: executor_ok_def)
  obtain p' r where p': "acquire_worker (ex_currently_executing x) draw now (ex_pool x) = Inr (p', r)" "pool_ok p'"
    and res: "case r of
       None \<Rightarrow> (\<forall>s w. worker_at (ex_pool x) s = Some w \<longrightarrow> \<not> idle w) \<and> p' = (ex_pool x)\<lparr>wp_workers_available := False\<rparr>
     | Some s \<Rightarrow> \<exists>w. worker_at (ex_pool x) s = Some w \<and> idle w \<and>
         worker_at p' = (worker_at (ex_pool x))(s \<mapsto> w\<lparr>w_operations := Busy (ex_currently_executing x), w_start_time := Some now,
           w_answered_at := None, w_dispatched_at := None, w_timeout := WORKER_TIMEOUT,
           w_current_dispatch := Some (Suc (wp_last_dispatch_id (ex_pool x)))\<rparr>)"
    using acquire_ok [OF ok assms(2), of draw now] by blast
  show ?thesis
  proof (cases r)
    case None
    then have "pool_works_on p' = pool_works_on (ex_pool x)" using res by (simp add: pool_works_on_def fun_eq_iff)
    then show ?thesis
      using False p' None assms(1)
      by (intro exI [of _ "x\<lparr>ex_pool := p'\<rparr>"])
        (simp add: execute_round_def executor_ok_def cumulative_ok_def queued_under_def)
  next
    case (Some s)
    then obtain w where w: "worker_at (ex_pool x) s = Some w" "idle w"
      "worker_at p' = (worker_at (ex_pool x))(s \<mapsto> w\<lparr>w_operations := Busy (ex_currently_executing x), w_start_time := Some now,
           w_answered_at := None, w_dispatched_at := None, w_timeout := WORKER_TIMEOUT,
           w_current_dispatch := Some (Suc (wp_last_dispatch_id (ex_pool x)))\<rparr>)" using res by auto
    have empty: "w_operations_to_ignore w = []" "ops_of (w_operations w) = []"
      using pool_okD(1) [OF ok w(1)] w(2) by (auto simp: worker_ok_def idle_def)
    have "pool_works_on p' op \<longleftrightarrow> op \<in> set (ex_currently_executing x) \<or> pool_works_on (ex_pool x) op" for op
    proof
      assume "pool_works_on p' op"
      then show "op \<in> set (ex_currently_executing x) \<or> pool_works_on (ex_pool x) op"
        using w(3) by (auto simp: pool_works_on_def works_on_def split: if_splits)
    next
      assume op: "op \<in> set (ex_currently_executing x) \<or> pool_works_on (ex_pool x) op"
      then consider "op \<in> set (ex_currently_executing x)" | t v where "worker_at (ex_pool x) t = Some v" "works_on v op" "t \<noteq> s"
        using w(1) works_on_free [OF empty(2)] unfolding pool_works_on_def by (metis option.inject)
      then show "pool_works_on p' op"
        by cases (use w(3) empty(1) in \<open>auto simp: pool_works_on_def works_on_def intro: exI [of _ s]\<close>)
    qed
    then show ?thesis
      using False p' Some assms(1)
      by (intro exI [of _ "x\<lparr>ex_pool := p', ex_currently_executing := []\<rparr>"])
        (simp add: execute_round_def executor_ok_def cumulative_ok_def queued_under_def)
  qed
qed


section \<open>The hand-over to the event loop\<close>

fun action_op :: "loop_action \<Rightarrow> es_operation" where
  "action_op (PushAction operation _ _) = operation"
| "action_op (DequeueAction operation) = operation"

fun kind_of :: "loop_action \<Rightarrow> action_kind" where
  "kind_of (PushAction _ _ _) = Push"
| "kind_of (DequeueAction _) = Dequeue"

text \<open>The actions on one operation among a list of actions.\<close>

definition kinds :: "es_operation \<Rightarrow> loop_action list \<Rightarrow> action_kind list" where
  "kinds op actions = map kind_of (filter (\<lambda>a. action_op a = op) actions)"

lemma kinds_simps [simp]:
  "kinds op [] = []" "kinds op (as @ bs) = kinds op as @ kinds op bs"
  "kinds op (a # as) = (if action_op a = op then kind_of a # kinds op as else kinds op as)"
  by (simp_all add: kinds_def)

text \<open>How often an operation is in the queue, extracted, being executed or worked on.\<close>

definition occupancy :: "es_executor \<Rightarrow> es_operation \<Rightarrow> nat" where
  "occupancy x op = count (waiting x) op + (if pool_works_on (ex_pool x) op then 1 else 0)"

lemma executing_not_worked_on:
  assumes "occupancy x op \<le> 1" "op \<in> set (ex_currently_executing x)"
  shows "\<not> pool_works_on (ex_pool x) op"
proof -
  have "op \<in># waiting x" using assms(2) by (simp add: waiting_def)
  then have "0 < count (waiting x) op" by simp
  then show ?thesis using assms(1) unfolding occupancy_def by (metis add_le_same_cancel2 not_less)
qed

text \<open>
  One operation: how often it is held, the actions on it that were handed over, those still buffered, and whether the section has
  dequeued it.
\<close>

definition op_ok :: "nat \<Rightarrow> action_kind list \<Rightarrow> action_kind list \<Rightarrow> bool \<Rightarrow> bool" where
  "op_ok n hs bs dequeued \<longleftrightarrow>
     n \<le> 1 \<and> successively (\<lambda>a b. a = Push \<longrightarrow> b = Dequeue) (hs @ bs) \<and>
     (hs @ bs \<noteq> [] \<longrightarrow> hd (hs @ bs) = Push \<longrightarrow> n = 0) \<and>
     (dequeued \<longrightarrow> (if hs = [] then n = 0 else last hs = Dequeue))"

lemma op_ok_less: "op_ok n hs bs d \<Longrightarrow> m \<le> n \<Longrightarrow> op_ok m hs bs d"
  by (auto simp: op_ok_def)

lemma op_ok_push:
  "op_ok n hs bs d \<Longrightarrow> (if hs @ bs = [] then n = 0 else last (hs @ bs) = Dequeue) \<Longrightarrow> op_ok n hs (bs @ [Push]) d"
  by (auto simp: op_ok_def successively_append_iff hd_append split: if_splits)

lemma op_ok_dequeue: "op_ok n hs [] d \<Longrightarrow> m \<le> n \<Longrightarrow> op_ok m (hs @ [Dequeue]) [] True"
  by (auto simp: op_ok_def successively_append_iff hd_append)

lemma op_ok_leave: "op_ok n hs bs d \<Longrightarrow> op_ok n (hs @ bs) [] False"
  by (auto simp: op_ok_def)

lemma op_ok_pushed: "op_ok n (Push # hs) bs d \<Longrightarrow> n = 0 \<and> op_ok 1 hs bs d"
  by (auto simp: op_ok_def successively_Cons split: if_splits)

lemma op_ok_dequeued: "op_ok n (Dequeue # hs) bs d \<Longrightarrow> op_ok 0 hs bs d"
  by (auto simp: op_ok_def successively_Cons split: if_splits)

definition handover_ok :: "es_service \<Rightarrow> bool" where
  "handover_ok sv \<longleftrightarrow>
     (\<forall>op. op_ok (occupancy (sv_executor sv) op) (kinds op (sv_handed sv)) (kinds op (sv_loop_actions sv))
       (op \<in> set (sv_dequeued_in_section sv)))"

definition pending_entry :: "action_kind list \<Rightarrow> (action_kind \<times> nat) option" where
  "pending_entry ks = (if ks = [] then None else Some (last ks, length ks))"

text \<open>The pending operations are exactly those with actions not applied yet, with the last action and their number.\<close>

definition pending_ok :: "es_service \<Rightarrow> bool" where
  "pending_ok sv \<longleftrightarrow>
     (\<forall>op. dict_get (sv_pending_operations sv) op = pending_entry (kinds op (sv_handed sv @ sv_loop_actions sv)))"

definition service_ok :: "es_service \<Rightarrow> bool" where
  "service_ok sv \<longleftrightarrow>
     executor_ok (sv_executor sv) \<and>
     (ex_currently_executing (sv_executor sv) = [] \<or> ex_extracted (sv_executor sv) = []) \<and>
     pending_ok sv \<and> handover_ok sv \<and>
     (sv_post_finish_depth sv = 0 \<longrightarrow> sv_loop_actions sv = [] \<and> sv_dequeued_in_section sv = [])"

lemma pending_entry_snoc: "pending_entry (ks @ [k]) = Some (k, length ks + 1)"
  by (simp add: pending_entry_def)

lemma record_pending_get:
  assumes "pending_ok sv"
  shows "dict_get (sv_pending_operations (record_pending operation action sv)) op =
    pending_entry (kinds op (sv_handed sv @ sv_loop_actions sv) @ (if op = operation then [action] else []))"
  using assms by (auto simp: pending_ok_def record_pending_def dict_get_set pending_entry_def)

lemma clear_pending_get:
  assumes "dict_get (sv_pending_operations sv) operation = pending_entry (k # ks)"
  shows "dict_get (sv_pending_operations (clear_pending_one operation sv)) op =
    (if op = operation then pending_entry ks else dict_get (sv_pending_operations sv) op)"
  using assms by (cases ks) (auto simp: clear_pending_one_def pending_entry_def dict_get_set dict_get_del)

lemma record_pending_frame [simp]:
  "sv_executor (record_pending op k sv) = sv_executor sv" "sv_handed (record_pending op k sv) = sv_handed sv"
  "sv_loop_actions (record_pending op k sv) = sv_loop_actions sv"
  "sv_dequeued_in_section (record_pending op k sv) = sv_dequeued_in_section sv"
  "sv_post_finish_depth (record_pending op k sv) = sv_post_finish_depth sv"
  "sv_result_cache (record_pending op k sv) = sv_result_cache sv" "sv_discarded (record_pending op k sv) = sv_discarded sv"
  by (simp_all add: record_pending_def)

lemma clear_pending_frame [simp]:
  "sv_executor (clear_pending_one op sv) = sv_executor sv" "sv_handed (clear_pending_one op sv) = sv_handed sv"
  "sv_loop_actions (clear_pending_one op sv) = sv_loop_actions sv"
  "sv_dequeued_in_section (clear_pending_one op sv) = sv_dequeued_in_section sv"
  "sv_post_finish_depth (clear_pending_one op sv) = sv_post_finish_depth sv"
  "sv_result_cache (clear_pending_one op sv) = sv_result_cache sv" "sv_discarded (clear_pending_one op sv) = sv_discarded sv"
  by (auto simp: clear_pending_one_def split: option.split)

lemma enqueue_sync_ok:
  assumes "service_ok sv" "0 < sv_post_finish_depth sv" "ex_extracted (sv_executor sv) = []"
    "enqueue_sync operation priority timestamp sv = (sv', pushed)"
  shows "service_ok sv'"
proof (cases pushed)
  case False
  then show ?thesis using assms by (auto simp: enqueue_sync_def Let_def split: if_splits)
next
  case True
  let ?ks = "kinds operation (sv_handed sv @ sv_loop_actions sv)"
  have pending: "map_option fst (dict_get (sv_pending_operations sv) operation) = (if ?ks = [] then None else Some (last ?ks))"
    using assms(1) by (simp add: service_ok_def pending_ok_def pending_entry_def)
  have sv': "sv' = (record_pending operation Push sv)\<lparr>sv_loop_actions := sv_loop_actions sv @ [PushAction operation priority timestamp]\<rparr>"
    and last: "?ks \<noteq> [] \<Longrightarrow> last ?ks \<noteq> Push"
    and free: "?ks = [] \<Longrightarrow> operation \<in> set (sv_dequeued_in_section sv) \<or> \<not> executor_contains (sv_executor sv) operation"
    using assms(4) True pending
    by (auto simp: enqueue_sync_def Let_def push_to_queue_def schedule_loop_action_def split: if_splits)
  have ok: "op_ok (occupancy (sv_executor sv) op) (kinds op (sv_handed sv)) (kinds op (sv_loop_actions sv))
      (op \<in> set (sv_dequeued_in_section sv))" for op
    using assms(1) by (simp add: service_ok_def handover_ok_def)
  have "occupancy (sv_executor sv) operation = 0" if "?ks = []"
    using free [OF that]
  proof
    assume "operation \<in> set (sv_dequeued_in_section sv)"
    then show ?thesis using ok [of operation] that by (simp add: op_ok_def)
  next
    assume "\<not> executor_contains (sv_executor sv) operation"
    then have out: "\<not> aq_contains (ex_queue (sv_executor sv)) operation" "operation \<notin> set (ex_currently_executing (sv_executor sv))"
      "\<not> pool_contains (ex_pool (sv_executor sv)) operation" by (simp_all add: executor_contains_def)
    have "aq_inv (ex_queue (sv_executor sv))" "pool_ok (ex_pool (sv_executor sv))"
      using assms(1) by (simp_all add: service_ok_def executor_ok_def)
    then have "operation \<notin># waiting (sv_executor sv)" "\<not> pool_works_on (ex_pool (sv_executor sv)) operation"
      using out assms(3) pool_okD(2) [of "ex_pool (sv_executor sv)"]
      by (auto simp: waiting_def aq_contains_iff pool_contains_def pool_works_on_def)
    then show ?thesis by (simp add: occupancy_def not_in_iff)
  qed
  then have "if ?ks = [] then occupancy (sv_executor sv) operation = 0 else last ?ks = Dequeue"
    using last by (cases "last ?ks") auto
  then have "op_ok (occupancy (sv_executor sv) operation) (kinds operation (sv_handed sv))
      (kinds operation (sv_loop_actions sv) @ [Push]) (operation \<in> set (sv_dequeued_in_section sv))"
    unfolding kinds_simps(2) by (rule op_ok_push [OF ok])
  then have "handover_ok sv'" using ok by (simp add: handover_ok_def sv')
  moreover have "pending_ok sv'"
    using record_pending_get [of sv operation Push] assms(1) by (auto simp: pending_ok_def sv' service_ok_def)
  ultimately show ?thesis using assms(1,2) by (simp add: service_ok_def sv')
qed


text \<open>The executor changes so that no operation is held more often.\<close>

lemma service_ok_executor:
  assumes "service_ok sv" "executor_ok x" "ex_currently_executing x = [] \<or> ex_extracted x = []"
    "\<And>op. occupancy x op \<le> occupancy (sv_executor sv) op"
  shows "service_ok (sv\<lparr>sv_executor := x\<rparr>)"
proof -
  have "op_ok (occupancy (sv_executor sv) op) (kinds op (sv_handed sv)) (kinds op (sv_loop_actions sv))
      (op \<in> set (sv_dequeued_in_section sv))" for op
    using assms(1) unfolding service_ok_def handover_ok_def by blast
  then have "handover_ok (sv\<lparr>sv_executor := x\<rparr>)"
    using op_ok_less [OF _ assms(4)] by (simp add: handover_ok_def)
  then show ?thesis using assms(1-3) by (simp add: service_ok_def pending_ok_def)
qed

lemma ignore_if_present_effect:
  assumes "executor_ok x"
  shows "executor_ok (ignore_if_present operation x) \<and> waiting (ignore_if_present operation x) = waiting x \<and>
    ex_extracted (ignore_if_present operation x) = ex_extracted x \<and>
    ex_currently_executing (ignore_if_present operation x) = ex_currently_executing x \<and>
    (\<forall>op. pool_works_on (ex_pool (ignore_if_present operation x)) op \<longleftrightarrow> op \<noteq> operation \<and> pool_works_on (ex_pool x) op)"
  using ignore_effect [of "ex_pool x" operation] assms
  by (cases "ignore_operation operation (ex_pool x)")
    (auto simp: ignore_if_present_def executor_ok_def cumulative_ok_def queued_under_def waiting_def)

lemma dequeue_and_ignore_ok:
  assumes "service_ok sv" "0 < sv_post_finish_depth sv" "sv_loop_actions sv = []"
  shows "service_ok (threadsafe_dequeue_and_ignore operation sv)"
proof -
  let ?x = "ignore_if_present operation (sv_executor sv)" and ?sv = "threadsafe_dequeue_and_ignore operation sv"
  have x: "executor_ok ?x" "ex_extracted ?x = ex_extracted (sv_executor sv)"
    "ex_currently_executing ?x = ex_currently_executing (sv_executor sv)"
    and le: "occupancy ?x op \<le> occupancy (sv_executor sv) op" for op
    using ignore_if_present_effect [of "sv_executor sv" operation] assms(1) by (auto simp: service_ok_def occupancy_def)
  have sv': "sv_executor ?sv = ?x" "sv_handed ?sv = sv_handed sv @ [DequeueAction operation]" "sv_loop_actions ?sv = []"
    "set (sv_dequeued_in_section ?sv) = insert operation (set (sv_dequeued_in_section sv))"
    "sv_post_finish_depth ?sv = sv_post_finish_depth sv"
    "sv_pending_operations ?sv = sv_pending_operations (record_pending operation Dequeue sv)"
    using assms(3) by (simp_all add: threadsafe_dequeue_and_ignore_def Let_def schedule_loop_action_def flush_loop_actions_def)
  have old: "op_ok (occupancy (sv_executor sv) op) (kinds op (sv_handed sv)) [] (op \<in> set (sv_dequeued_in_section sv))" for op
    using assms(1,3) by (auto simp: service_ok_def handover_ok_def dest: spec [of _ op])
  have "op_ok (occupancy ?x op) (kinds op (sv_handed ?sv)) (kinds op (sv_loop_actions ?sv)) (op \<in> set (sv_dequeued_in_section ?sv))" for op
    using op_ok_dequeue [OF old [of op] le] op_ok_less [OF old [of op] le] by (auto simp: sv')
  then have "handover_ok ?sv" by (simp add: handover_ok_def sv'(1))
  moreover have "pending_ok ?sv"
    using record_pending_get [of sv operation Dequeue] assms(1,3) by (auto simp: pending_ok_def service_ok_def sv')
  ultimately show ?thesis using assms(1,2) x by (simp add: service_ok_def sv')
qed

lemma leave_section_ok:
  assumes "service_ok sv"
  shows "service_ok (leave_section sv)"
proof (cases "sv_post_finish_depth sv \<le> 1")
  case True
  then have sv': "leave_section sv = sv\<lparr>sv_post_finish_depth := 0, sv_dequeued_in_section := [],
      sv_handed := sv_handed sv @ sv_loop_actions sv, sv_loop_actions := []\<rparr>"
    by (simp add: leave_section_def flush_loop_actions_def)
  have "handover_ok (leave_section sv)"
    using assms op_ok_leave by (fastforce simp: sv' service_ok_def handover_ok_def)
  then show ?thesis using assms by (simp add: service_ok_def sv' pending_ok_def)
qed (use assms in \<open>auto simp: leave_section_def service_ok_def pending_ok_def handover_ok_def\<close>)

text \<open>One action is applied; \<open>sv\<close> is the service from whose list the action was just taken.\<close>

lemma apply_loop_action_frame [simp]:
  "sv_handed (apply_loop_action a sv) = sv_handed sv" "sv_loop_actions (apply_loop_action a sv) = sv_loop_actions sv"
  "sv_dequeued_in_section (apply_loop_action a sv) = sv_dequeued_in_section sv"
  "sv_post_finish_depth (apply_loop_action a sv) = sv_post_finish_depth sv"
  "sv_result_cache (apply_loop_action a sv) = sv_result_cache sv" "sv_discarded (apply_loop_action a sv) = sv_discarded sv"
  by (cases a; simp)+

lemma apply_push_effect:
  fixes priority timestamp :: int
  assumes "executor_ok (sv_executor sv)" "occupancy (sv_executor sv) operation = 0"
  defines "x' \<equiv> sv_executor (apply_loop_action (PushAction operation priority timestamp) sv)"
  shows "executor_ok x'" "occupancy x' op = (if op = operation then 1 else occupancy (sv_executor sv) op)"
    "ex_extracted x' = ex_extracted (sv_executor sv)" "ex_currently_executing x' = ex_currently_executing (sv_executor sv)"
    "aq_contains (ex_queue x') operation"
proof -
  obtain success where run: "executor_enqueue operation priority timestamp (sv_executor sv) = (x', success)"
    by (cases "executor_enqueue operation priority timestamp (sv_executor sv)") (simp add: x'_def)
  note e = executor_enqueue_effect [OF assms(1) run]
  have "\<not> aq_contains (ex_queue (sv_executor sv)) operation"
    using assms(1,2) by (auto simp: occupancy_def waiting_def executor_ok_def aq_contains_iff not_in_iff [symmetric] split: if_splits)
  then show "executor_ok x'" "occupancy x' op = (if op = operation then 1 else occupancy (sv_executor sv) op)"
    "ex_extracted x' = ex_extracted (sv_executor sv)" "ex_currently_executing x' = ex_currently_executing (sv_executor sv)"
    "aq_contains (ex_queue x') operation"
    using e assms(2) by (simp_all add: occupancy_def split: if_splits)
qed

lemma apply_dequeue_effect:
  assumes "executor_ok (sv_executor sv)" "ex_extracted (sv_executor sv) = []" "occupancy (sv_executor sv) operation \<le> 1"
  defines "x' \<equiv> sv_executor (apply_loop_action (DequeueAction operation) sv)"
  shows "executor_ok x'" "occupancy x' op = (if op = operation then 0 else occupancy (sv_executor sv) op)" "ex_extracted x' = []"
proof -
  obtain x1 where x1: "fst (executor_dequeue operation (sv_executor sv)) = x1" "executor_ok x1"
    "waiting x1 = waiting (sv_executor sv) - {#operation#}" "ex_extracted x1 = []" "ex_pool x1 = ex_pool (sv_executor sv)"
    using executor_dequeue_effect [OF assms(1), of operation] assms(2) by auto
  have x': "x' = ignore_if_present operation x1" by (simp add: x'_def x1(1))
  note i = ignore_if_present_effect [OF x1(2), of operation]
  show "executor_ok x'" "ex_extracted x' = []" using i x1(4) by (simp_all add: x')
  show "occupancy x' op = (if op = operation then 0 else occupancy (sv_executor sv) op)"
    using i x1(3,5) assms(3) by (auto simp: occupancy_def x' split: if_splits)
qed

lemma run_action_ok:
  assumes "service_ok sv" "ex_extracted (sv_executor sv) = []" "sv_handed sv = a # rest"
  shows "service_ok (apply_loop_action a (sv\<lparr>sv_handed := rest\<rparr>))" (is "service_ok ?sv")
proof -
  let ?old = "sv\<lparr>sv_handed := rest\<rparr>" and ?op = "action_op a"
  have ok: "op_ok (occupancy (sv_executor sv) op) (kinds op (a # rest)) (kinds op (sv_loop_actions sv))
      (op \<in> set (sv_dequeued_in_section sv))" for op
    using assms(1) unfolding service_ok_def handover_ok_def assms(3) by blast
  have x: "executor_ok (sv_executor sv)" using assms(1) by (simp add: service_ok_def)
  have "executor_ok (sv_executor ?sv) \<and> ex_extracted (sv_executor ?sv) = [] \<and>
      op_ok (occupancy (sv_executor ?sv) op) (kinds op rest) (kinds op (sv_loop_actions sv)) (op \<in> set (sv_dequeued_in_section sv))" for op
  proof (cases a)
    case (PushAction operation priority timestamp)
    have zero: "occupancy (sv_executor ?old) operation = 0" and one: "op_ok 1 (kinds operation rest) (kinds operation (sv_loop_actions sv))
        (operation \<in> set (sv_dequeued_in_section sv))"
      using op_ok_pushed ok [of operation] PushAction by auto
    note e = apply_push_effect [OF _ zero, of priority timestamp]
    show ?thesis using e(1,2,3) [simplified, OF x] one ok [of op] assms(2) PushAction by (simp split: if_splits)
  next
    case (DequeueAction operation)
    have le: "occupancy (sv_executor ?old) operation \<le> 1" using ok [of operation] by (simp add: op_ok_def)
    have zero: "op_ok 0 (kinds operation rest) (kinds operation (sv_loop_actions sv)) (operation \<in> set (sv_dequeued_in_section sv))"
      using op_ok_dequeued ok [of operation] DequeueAction by auto
    note e = apply_dequeue_effect [OF _ _ le]
    show ?thesis using e(1,2,3) [simplified, OF x assms(2)] zero ok [of op] DequeueAction by (simp split: if_splits)
  qed
  then have step: "executor_ok (sv_executor ?sv)" "ex_extracted (sv_executor ?sv) = []" "handover_ok ?sv"
    by (simp_all add: handover_ok_def)
  have "dict_get (sv_pending_operations ?old) op = pending_entry (kinds op (a # rest @ sv_loop_actions sv))" for op
    using assms(1,3) by (simp add: service_ok_def pending_ok_def)
  then have "dict_get (sv_pending_operations ?sv) op = pending_entry (kinds op (rest @ sv_loop_actions sv))" for op
    by (cases a) (auto simp: clear_pending_get split: if_splits)
  then have "pending_ok ?sv" by (simp add: pending_ok_def)
  then show ?thesis using step assms(1) by (simp add: service_ok_def)
qed


section \<open>All runs of the service\<close>

text \<open>
  A thread that holds the lock enqueues, dequeues, takes answers of workers and discards results; in a section all dequeues come before the
  first push, as in \<^verbatim>\<open>_invalidate_submission_sync\<close>. The event loop applies the actions handed to it one by one, extracts
  operations and gives them to workers, looks after the pool and flushes the cache. In a \<open>careful\<close> run no operation is enqueued while the
  event loop is between the extraction of a batch and its execution.
\<close>

inductive es_step :: "bool \<Rightarrow> es_service \<Rightarrow> es_service \<Rightarrow> bool" for careful where
  Enter: "es_step careful sv (enter_section sv)"
| Enqueue: "0 < sv_post_finish_depth sv \<Longrightarrow> (careful \<Longrightarrow> ex_extracted (sv_executor sv) = []) \<Longrightarrow>
    enqueue_sync operation priority timestamp sv = (sv', pushed) \<Longrightarrow> es_step careful sv sv'"
| Dequeue_ignore: "0 < sv_post_finish_depth sv \<Longrightarrow> sv_loop_actions sv = [] \<Longrightarrow>
    es_step careful sv (threadsafe_dequeue_and_ignore operation sv)"
| Finished: "0 < sv_post_finish_depth sv \<Longrightarrow> action_finished_sync jobs shard dispatch_id now sv = Inr sv' \<Longrightarrow> es_step careful sv sv'"
| Discard: "0 < sv_post_finish_depth sv \<Longrightarrow> es_step careful sv (discard_cached_results operations sv)"
| Leave: "0 < sv_post_finish_depth sv \<Longrightarrow> es_step careful sv (leave_section sv)"
| Action: "ex_extracted (sv_executor sv) = [] \<Longrightarrow> sv_handed sv = a # rest \<Longrightarrow>
    es_step careful sv (apply_loop_action a (sv\<lparr>sv_handed := rest\<rparr>))"
| Run: "ex_currently_executing (sv_executor sv) = [] \<Longrightarrow> run_step (sv_executor sv) = Inr (Some x) \<Longrightarrow>
    es_step careful sv (sv\<lparr>sv_executor := x\<rparr>)"
| Round: "execute_round draw now (sv_executor sv) = Inr x \<Longrightarrow> es_step careful sv (sv\<lparr>sv_executor := x\<rparr>)"
| Pool: "pool_quiet (ex_pool (sv_executor sv)) p \<Longrightarrow> es_step careful sv (sv\<lparr>sv_executor := (sv_executor sv)\<lparr>ex_pool := p\<rparr>\<rparr>)"
| Flush: "fl_flush_start (sv_result_cache sv) = (cache, batch, items) \<Longrightarrow> es_step careful sv (sv\<lparr>sv_result_cache := cache\<rparr>)"
| Flushed: "es_step careful sv (sv\<lparr>sv_result_cache := fl_flush_end batch (sv_result_cache sv)\<rparr>)"

inductive es_reach :: "bool \<Rightarrow> es_service \<Rightarrow> bool" for careful where
  Start: "es_reach careful es_init"
| Then: "es_reach careful sv \<Longrightarrow> es_step careful sv sv' \<Longrightarrow> es_reach careful sv'"

lemma es_init_ok: "service_ok es_init"
proof -
  have "aq_entries (aq_init :: es_operation async_queue) = {#}" by (simp add: aq_entries_def aq_init_def pq_init_def)
  moreover have "\<not> pool_works_on pool_init op" for op by (simp add: pool_works_on_def pool_init_def)
  ultimately show ?thesis
    by (simp add: es_init_def service_ok_def executor_ok_def aq_inv_def aq_init_def pool_init_ok cumulative_ok_def queued_under_def
        pending_ok_def pending_entry_def handover_ok_def op_ok_def occupancy_def waiting_def)
qed

lemma service_ok_cache [simp]:
  "service_ok (sv\<lparr>sv_result_cache := c\<rparr>) = service_ok sv" "service_ok (sv\<lparr>sv_discarded := ds\<rparr>) = service_ok sv"
  by (simp_all add: service_ok_def pending_ok_def handover_ok_def)

lemma service_ok_pool:
  assumes "service_ok sv" "pool_quiet (ex_pool (sv_executor sv)) p"
  shows "service_ok (sv\<lparr>sv_executor := (sv_executor sv)\<lparr>ex_pool := p\<rparr>\<rparr>)"
proof -
  have ok: "pool_ok (ex_pool (sv_executor sv))" using assms(1) by (simp add: service_ok_def executor_ok_def)
  have "pool_ok p" using pool_step_ok [OF pool_quiet_step [OF assms(2)] ok] by simp
  moreover have "pool_works_on p op \<Longrightarrow> pool_works_on (ex_pool (sv_executor sv)) op" for op
    using pool_quiet_shrinks [OF assms(2) ok] by (simp add: pool_shrinks_def)
  ultimately show ?thesis
    using assms(1) by (intro service_ok_executor)
      (auto simp: service_ok_def executor_ok_def cumulative_ok_def queued_under_def occupancy_def waiting_def)
qed

lemma action_finished_cases:
  assumes "action_finished_sync jobs shard dispatch_id now sv = Inr sv'"
  obtains p c where "pool_quiet (ex_pool (sv_executor sv)) p"
    "sv' = sv\<lparr>sv_executor := (sv_executor sv)\<lparr>ex_pool := p\<rparr>, sv_result_cache := c\<rparr>"
proof -
  obtain p r where p: "release_worker shard dispatch_id (ex_pool (sv_executor sv)) = Inr (p, r)"
    using assms by (cases "release_worker shard dispatch_id (ex_pool (sv_executor sv))") (auto simp: action_finished_sync_def)
  have "sv' = sv\<lparr>sv_executor := (sv_executor sv)\<lparr>ex_pool := p\<rparr>\<rparr> \<or>
      (\<exists>c. sv' = sv\<lparr>sv_executor := (sv_executor sv)\<lparr>ex_pool := p\<rparr>, sv_result_cache := c\<rparr>)"
    using assms p by (auto simp: action_finished_sync_def add_results_def Let_def split: release_result.splits bool.splits option.splits)
  moreover have "sv\<lparr>sv_executor := x\<rparr> = sv\<lparr>sv_executor := x, sv_result_cache := sv_result_cache sv\<rparr>" for x by (cases sv) simp
  ultimately have "\<exists>c. sv' = sv\<lparr>sv_executor := (sv_executor sv)\<lparr>ex_pool := p\<rparr>, sv_result_cache := c\<rparr>" by metis
  then show thesis using that [OF pool_quiet.intros(6) [OF p]] by blast
qed

lemma action_finished_ok:
  assumes "service_ok sv" "action_finished_sync jobs shard dispatch_id now sv = Inr sv'"
  shows "service_ok sv'"
proof (rule action_finished_cases [OF assms(2)])
  fix p c
  assume "pool_quiet (ex_pool (sv_executor sv)) p" "sv' = sv\<lparr>sv_executor := (sv_executor sv)\<lparr>ex_pool := p\<rparr>, sv_result_cache := c\<rparr>"
  then show "service_ok sv'" using service_ok_pool [OF assms(1)] service_ok_cache(1) by metis
qed

lemma es_step_ok:
  assumes "es_step True sv sv'" "service_ok sv"
  shows "service_ok sv'"
  using assms
proof (induction rule: es_step.induct)
  case (Enter sv)
  then show ?case by (simp add: enter_section_def service_ok_def pending_ok_def handover_ok_def)
next
  case (Discard sv operations)
  then show ?case by (simp add: discard_cached_results_def Let_def split: prod.split)
next
  case (Run sv x)
  then have "executor_ok x" "waiting x = waiting (sv_executor sv)" "ex_pool x = ex_pool (sv_executor sv)"
    "ex_currently_executing x = [] \<or> ex_extracted x = []"
    using run_step_effect [of "sv_executor sv"] by (auto simp: service_ok_def)
  then show ?case using Run.prems by (intro service_ok_executor) (simp_all add: occupancy_def)
next
  case (Round draw now sv x)
  have occ: "occupancy (sv_executor sv) op \<le> 1" for op using Round.prems by (simp add: service_ok_def handover_ok_def op_ok_def)
  have "\<not> pool_works_on (ex_pool (sv_executor sv)) op" if "op \<in> set (ex_currently_executing (sv_executor sv))" for op
    using occ that by (rule executing_not_worked_on)
  then obtain given where g: "executor_ok x" "ex_extracted x = ex_extracted (sv_executor sv)" "ex_queue x = ex_queue (sv_executor sv)"
    "ex_currently_executing (sv_executor sv) = ex_currently_executing x @ given"
    "\<And>op. pool_works_on (ex_pool x) op \<longleftrightarrow> op \<in> set given \<or> pool_works_on (ex_pool (sv_executor sv)) op"
    using execute_round_effect [of "sv_executor sv" draw now] Round by (auto simp: service_ok_def)
  have "occupancy x op \<le> occupancy (sv_executor sv) op" for op
  proof (cases "op \<in> set given")
    case True
    then have "0 < count (mset given) op" by simp
    then show ?thesis using g by (simp add: occupancy_def waiting_def)
  qed (use g in \<open>simp add: occupancy_def waiting_def\<close>)
  moreover have "ex_currently_executing (sv_executor sv) = [] \<or> ex_extracted (sv_executor sv) = []"
    using Round.prems by (simp add: service_ok_def)
  then have "ex_currently_executing x = [] \<or> ex_extracted x = []" using g(2) unfolding g(4) by auto
  ultimately show ?case by (intro service_ok_executor [OF Round.prems g(1)])
next
  case (Enqueue sv operation priority timestamp sv' pushed)
  then show ?case using enqueue_sync_ok [OF Enqueue.prems Enqueue.hyps(1) Enqueue.hyps(2) [OF TrueI] Enqueue.hyps(3)] by blast
next
  case (Dequeue_ignore sv operation)
  then show ?case by (intro dequeue_and_ignore_ok)
next
  case (Action sv a rest)
  then show ?case by (intro run_action_ok)
qed (auto intro: action_finished_ok leave_section_ok service_ok_pool)

lemma es_reach_ok: "es_reach True sv \<Longrightarrow> service_ok sv"
  by (induction rule: es_reach.induct) (use es_init_ok es_step_ok in blast)+


text \<open>All actions handed over are applied, with nothing else in between.\<close>

lemma apply_loop_action_handed: "apply_loop_action a (sv\<lparr>sv_handed := hs\<rparr>) = (apply_loop_action a sv)\<lparr>sv_handed := hs\<rparr>"
  by (cases a) (auto simp: clear_pending_one_def split: option.split)

lemma apply_other_queue:
  assumes "service_ok sv" "ex_extracted (sv_executor sv) = []" "sv_handed sv = a # rest" "action_op a \<noteq> op"
  shows "aq_contains (ex_queue (sv_executor (apply_loop_action a sv))) op = aq_contains (ex_queue (sv_executor sv)) op"
proof (cases a)
  case (PushAction operation priority timestamp)
  obtain x' success where run: "executor_enqueue operation priority timestamp (sv_executor sv) = (x', success)"
    by (cases "executor_enqueue operation priority timestamp (sv_executor sv)")
  have x: "executor_ok (sv_executor sv)" using assms(1) by (simp add: service_ok_def)
  note e = executor_enqueue_effect [OF x run]
  let ?items = "\<lambda>x. image_mset qe_item (aq_entries (ex_queue x))"
  have items: "?items x' = (if success then add_mset operation (?items (sv_executor sv)) else ?items (sv_executor sv))"
    using e by (auto simp: waiting_def split: if_splits)
  have "op \<in># ?items x' \<longleftrightarrow> op \<in># ?items (sv_executor sv)" unfolding items using assms(4) PushAction by simp
  moreover have "aq_contains (ex_queue y) op \<longleftrightarrow> op \<in># ?items y" if "executor_ok y" for y
    using that by (auto simp: executor_ok_def aq_contains_iff)
  ultimately show ?thesis using e x PushAction run by simp
next
  case (DequeueAction operation)
  have x: "executor_ok (sv_executor sv)" using assms(1) by (simp add: service_ok_def)
  have inv: "aq_inv (ex_queue (sv_executor sv))" using x by (simp add: executor_ok_def)
  have q: "ex_queue (ignore_if_present operation y) = ex_queue y" for y by (simp add: ignore_if_present_def split: sum.split)
  have "aq_contains (ex_queue (fst (executor_dequeue operation (sv_executor sv)))) op = aq_contains (ex_queue (sv_executor sv)) op"
  proof (cases "aq_contains (ex_queue (sv_executor sv)) operation")
    case True
    obtain q e where "aq_remove (ex_queue (sv_executor sv)) operation = Inr (q, e)" "aq_inv q" "qe_item e = operation"
      and entries: "add_mset e (aq_entries q) = aq_entries (ex_queue (sv_executor sv))" by (rule aq_remove_effect [OF inv True])
    moreover obtain cum where "remove_from_cumulative_status e ((sv_executor sv)\<lparr>ex_queue := q\<rparr>) =
        Inr ((sv_executor sv)\<lparr>ex_queue := q, ex_cumulative := cum\<rparr>)"
      using remove_from_cumulative_effect [of "sv_executor sv" e q] x entries by (auto simp: executor_ok_def)
    moreover have "aq_contains q op = aq_contains (ex_queue (sv_executor sv)) op"
      using aq_contains_iff [OF inv, of op] aq_contains_iff [of q op] calculation(2,3) assms(4) DequeueAction
      unfolding entries [symmetric] by auto
    ultimately show ?thesis by (simp add: executor_dequeue_def)
  qed (simp add: executor_dequeue_def aq_remove_absent drop_executing_def)
  then show ?thesis using DequeueAction by (simp add: q)
qed

lemma run_all_actions:
  assumes "service_ok (sv\<lparr>sv_handed := actions\<rparr>)" "ex_extracted (sv_executor sv) = []" "sv_loop_actions sv = []"
  defines "sv' \<equiv> run_loop_actions actions (sv\<lparr>sv_handed := []\<rparr>)"
  shows "service_ok sv' \<and> ex_extracted (sv_executor sv') = [] \<and>
    (aq_contains (ex_queue (sv_executor sv')) op \<longleftrightarrow>
      (if kinds op actions = [] then aq_contains (ex_queue (sv_executor sv)) op else last (kinds op actions) = Push))"
  using assms(1-3) unfolding sv'_def
proof (induction actions arbitrary: sv)
  case Nil
  then show ?case by (simp add: run_loop_actions_def)
next
  case (Cons a actions)
  let ?sv = "apply_loop_action a (sv\<lparr>sv_handed := actions\<rparr>)"
  have ok: "service_ok ?sv" using run_action_ok [OF Cons.prems(1)] Cons.prems(2) by simp
  have handed: "?sv\<lparr>sv_handed := actions\<rparr> = ?sv" "?sv\<lparr>sv_handed := []\<rparr> = apply_loop_action a (sv\<lparr>sv_handed := []\<rparr>)"
    by (simp_all add: apply_loop_action_handed)
  have x: "executor_ok (sv_executor sv)"
    and first: "op_ok (occupancy (sv_executor sv) (action_op a)) (kinds (action_op a) (a # actions)) [] (action_op a \<in> set (sv_dequeued_in_section sv))"
    using Cons.prems(1,3) by (auto simp: service_ok_def handover_ok_def dest!: spec [of _ "action_op a"])
  have step: "ex_extracted (sv_executor ?sv) = [] \<and>
    (aq_contains (ex_queue (sv_executor ?sv)) op \<longleftrightarrow> (if action_op a = op then kind_of a = Push else aq_contains (ex_queue (sv_executor sv)) op))"
  proof (cases a)
    case (PushAction operation priority timestamp)
    then have zero: "occupancy (sv_executor (sv\<lparr>sv_handed := actions\<rparr>)) operation = 0" using op_ok_pushed first by auto
    have "executor_ok (sv_executor (sv\<lparr>sv_handed := actions\<rparr>))" using x by simp
    from apply_push_effect(3,5) [OF this zero, of priority timestamp] show ?thesis
      using apply_other_queue [of "sv\<lparr>sv_handed := a # actions\<rparr>" a actions op] Cons.prems PushAction
      by (auto simp: apply_loop_action_handed)
  next
    case (DequeueAction operation)
    then have le: "occupancy (sv_executor (sv\<lparr>sv_handed := actions\<rparr>)) operation \<le> 1" using first by (simp add: op_ok_def)
    have x': "executor_ok (sv_executor (sv\<lparr>sv_handed := actions\<rparr>))" "ex_extracted (sv_executor (sv\<lparr>sv_handed := actions\<rparr>)) = []"
      using x Cons.prems(2) by simp_all
    note e = apply_dequeue_effect [OF x' le]
    have "\<not> aq_contains (ex_queue (sv_executor ?sv)) operation"
      using e(1) e(2) [of operation] DequeueAction
      by (auto simp: occupancy_def waiting_def executor_ok_def aq_contains_iff not_in_iff [symmetric] split: if_splits)
    then show ?thesis
      using apply_other_queue [of "sv\<lparr>sv_handed := a # actions\<rparr>" a actions op] Cons.prems DequeueAction e(3)
      by (auto simp: apply_loop_action_handed)
  qed
  have "sv_loop_actions ?sv = []" using Cons.prems(3) by simp
  from Cons.IH [of ?sv, unfolded handed, OF ok _ this] step show ?case by (auto simp: run_loop_actions_def)
qed


lemma run_loop_actions_lists:
  "sv_handed sv = [] \<Longrightarrow> sv_loop_actions sv = [] \<Longrightarrow>
   sv_handed (run_loop_actions actions sv) = [] \<and> sv_loop_actions (run_loop_actions actions sv) = []"
  by (induction actions arbitrary: sv) (simp_all add: run_loop_actions_def)

lemma discarded_step: "es_step c sv sv' \<Longrightarrow> set (sv_discarded sv) \<subseteq> set (sv_discarded sv')"
proof (induction rule: es_step.induct)
  case (Finished sv jobs shard dispatch_id now sv')
  from Finished(2) show ?case by (rule action_finished_cases) simp
qed (auto simp: enter_section_def enqueue_sync_def push_to_queue_def schedule_loop_action_def flush_loop_actions_def Let_def
    threadsafe_dequeue_and_ignore_def discard_cached_results_def leave_section_def split: if_splits prod.splits)

lemma discarded_grow: "(es_step c)\<^sup>*\<^sup>* sv sv' \<Longrightarrow> set (sv_discarded sv) \<subseteq> set (sv_discarded sv')"
  by (induction rule: rtranclp_induct) (use discarded_step in blast)+

lemma enqueue_refused:
  assumes "enqueue_sync operation priority timestamp sv = (sv', False)"
  shows "map_option fst (dict_get (sv_pending_operations sv) operation) = Some Push \<or> executor_contains (sv_executor sv) operation \<or>
    fl_contains (sv_result_cache sv) operation"
  using assms by (rule_tac ccontr) (simp add: enqueue_sync_def Let_def)

section \<open>Properties\<close>

text \<open>
  C29. No operation is done twice at the same time. In every state that the threads and the event loop can reach together, as long as
  nothing is enqueued between the extraction of a batch and its execution, an operation is at most once among those in the queue, extracted, waiting for
  a worker, or worked on by a worker whose result will count; the executor never raises when it extracts operations or gives them
  to a worker; and the summary that is shown counts exactly the operations queued under each type, object, dataset and priority.
\<close>

theorem operations_held_once:
  assumes "es_reach True sv"
  shows "(\<forall>op. count (waiting (sv_executor sv)) op + (if pool_works_on (ex_pool (sv_executor sv)) op then 1 else 0) \<le> 1) \<and>
    (ex_currently_executing (sv_executor sv) = [] \<longrightarrow> \<not> isl (run_step (sv_executor sv))) \<and>
    \<not> isl (execute_round draw now (sv_executor sv)) \<and>
    (\<forall>key. map_option qs_multiplicity (dict_get (ex_cumulative (sv_executor sv)) key) =
       (if queued_under (sv_executor sv) key = 0 then None else Some (int (queued_under (sv_executor sv) key))))"
proof -
  have ok: "service_ok sv" by (rule es_reach_ok [OF assms])
  then have x: "executor_ok (sv_executor sv)" by (simp add: service_ok_def)
  have occ: "occupancy (sv_executor sv) op \<le> 1" for op using ok by (simp add: service_ok_def handover_ok_def op_ok_def)
  have "\<not> pool_works_on (ex_pool (sv_executor sv)) op" if "op \<in> set (ex_currently_executing (sv_executor sv))" for op
    using occ [of op] that by (rule executing_not_worked_on)
  then have "\<not> isl (execute_round draw now (sv_executor sv))" using execute_round_effect [OF x, of draw now] by auto
  moreover have "\<not> isl (run_step (sv_executor sv))" if "ex_currently_executing (sv_executor sv) = []"
    using run_step_effect [OF x that] by auto
  ultimately show ?thesis using occ x unfolding occupancy_def executor_ok_def cumulative_ok_def by blast
qed

definition busy_service :: es_service where
  "busy_service = fst (enqueue_sync op_sample 1 1000 (enter_section es_init))"

definition queued_service :: es_service where
  "queued_service = (let sv = leave_section busy_service in run_loop_actions (sv_handed sv) (sv\<lparr>sv_handed := []\<rparr>))"

lemma busy_service_reach: "es_reach c busy_service"
proof -
  have "enqueue_sync op_sample 1 1000 (enter_section es_init) = (busy_service, True)" unfolding busy_service_def by code_simp
  then show ?thesis
    by (intro Then [OF Then [OF Start Enter] Enqueue]) (simp_all add: enter_section_def es_init_def)
qed

lemma queued_service_reach: "es_reach c queued_service"
proof -
  let ?sv = "leave_section busy_service"
  have handed: "sv_handed ?sv = [PushAction op_sample 1 1000]" "ex_extracted (sv_executor ?sv) = []" "sv_post_finish_depth busy_service = 1"
    by code_simp+
  have "es_reach c ?sv" using handed(3) by (intro Then [OF busy_service_reach Leave]) simp
  from Then [OF this Action [OF handed(2,1)]] show ?thesis
    by (simp add: queued_service_def run_loop_actions_def Let_def handed(1))
qed

theorem operations_held_once_witness:
  "aq_contains (ex_queue (sv_executor queued_service)) op_sample \<and>
   count (waiting (sv_executor queued_service)) op_sample + (if pool_works_on (ex_pool (sv_executor queued_service)) op_sample then 1 else 0) \<le> 1"
proof -
  have "aq_contains (ex_queue (sv_executor queued_service)) op_sample" by code_simp
  then show ?thesis using operations_held_once [OF queued_service_reach] by blast
qed




text \<open>
  C31. A result that an invalidation made stale is never written: once a section has discarded the cached results of some operations, every
  one of those results, waiting or already taken by a flush that is still under way, is left out of every batch that is written in any later state.
\<close>

theorem discarded_never_written:
  assumes "(cached, result) \<in> set (fl_d (sv_result_cache sv)) \<union> (\<Union>(_, batch) \<in> set (fl_flushing (sv_result_cache sv)). set batch)"
    "operation \<in> set operations" "operation_key cached = operation_key operation"
    "(es_step c)\<^sup>*\<^sup>* (discard_cached_results operations sv) sv'"
  shows "(op, result) \<notin> set (results_to_write sv' items)"
proof -
  have "wr_id result \<in> set (sv_discarded (discard_cached_results operations sv))"
  proof -
    have key: "operation_key cached \<in> set (map operation_key operations)" using assms(2,3) by auto
    have "result \<in> set (snd (fl_discard (\<lambda>cached. operation_key cached \<in> set (map operation_key operations)) (sv_result_cache sv)))"
      by (rule fl_discard_removed [OF assms(1), of "\<lambda>cached. operation_key cached \<in> set (map operation_key operations)", OF key])
    then show ?thesis by (auto simp: discard_cached_results_def Let_def split: prod.split)
  qed
  then have "wr_id result \<in> set (sv_discarded sv')" using discarded_grow [OF assms(4)] by blast
  then show ?thesis by (auto simp: results_to_write_def)
qed


definition stale_result :: worker_result where "stale_result = \<lparr>wr_id = 7, wr_job_success = True\<rparr>"

definition cached_service :: es_service where
  "cached_service = es_init\<lparr>sv_result_cache := fl_add op_sample stale_result 5 (sv_result_cache es_init)\<rparr>"

theorem discarded_never_written_witness:
  "(op_sample, stale_result) \<in> set (fl_d (sv_result_cache cached_service)) \<and>
   (op_sample, stale_result) \<notin> set (results_to_write (discard_cached_results [op_sample] cached_service) [(op_sample, stale_result)])"
proof -
  have "(op_sample, stale_result) \<in> set (fl_d (sv_result_cache cached_service))" by code_simp
  with discarded_never_written [of op_sample stale_result cached_service op_sample "[op_sample]" False] show ?thesis by simp
qed

text \<open>The results of a batch are grouped without loss, each under its own object and type.\<close>

lemma by_object_and_type_snoc:
  "by_object_and_type (items @ [(operation, result)]) =
     dict_set (object_key operation) ((case dict_get (by_object_and_type items) (object_key operation) of None \<Rightarrow> [] | Some g \<Rightarrow> g) @ [(operation, result)])
       (by_object_and_type items)"
  by (simp add: by_object_and_type_def Let_def)

lemma by_object_and_type_groups:
  "dict_get (by_object_and_type items) key =
    (let group = filter (\<lambda>(operation, _). object_key operation = key) items in if group = [] then None else Some group)"
proof (induction items rule: rev_induct)
  case Nil
  then show ?case by (simp add: by_object_and_type_def)
next
  case (snoc item items)
  obtain operation result where item: "item = (operation, result)" by (cases item)
  show ?case
  proof (cases "object_key operation = key")
    case True
    then show ?thesis using snoc by (auto simp: item by_object_and_type_snoc dict_get_set Let_def split: option.splits)
  next
    case False
    then show ?thesis using snoc by (simp add: item by_object_and_type_snoc dict_get_set)
  qed
qed

text \<open>
  The window. The executor first takes the operations of a batch from the queue and only then notes them as being executed; in
  between they are in neither place. A request that looks for one of them at that moment, on its own thread, does not find it.
\<close>

definition race_pool :: es_service where
  "race_pool = queued_service\<lparr>sv_executor := (sv_executor queued_service)\<lparr>ex_pool := add_worker 3 True (ex_pool (sv_executor queued_service))\<rparr>\<rparr>"

definition race_extracted :: es_service where
  "race_extracted = race_pool\<lparr>sv_executor := the (projr (run_step (sv_executor race_pool)))\<rparr>"

definition race_requested :: es_service where
  "race_requested = fst (enqueue_sync op_sample 1 1000 (enter_section race_extracted))"

definition race_executing :: es_service where
  "race_executing = race_requested\<lparr>sv_executor := the (projr (run_step (sv_executor race_requested)))\<rparr>"

definition race_working :: es_service where
  "race_working = race_executing\<lparr>sv_executor := projr (execute_round 0 2000 (sv_executor race_executing))\<rparr>"

definition race_twice :: es_service where
  "race_twice = apply_loop_action (PushAction op_sample 1 1000) ((leave_section race_working)\<lparr>sv_handed := []\<rparr>)"

lemma race_reach: "es_reach False race_twice"
proof -
  have states: "race_pool\<lparr>sv_executor := sv_executor race_extracted\<rparr> = race_extracted"
    "race_requested\<lparr>sv_executor := sv_executor race_executing\<rparr> = race_executing"
    "race_executing\<lparr>sv_executor := sv_executor race_working\<rparr> = race_working"
    unfolding race_extracted_def race_executing_def race_working_def by simp_all
  have pool: "es_reach False race_pool"
    unfolding race_pool_def
  proof (intro Then [OF queued_service_reach] Pool pool_quiet.intros(1))
    show "worker_at (ex_pool (sv_executor queued_service)) 3 = None" by code_simp
  qed
  have run1: "run_step (sv_executor race_pool) = Inr (Some (sv_executor race_extracted))" "ex_currently_executing (sv_executor race_pool) = []"
    by code_simp+
  have extracted: "es_reach False race_extracted"
    using Then [OF pool Run [OF run1(2,1)]] unfolding states .
  have ask: "enqueue_sync op_sample 1 1000 (enter_section race_extracted) = (race_requested, True)" by code_simp
  have "0 < sv_post_finish_depth (enter_section race_extracted)" by (simp add: enter_section_def)
  from Then [OF Then [OF extracted Enter] Enqueue [OF this _ ask]] have requested: "es_reach False race_requested" by simp
  have run2: "run_step (sv_executor race_requested) = Inr (Some (sv_executor race_executing))" "ex_currently_executing (sv_executor race_requested) = []"
    by code_simp+
  have executing: "es_reach False race_executing"
    using Then [OF requested Run [OF run2(2,1)]] unfolding states .
  have round: "execute_round 0 2000 (sv_executor race_executing) = Inr (sv_executor race_working)" by code_simp
  have working: "es_reach False race_working"
    using Then [OF executing Round [OF round]] unfolding states .
  have fin: "0 < sv_post_finish_depth race_working" "ex_extracted (sv_executor (leave_section race_working)) = []"
    "sv_handed (leave_section race_working) = [PushAction op_sample 1 1000]" by code_simp+
  from Then [OF Then [OF working Leave [OF fin(1)]] Action [OF fin(2,3)]] show ?thesis by (simp add: race_twice_def)
qed

text \<open>
  C32. Without that proviso an operation can be done twice: there is a run in which an operation is in the queue again while a worker works on it and its
  result will count.
\<close>

theorem enqueue_race:
  "\<exists>sv op. es_reach False sv \<and> aq_contains (ex_queue (sv_executor sv)) op \<and> pool_works_on (ex_pool (sv_executor sv)) op"
proof -
  have queued: "aq_contains (ex_queue (sv_executor race_twice)) op_sample" by code_simp
  have "map_option (\<lambda>w. works_on w op_sample) (worker_at (ex_pool (sv_executor race_twice)) 3) = Some True" by code_simp
  then have "pool_works_on (ex_pool (sv_executor race_twice)) op_sample" by (auto simp: pool_works_on_def)
  then show ?thesis using race_reach queued by blast
qed

end
