(* ===== verification/Spec2Isabelle.thy ===== *)
theory Spec2Isabelle
  imports Prelude PriorityQueue PhaseManagement Tokening SubtaskDag ScoreTypes TaskScoring RankingScoring TwoPhase ESOperations WorkerPool WatchdogLedger WatchdogPolicy WhiteDiff SubmissionFiles SubmissionWorkflow AsyncPriorityQueue FlushingDict EvaluationQueue
begin

text \<open>
  A verification development for the Contest Management System (CMS): the parts of the Python program that
  decide who may do what during a contest, what is judged when and by whom, what a submission scores, and
  what the watchdog restarts. Each theory models one component as executable definitions, translated from
  the source, and proves what makes the component correct. All paths below are under \<^verbatim>\<open>src/\<close>.

  \<^bold>\<open>The program and how its parts interact.\<close> A contestant talks to the contest web server, which computes the
  phase of the contest the user is in (\<^verbatim>\<open>cms/server/contest/phase_management.py\<close>) and guards its handlers
  with it, sends submissions and user tests, whose files are matched with the format of the task and which are
  accepted within the limits of contest and task (\<^verbatim>\<open>submission/\<close>), and plays tokens (\<^verbatim>\<open>tokening.py\<close>). The evaluation service reads the
  database to find what is still to compile and evaluate (\<^verbatim>\<open>cms/service/esoperations.py\<close>), keeps the work in a
  priority queue (\<^verbatim>\<open>cms/io/priorityqueue.py\<close>, \<^verbatim>\<open>async_priorityqueue.py\<close>), from which its executor takes batches and hands them to a pool of workers
  (\<^verbatim>\<open>cms/service/workerpool.py\<close>). Threads that react to contestants, workers and administrators have the event loop push and remove operations
  (\<^verbatim>\<open>cms/service/EvaluationService.py\<close>), and results wait in a cache until they are written (\<^verbatim>\<open>cms/service/flushingdict.py\<close>). Which testcases it may start or skip depends on the dependencies between
  subtasks (\<^verbatim>\<open>cms/grading/subtaskdag.py\<close>) and, in two-phase contests, on a screening
  (\<^verbatim>\<open>cms/grading/twophase.py\<close>). A worker compares the output of a program with the reference
  (\<^verbatim>\<open>cms/grading/steps/whitediff.py\<close>). From the outcomes a score type computes score and
  details (\<^verbatim>\<open>cms/grading/scoretypes/\<close>), and from those the score on a task is taken (\<^verbatim>\<open>cms/grading/scoring.py\<close>).
  The public ranking keeps its own scores under a stream of changes (\<^verbatim>\<open>cmsranking/Scoring.py\<close>). The
  watchdog observes all of these services and restarts a hung one within budgets
  (\<^verbatim>\<open>cms/watchdog/policy.py\<close>).

  \<^bold>\<open>The theories.\<close>

    \<^item> \<open>Prelude\<close>: exceptions as values (\<open>'a res\<close>), dictionaries as association lists, bounds-checked lists,
      JSON values, rounding, and the lemmas on them that the other theories share.
    \<^item> \<open>PriorityQueue\<close>: \<open>QueueEntry\<close> and \<open>PriorityQueue\<close>. The state is the heap list, the reverse dictionary
      and the next index; every method is an operation on it. The heap invariant and the exactness of the
      reverse dictionary hold in every reachable queue; \<open>pop\<close> returns the least entry; the queue refines
      a finite map, through the interface \<open>keyed_queue\<close> that it interprets.
    \<^item> \<open>PhaseManagement\<close>: \<open>compute_actual_phase\<close> with all its assertions, and the decorator that lets a request
      reach its handler. The phase is the one whose interval contains the time, it never goes back, and
      the window of a user lies within the contest.
    \<^item> \<open>Tokening\<close>: \<open>tokens_available\<close> and \<open>accept_token\<close>. In every database that requests can produce the
      limits hold; the announced time of the next token is right.
    \<^item> \<open>SubmissionFiles\<close>, \<open>SubmissionWorkflow\<close>: the files received, the language they are in, and
      \<open>accept_submission\<close> and \<open>accept_user_test\<close> with their checks. The files are matched in the only way possible;
      an archive is unpacked within its bounds; in every database that requests can produce the limits hold; an accepted
      submission holds exactly what it should.
    \<^item> \<open>SubtaskDag\<close>: reading, ordering and zeroing by dependencies, and \<open>SubtaskGate\<close>. The order is topological, zeroing
      is transitive. The interface \<open>gated_reduce\<close> states what the gate needs of a group score type.
    \<^item> \<open>ScoreTypes\<close>: the classes \<open>ScoreTypeAlone\<close>, \<open>ScoreTypeGroup\<close>, \<open>Sum\<close>, \<open>GroupMin\<close>, \<open>GroupMul\<close> and
      \<open>GroupThreshold\<close>; the three reductions interpret \<open>gated_reduce\<close>. Scores stay in range; skipping what the
      gate skips changes no score; the public details depend on public testcases only.
    \<^item> \<open>TaskScoring\<close>: the score of a user on a task under each score mode, from the details that \<open>ScoreTypes\<close>
      writes.
    \<^item> \<open>RankingScoring\<close>: the score of the ranking under creation, update and deletion of submissions and changes in any
      order, its history, and the past.
    \<^item> \<open>TwoPhase\<close>, \<open>ESOperations\<close>: the screening status, and the operations of the evaluation service. The SQL
      queries over a whole contest select exactly the operations of the functions over one
      submission; screening never blocks a submission for ever.
    \<^item> \<open>WorkerPool\<close>: every operation of the pool, and all its runs as a step relation. In every reachable state the
      reverse dictionary is exact for the operations worked on, stale answers are ignored, no operation is lost. The two sweeps over the workers
      interpret the interface \<open>worker_sweep\<close>.
    \<^item> \<open>AsyncPriorityQueue\<close>, \<open>FlushingDict\<close>: the queue of the asynchronous services, a \<open>PriorityQueue\<close> with default times
      that never go back, and the dictionary of results. Entries of the dictionary are handed on exactly once unless overwritten or discarded, and in time.
    \<^item> \<open>EvaluationQueue\<close>: the executor of the evaluation service, the sections under \<open>post_finish_lock\<close> and the actions they hand to
      the event loop, interleaved as a step relation over queue, pool and cache. An operation is held once as long as nothing is enqueued
      while a batch is between queue and execution, and can be held twice otherwise; requests are never forgotten; stale results are never written.
    \<^item> \<open>WatchdogLedger\<close>, \<open>WatchdogPolicy\<close>: the ledger, its file and its budgets; one cycle of the policy with
      all its rules and holds. A cycle never raises and acts only when it is safe to; over any run the
      budgets hold, by the interface \<open>cycle_budget\<close> that the three budgets interpret.
    \<^item> \<open>WhiteDiff\<close>: the comparison of outputs. It accepts exactly the outputs with the same words line by line,
      and its messages can be stored.

  \<^bold>\<open>Conventions.\<close> An exception is a value, with the type of the exception and without its message. A class is a record; its
  methods take and return it. A Python dictionary is an association list in insertion order; a set is a
  list or a set where the order cannot be seen. Dates and time differences are integers (microseconds); floats
  that carry scores or seconds are exact rationals, so that rounding errors of binary floating point are outside the model.
  \<^verbatim>\<open>float()\<close> of an outcome string is the datatype \<open>outcome\<close>. A table of the database is the list of its rows
  and a query a filter over it, with SQL's three-valued comparison where a column can be null. What the program
  asks of code outside of it is an argument: the matching of regular expressions, the answer of
  an advisory lock, a random choice, the configuration, the entity stores of the ranking, the reading of archives, the storage of
  files, the installed languages.

  \<^bold>\<open>Termination and fuel.\<close> Every definition is total. The loops that are not structural (sifting in the heap, the
  simulation of token generation, the ordering of subtasks, reading two files line by line) are functions with
  termination proofs; no definition uses fuel. A run of several requests or cycles is a list of them,
  or an inductive relation with invariants by rule induction.

  \<^bold>\<open>Not modelled.\<close> The services around these parts are input and output: the RPC and web layers
  (\<^verbatim>\<open>cms/io\<close> but for the queues, the handlers and templates of \<^verbatim>\<open>cms/server\<close>), the event loops of the services in
  \<^verbatim>\<open>cms/service\<close>, the methods of the evaluation service that write results and invalidations to the database and its sweeper, the sandbox and the task types that run programs in it (\<^verbatim>\<open>cms/grading/Sandbox.py\<close>,
  \<^verbatim>\<open>cms/grading/tasktypes\<close>), the database layer (\<^verbatim>\<open>cms/db\<close>) beyond the columns and methods the modelled functions
  read, the probes and actuators of the watchdog, the web server of the ranking, and the command line tools
  and importers (\<^verbatim>\<open>cmscontrib\<close>, \<^verbatim>\<open>cmstestsuite\<close>). Within the modelled parts the texts of alerts and log
  lines, HTML rendering, and the statistics of the watchdog's hourly summary are left out; each theory says
  what it leaves out.
\<close>

end
